(* ===== verification/Pega_Prelude.thy ===== *)
theory Pega_Prelude
  imports Main "HOL-Library.Word" "HOL-Library.Monad_Syntax"
begin

text \<open>
  Shared vocabulary of the development: the machine integers of the Rust source, the
  two effects its functions have (a panic and an error result), and the generic facts on
  lists and words that the component theories rest on.

  \<^item> An unsigned integer type of the source is a word of its width. \<open>usize\<close> is a
    natural number where it only counts or indexes, with the bound \<open>2 ^ 64\<close> written
    out where the source computes a new \<open>usize\<close> that might not fit.
  \<^item> A panic (an index out of range, \<open>unwrap\<close> of \<open>None\<close>, an arithmetic overflow
    under overflow checks) is the value \<open>None\<close> of an \<open>outcome\<close>. Where a theorem shows
    that no overflow happens, a build without overflow checks computes the same value.
  \<^item> \<open>Result<T, E>\<close> is the sum \<open>'e + 'a\<close>, \<open>Inl\<close> being \<open>Err\<close>.
\<close>

section \<open>Machine integers\<close>

type_synonym u8 = "8 word"
type_synonym u16 = "16 word"
type_synonym u32 = "32 word"
type_synonym u64 = "64 word"
type_synonym usize = nat
type_synonym bytes = "u8 list"

type_synonym 'a outcome = "'a option"

abbreviation panic :: "'a outcome" where
  "panic \<equiv> None"

abbreviation usize_bound :: nat where
  "usize_bound \<equiv> 2 ^ 64"

named_theorems word_ops \<open>characterisations of the checked word operations\<close>

text \<open>
  \<open>checked_add\<close> and \<open>checked_sub\<close> are the methods of those names; as outcomes they are
  also the operators \<open>+\<close> and \<open>-\<close> under overflow checks.
\<close>

definition checked_add :: "'w::len word \<Rightarrow> 'w word \<Rightarrow> 'w word option" where
  "checked_add a b = (if unat a + unat b < 2 ^ LENGTH('w) then Some (a + b) else None)"

definition checked_sub :: "'w::len word \<Rightarrow> 'w word \<Rightarrow> 'w word option" where
  "checked_sub a b = (if b \<le> a then Some (a - b) else None)"

definition saturating_add :: "'w::len word \<Rightarrow> 'w word \<Rightarrow> 'w word" where
  "saturating_add a b = (if unat a + unat b < 2 ^ LENGTH('w) then a + b else -1)"

text \<open>A running \<open>u64\<close> sum: \<open>iter().sum()\<close> and the loops that add up lengths.\<close>

fun checked_sum :: "'w::len word \<Rightarrow> 'w word list \<Rightarrow> 'w word option" where
  "checked_sum acc [] = Some acc"
| "checked_sum acc (x # xs) = (case checked_add acc x of None \<Rightarrow> None | Some s \<Rightarrow> checked_sum s xs)"

text \<open>A slice index: \<open>xs[i]\<close> panics when \<open>i\<close> is out of range.\<close>

definition index :: "'a list \<Rightarrow> usize \<Rightarrow> 'a outcome" where
  "index xs i = (if i < length xs then Some (xs ! i) else panic)"

lemma unat_bound: "unat (w :: 'w::len word) < 2 ^ LENGTH('w)"
  by simp

lemma addr_inj:
  assumes "n \<le> 2 ^ 64" "i < n" "j < n" "(a :: u64) + word_of_nat i = a + word_of_nat j"
  shows "i = j"
proof -
  have eq: "(word_of_nat i :: u64) = word_of_nat j" using assms(4) by simp
  have "i = unat (word_of_nat i :: u64)" using assms(1,2) by (simp add: unat_of_nat)
  also have "\<dots> = unat (word_of_nat j :: u64)" by (rule arg_cong[OF eq])
  also have "\<dots> = j" using assms(1,3) by (simp add: unat_of_nat)
  finally show ?thesis .
qed

lemma unat_add_fits:
  fixes a b :: "'w::len word"
  assumes "unat a + unat b < 2 ^ LENGTH('w)"
  shows "unat (a + b) = unat a + unat b"
  using assms by (simp add: unat_word_ariths)

lemma checked_add_Some [word_ops]:
  fixes a b c :: "'w::len word"
  shows "checked_add a b = Some c \<longleftrightarrow> unat c = unat a + unat b"
proof
  assume "checked_add a b = Some c"
  then show "unat c = unat a + unat b"
    by (auto simp: checked_add_def unat_add_fits split: if_splits)
next
  assume c: "unat c = unat a + unat b"
  then have fits: "unat a + unat b < 2 ^ LENGTH('w)"
    using unat_bound[of c] by linarith
  then have "c = a + b"
    using c by (simp add: word_unat_eq_iff unat_add_fits)
  with fits show "checked_add a b = Some c"
    by (simp add: checked_add_def)
qed

lemma checked_add_None [word_ops]:
  fixes a b :: "'w::len word"
  shows "checked_add a b = None \<longleftrightarrow> 2 ^ LENGTH('w) \<le> unat a + unat b"
  by (auto simp: checked_add_def)

lemma checked_sub_Some [word_ops]:
  fixes a b c :: "'w::len word"
  shows "checked_sub a b = Some c \<longleftrightarrow> unat a = unat b + unat c"
proof
  assume "checked_sub a b = Some c"
  then show "unat a = unat b + unat c"
    by (auto simp: checked_sub_def unat_sub word_le_nat_alt split: if_splits)
next
  assume eq: "unat a = unat b + unat c"
  then have le: "b \<le> a"
    by (simp add: word_le_nat_alt)
  moreover have "unat (a - b) = unat c"
    using eq le by (simp add: unat_sub)
  ultimately show "checked_sub a b = Some c"
    by (simp add: checked_sub_def word_unat_eq_iff)
qed

lemma checked_sub_None [word_ops]:
  fixes a b :: "'w::len word"
  shows "checked_sub a b = None \<longleftrightarrow> unat a < unat b"
  by (auto simp: checked_sub_def word_le_nat_alt)

lemma unat_saturating_add [word_ops]:
  fixes a b :: "'w::len word"
  shows "unat (saturating_add a b) = min (unat a + unat b) (2 ^ LENGTH('w) - 1)"
proof (cases "unat a + unat b < 2 ^ LENGTH('w)")
  case True
  then show ?thesis
    by (simp add: saturating_add_def unat_add_fits)
next
  case False
  have "unat (- 1 :: 'w word) = 2 ^ LENGTH('w) - 1"
    by (simp add: unsigned_minus_1_eq_mask mask_eq_exp_minus_1)
  with False show ?thesis
    by (auto simp: saturating_add_def min_def)
qed

lemma checked_sum_Some [word_ops]:
  fixes acc t :: "'w::len word"
  shows "checked_sum acc xs = Some t \<longleftrightarrow> unat t = unat acc + sum_list (map unat xs)"
proof (induction xs arbitrary: acc)
  case Nil
  then show ?case by (auto simp: word_unat_eq_iff)
next
  case (Cons x xs)
  show ?case
  proof (cases "checked_add acc x")
    case None
    then have "2 ^ LENGTH('w) \<le> unat acc + unat x"
      by (simp add: checked_add_None)
    then have "unat t \<noteq> unat acc + sum_list (map unat (x # xs))"
      using unat_bound[of t] by (simp del: unsigned_less)
    with None show ?thesis by simp
  next
    case (Some s)
    then have "unat s = unat acc + unat x"
      by (simp add: checked_add_Some)
    with Some show ?thesis by (simp add: Cons.IH add.assoc)
  qed
qed

lemma index_Some [simp]: "index xs i = Some x \<longleftrightarrow> i < length xs \<and> x = xs ! i"
  by (auto simp: index_def)

lemma index_None [simp]: "index xs i = None \<longleftrightarrow> length xs \<le> i"
  by (simp add: index_def not_less)

section \<open>Results\<close>

text \<open>The \<open>?\<close> operator on \<open>Result\<close>, \<open>map_err\<close> and \<open>is_ok\<close>.\<close>

definition and_then :: "'e + 'a \<Rightarrow> ('a \<Rightarrow> 'e + 'b) \<Rightarrow> 'e + 'b" where
  "and_then r f = (case r of Inl e \<Rightarrow> Inl e | Inr x \<Rightarrow> f x)"

definition map_err :: "('e \<Rightarrow> 'f) \<Rightarrow> 'e + 'a \<Rightarrow> 'f + 'a" where
  "map_err g r = (case r of Inl e \<Rightarrow> Inl (g e) | Inr x \<Rightarrow> Inr x)"

definition is_ok :: "'e + 'a \<Rightarrow> bool" where
  "is_ok r = (case r of Inl _ \<Rightarrow> False | Inr _ \<Rightarrow> True)"

lemma and_then_simps [simp]:
  "and_then (Inl e) f = Inl e"
  "and_then (Inr x) f = f x"
  by (simp_all add: and_then_def)

lemma and_then_Inr [simp]: "and_then r f = Inr y \<longleftrightarrow> (\<exists>x. r = Inr x \<and> f x = Inr y)"
  by (cases r) simp_all

lemma map_err_simps [simp]:
  "map_err g (Inl e) = Inl (g e)"
  "map_err g (Inr x) = Inr x"
  by (simp_all add: map_err_def)

lemma map_err_Inr [simp]: "map_err g r = Inr x \<longleftrightarrow> r = Inr x"
  by (cases r) simp_all

lemma is_ok_simps [simp]: "\<not> is_ok (Inl e)" "is_ok (Inr x)"
  by (simp_all add: is_ok_def)

lemma is_ok_iff: "is_ok r \<longleftrightarrow> (\<exists>x. r = Inr x)"
  by (cases r) simp_all

section \<open>Lists\<close>

lemma sum_list_map_update:
  fixes f :: "'a \<Rightarrow> nat"
  assumes "i < length xs"
  shows "sum_list (map f (xs[i := x])) + f (xs ! i) = sum_list (map f xs) + f x"
  using assms
proof (induction xs arbitrary: i)
  case Nil
  then show ?case by simp
next
  case (Cons y ys)
  then show ?case
    by (cases i) (auto simp: algebra_simps)
qed

lemma sum_list_filter_split:
  fixes f :: "'a \<Rightarrow> nat"
  shows "sum_list (map f xs) = sum_list (map f (filter P xs)) + sum_list (map f (filter (\<lambda>x. \<not> P x) xs))"
  by (induction xs) auto

end
