(* ===== verification/Pega_Types.thy ===== *)
theory Pega_Types
  imports Pega_Prelude
begin

text \<open>
  The core vocabulary of the \<open>pegastore\<close> crate: \<open>types.rs\<close> (keys, devices, tiers,
  placement, retention, specifications, metadata, capabilities) and \<open>error.rs\<close> (the closed
  set of error kinds, the retry status, and the context that travels with an error).
  Enumerations are datatypes and structs are records with the source's fields; a record
  field carries a short prefix of its struct's name.
\<close>

section \<open>Keys, devices and places\<close>

type_synonym key = bytes
type_synonym slot_idx = u32
type_synonym node_id = u64

datatype device = Cpu u16 | Gpu u16

definition is_gpu :: "device \<Rightarrow> bool" where
  "is_gpu d = (case d of Gpu _ \<Rightarrow> True | Cpu _ \<Rightarrow> False)"

text \<open>The derived order: variants in declaration order, then their field.\<close>

instantiation device :: linorder
begin

definition less_eq_device :: "device \<Rightarrow> device \<Rightarrow> bool" where
  "less_eq_device a b = (case (a, b) of
      (Cpu m, Cpu n) \<Rightarrow> m \<le> n
    | (Cpu _, Gpu _) \<Rightarrow> True
    | (Gpu _, Cpu _) \<Rightarrow> False
    | (Gpu i, Gpu j) \<Rightarrow> i \<le> j)"

definition less_device :: "device \<Rightarrow> device \<Rightarrow> bool" where
  "less_device a b \<longleftrightarrow> a \<le> b \<and> \<not> b \<le> a"

instance
proof
  fix a b c :: device
  show "a < b \<longleftrightarrow> a \<le> b \<and> \<not> b \<le> a"
    by (simp add: less_device_def)
  show "a \<le> a"
    by (simp add: less_eq_device_def split: device.splits)
  show "a \<le> b \<Longrightarrow> b \<le> c \<Longrightarrow> a \<le> c"
    by (auto simp: less_eq_device_def split: device.splits)
  show "a \<le> b \<Longrightarrow> b \<le> a \<Longrightarrow> a = b"
    by (auto simp: less_eq_device_def split: device.splits)
  show "a \<le> b \<or> b \<le> a"
    by (auto simp: less_eq_device_def split: device.splits)
qed

end

datatype tier = Dram | Ssd | External

record location =
  loc_node :: node_id
  loc_device :: device
  loc_tier :: tier

datatype placement = Strict device | Prefer device | Each "device list" | Anywhere

datatype retention = Cache | Explicit

section \<open>Specifications and metadata\<close>

record slot_spec =
  ss_len :: u64
  ss_placement :: placement

record object_spec =
  os_retention :: retention
  os_slots :: "slot_spec list"

record replica =
  rep_location :: location
  rep_misplaced :: bool

record slot_info =
  si_len :: u64
  si_replicas :: "replica list"

definition is_resident :: "slot_info \<Rightarrow> bool" where
  "is_resident s \<longleftrightarrow> si_replicas s \<noteq> []"

record object_info =
  oi_retention :: retention
  oi_slots :: "slot_info list"

definition resident_slots :: "object_info \<Rightarrow> slot_idx list" where
  "resident_slots oi = map (\<lambda>(i, _). word_of_nat i) (filter (\<lambda>(_, s). is_resident s) (enumerate 0 (oi_slots oi)))"

definition is_fully_resident :: "object_info \<Rightarrow> bool" where
  "is_fully_resident oi = list_all is_resident (oi_slots oi)"

record capability =
  cap_gpu_memory :: bool
  cap_publish :: bool
  cap_placement_strict :: bool
  cap_placement_each :: bool
  cap_retention_explicit :: bool
  cap_remove_prefix :: bool
  cap_max_slot_len :: "u64 option"
  cap_max_slots :: "u32 option"
  cap_max_iov :: "u32 option"
  cap_max_stat_batch :: "u32 option"

definition capability_all :: capability where
  "capability_all = \<lparr>
     cap_gpu_memory = True, cap_publish = True, cap_placement_strict = True,
     cap_placement_each = True, cap_retention_explicit = True, cap_remove_prefix = True,
     cap_max_slot_len = None, cap_max_slots = None, cap_max_iov = None,
     cap_max_stat_batch = None\<rparr>"

definition capability_none :: capability where
  "capability_none = \<lparr>
     cap_gpu_memory = False, cap_publish = False, cap_placement_strict = False,
     cap_placement_each = False, cap_retention_explicit = False, cap_remove_prefix = False,
     cap_max_slot_len = None, cap_max_slots = None, cap_max_iov = None,
     cap_max_stat_batch = None\<rparr>"

record access_info =
  ai_name :: string
  ai_node :: node_id
  ai_devices :: "device list"
  ai_capability :: capability

section \<open>Errors\<close>

datatype error_kind =
    NotFound | Evicted | AlreadyExists | SpecMismatch | NoSpace | Unsupported
  | InvalidInput | Unavailable | Unexpected

datatype error_status = Permanent | Temporary

fun default_status :: "error_kind \<Rightarrow> error_status" where
  "default_status NoSpace = Temporary"
| "default_status Unavailable = Temporary"
| "default_status _ = Permanent"

fun error_kind_as_str :: "error_kind \<Rightarrow> string" where
  "error_kind_as_str NotFound = ''NotFound''"
| "error_kind_as_str Evicted = ''Evicted''"
| "error_kind_as_str AlreadyExists = ''AlreadyExists''"
| "error_kind_as_str SpecMismatch = ''SpecMismatch''"
| "error_kind_as_str NoSpace = ''NoSpace''"
| "error_kind_as_str Unsupported = ''Unsupported''"
| "error_kind_as_str InvalidInput = ''InvalidInput''"
| "error_kind_as_str Unavailable = ''Unavailable''"
| "error_kind_as_str Unexpected = ''Unexpected''"

text \<open>
  A context value is kept as the value itself; the source stores its \<open>to_string\<close>.
\<close>

datatype ctx_value = CtxNum nat | CtxDevice device | CtxKey key

record error =
  err_kind :: error_kind
  err_status :: error_status
  err_message :: string
  err_operation :: "string option"
  err_context :: "(string \<times> ctx_value) list"

type_synonym 'a res = "error + 'a"

definition error_new :: "error_kind \<Rightarrow> string \<Rightarrow> error" where
  "error_new kind message = \<lparr>
     err_kind = kind, err_status = default_status kind, err_message = message,
     err_operation = None, err_context = []\<rparr>"

definition is_temporary :: "error \<Rightarrow> bool" where
  "is_temporary e \<longleftrightarrow> err_status e = Temporary"

definition with_operation :: "string \<Rightarrow> error \<Rightarrow> error" where
  "with_operation operation e =
     (if err_operation e = None then e\<lparr>err_operation := Some operation\<rparr> else e)"

definition with_context :: "string \<Rightarrow> ctx_value \<Rightarrow> error \<Rightarrow> error" where
  "with_context k v e = e\<lparr>err_context := err_context e @ [(k, v)]\<rparr>"

definition set_temporary :: "error \<Rightarrow> error" where
  "set_temporary e = e\<lparr>err_status := Temporary\<rparr>"

definition set_permanent :: "error \<Rightarrow> error" where
  "set_permanent e = e\<lparr>err_status := Permanent\<rparr>"

text \<open>\<open>Err(Error::new(kind, message))\<close>.\<close>

abbreviation err :: "error_kind \<Rightarrow> string \<Rightarrow> 'a res" where
  "err kind message \<equiv> Inl (error_new kind message)"

subsection \<open>What decorating an error keeps\<close>

lemma err_kind_simps [simp]:
  "err_kind (error_new k m) = k"
  "err_kind (with_operation op e) = err_kind e"
  "err_kind (with_context c v e) = err_kind e"
  by (simp_all add: error_new_def with_operation_def with_context_def)

lemma is_temporary_simps [simp]:
  "is_temporary (with_operation op e) = is_temporary e"
  "is_temporary (with_context c v e) = is_temporary e"
  by (simp_all add: is_temporary_def with_operation_def with_context_def)

lemma is_temporary_new [simp]:
  "is_temporary (error_new k m) \<longleftrightarrow> k = NoSpace \<or> k = Unavailable"
  by (cases k) (simp_all add: is_temporary_def error_new_def)

lemma with_operation_idem [simp]:
  "with_operation op' (with_operation op e) = with_operation op e"
  by (simp add: with_operation_def)

text \<open>An error whose status still is the default of its kind: no layer has overridden it.\<close>

definition default_err :: "error \<Rightarrow> bool" where
  "default_err e \<longleftrightarrow> err_status e = default_status (err_kind e)"

lemma default_err_simps [simp]:
  "default_err (error_new k m)"
  "default_err (with_operation op e) = default_err e"
  "default_err (with_context c v e) = default_err e"
  by (simp_all add: default_err_def error_new_def with_operation_def with_context_def)

lemma default_err_temporary:
  "default_err e \<Longrightarrow> is_temporary e \<longleftrightarrow> err_kind e \<in> {NoSpace, Unavailable}"
  by (cases "err_kind e") (simp_all add: default_err_def is_temporary_def)

lemma is_fully_resident_nth:
  "is_fully_resident oi \<longleftrightarrow> (\<forall>i < length (oi_slots oi). is_resident (oi_slots oi ! i))"
  by (simp add: is_fully_resident_def list_all_length)

end
