(* ===== verification/Pega_Region.thy ===== *)
theory Pega_Region
  imports Pega_Types
begin

text \<open>
  Registered memory and I/O vectors (\<open>region.rs\<close>), and the bytes they point at. The
  process memory is a function from addresses to bytes; a raw pointer is a \<open>u64\<close> address,
  so that \<open>wrapping_add\<close> is word addition. \<open>gather\<close> and \<open>scatter\<close> are the two copy loops
  of \<open>services/memory.rs\<close>.
\<close>

record mem_region =
  mr_id :: u64
  mr_addr :: u64
  mr_len :: u64
  mr_device :: device

text \<open>\<open>NEXT_REGION_ID.fetch_add(1)\<close>: the old counter value, and the counter afterwards.\<close>

definition next_id :: "u64 \<Rightarrow> u64 \<times> u64" where
  "next_id counter = (counter, counter + 1)"

definition with_id :: "u64 \<Rightarrow> u64 \<Rightarrow> u64 \<Rightarrow> device \<Rightarrow> mem_region" where
  "with_id rid addr len device = \<lparr>mr_id = rid, mr_addr = addr, mr_len = len, mr_device = device\<rparr>"

record iov =
  iov_region :: mem_region
  iov_offset :: u64
  iov_len :: u64

definition region_iov :: "mem_region \<Rightarrow> u64 \<Rightarrow> u64 \<Rightarrow> iov" where
  "region_iov r offset len = \<lparr>iov_region = r, iov_offset = offset, iov_len = len\<rparr>"

definition iov_all :: "mem_region \<Rightarrow> iov" where
  "iov_all r = region_iov r 0 (mr_len r)"

definition iov_as_ptr :: "iov \<Rightarrow> u64" where
  "iov_as_ptr i = mr_addr (iov_region i) + iov_offset i"

definition iov_end :: "iov \<Rightarrow> u64" where
  "iov_end i = saturating_add (iov_offset i) (iov_len i)"

definition in_bounds :: "iov \<Rightarrow> bool" where
  "in_bounds i = (case checked_add (iov_offset i) (iov_len i) of
      None \<Rightarrow> False
    | Some e \<Rightarrow> e \<le> mr_len (iov_region i))"

definition iov_device :: "iov \<Rightarrow> device" where
  "iov_device i = mr_device (iov_region i)"

section \<open>Process memory\<close>

type_synonym host_mem = "u64 \<Rightarrow> u8"

definition read_bytes :: "host_mem \<Rightarrow> u64 \<Rightarrow> nat \<Rightarrow> bytes" where
  "read_bytes m a n = map (\<lambda>i. m (a + word_of_nat i)) [0..<n]"

text \<open>\<open>copy_nonoverlapping\<close> from a buffer to address \<open>a\<close>.\<close>

definition write_bytes :: "host_mem \<Rightarrow> u64 \<Rightarrow> bytes \<Rightarrow> host_mem" where
  "write_bytes m a bs = (\<lambda>x. if unat (x - a) < length bs then bs ! unat (x - a) else m x)"

definition gather :: "host_mem \<Rightarrow> iov list \<Rightarrow> bytes" where
  "gather m iovs = concat (map (\<lambda>i. read_bytes m (iov_as_ptr i) (unat (iov_len i))) iovs)"

text \<open>The slice \<open>src[off..off + n]\<close> panics when the source is too short.\<close>

fun scatter :: "host_mem \<Rightarrow> bytes \<Rightarrow> nat \<Rightarrow> iov list \<Rightarrow> host_mem outcome" where
  "scatter m src off [] = Some m"
| "scatter m src off (i # iovs) =
     (let n = unat (iov_len i) in
      if off + n \<le> length src
      then scatter (write_bytes m (iov_as_ptr i) (take n (drop off src))) src (off + n) iovs
      else panic)"

text \<open>The addresses of a list of segments, in order.\<close>

definition span :: "u64 \<Rightarrow> nat \<Rightarrow> u64 list" where
  "span a n = map (\<lambda>i. a + word_of_nat i) [0..<n]"

definition iov_span :: "iov list \<Rightarrow> u64 list" where
  "iov_span iovs = concat (map (\<lambda>i. span (iov_as_ptr i) (unat (iov_len i))) iovs)"

definition iov_total :: "iov list \<Rightarrow> nat" where
  "iov_total iovs = sum_list (map (\<lambda>i. unat (iov_len i)) iovs)"

text \<open>The same for raw segments, pairs of address and length.\<close>

definition seg_span :: "(u64 \<times> u64) list \<Rightarrow> u64 list" where
  "seg_span segs = concat (map (\<lambda>x. span (fst x) (unat (snd x))) segs)"

definition seg_total :: "(u64 \<times> u64) list \<Rightarrow> nat" where
  "seg_total segs = sum_list (map (\<lambda>x. unat (snd x)) segs)"

text \<open>The contract of \<open>register\<close>: a region does not wrap around the address space.\<close>

definition region_fits :: "mem_region \<Rightarrow> bool" where
  "region_fits r \<longleftrightarrow> unat (mr_addr r) + unat (mr_len r) \<le> 2 ^ 64"

section \<open>Bounds\<close>

lemma in_bounds_iff:
  "in_bounds i \<longleftrightarrow> unat (iov_offset i) + unat (iov_len i) \<le> unat (mr_len (iov_region i))"
proof (cases "checked_add (iov_offset i) (iov_len i)")
  case None
  then have "2 ^ 64 \<le> unat (iov_offset i) + unat (iov_len i)"
    by (simp add: checked_add_None)
  with None show ?thesis
    using unat_bound[of "mr_len (iov_region i)"] by (simp add: in_bounds_def)
next
  case (Some e)
  then have "unat e = unat (iov_offset i) + unat (iov_len i)"
    by (simp add: checked_add_Some)
  with Some show ?thesis
    by (simp add: in_bounds_def word_le_nat_alt)
qed

text \<open>
  \<open>end\<close> saturates where \<open>in_bounds\<close> refuses: a segment whose saturated end is within the
  region may still be out of bounds only when it ends at the top of the address range.
\<close>

lemma in_bounds_iov_end:
  assumes "in_bounds i"
  shows "iov_end i \<le> mr_len (iov_region i)" "unat (iov_end i) = unat (iov_offset i) + unat (iov_len i)"
  using assms unat_bound[of "mr_len (iov_region i)"]
  by (auto simp: in_bounds_iff iov_end_def word_le_nat_alt unat_saturating_add)

lemma iov_fits:
  assumes "in_bounds i" "region_fits (iov_region i)"
  shows "unat (iov_as_ptr i) + unat (iov_len i) \<le> 2 ^ 64"
proof -
  let ?a = "mr_addr (iov_region i)" and ?o = "iov_offset i"
  have le: "unat ?a + unat ?o + unat (iov_len i) \<le> 2 ^ 64"
    using assms by (simp add: in_bounds_iff region_fits_def)
  show ?thesis
  proof (cases "unat ?a + unat ?o < 2 ^ 64")
    case True
    with le show ?thesis by (simp add: iov_as_ptr_def unat_add_fits)
  next
    case False
    with le have "unat (iov_len i) = 0" by linarith
    then show ?thesis
      using unat_bound[of "iov_as_ptr i"] by simp
  qed
qed

section \<open>Reading back what was written\<close>

lemma length_read_bytes [simp]: "length (read_bytes m a n) = n"
  by (simp add: read_bytes_def)

lemma length_span [simp]: "length (span a n) = n"
  by (simp add: span_def)

lemma length_gather [simp]: "length (gather m iovs) = iov_total iovs"
  by (induction iovs) (simp_all add: gather_def iov_total_def)

lemma length_iov_span [simp]: "length (iov_span iovs) = iov_total iovs"
  by (induction iovs) (simp_all add: iov_span_def iov_total_def)

lemma read_bytes_span: "read_bytes m a n = map m (span a n)"
  by (simp add: read_bytes_def span_def)

lemma gather_span: "gather m iovs = map m (iov_span iovs)"
  by (induction iovs) (simp_all add: gather_def iov_span_def read_bytes_span)

lemma iov_span_Cons: "iov_span (i # iovs) = span (iov_as_ptr i) (unat (iov_len i)) @ iov_span iovs"
  by (simp add: iov_span_def)

lemma iov_total_simps [simp]:
  "iov_total [] = 0"
  "iov_total (i # iovs) = unat (iov_len i) + iov_total iovs"
  by (simp_all add: iov_total_def)

lemma length_seg_span [simp]: "length (seg_span segs) = seg_total segs"
  by (induction segs) (simp_all add: seg_span_def seg_total_def)

lemma seg_Cons [simp]:
  "seg_span (x # segs) = span (fst x) (unat (snd x)) @ seg_span segs"
  "seg_total (x # segs) = unat (snd x) + seg_total segs"
  "seg_span [] = []" "seg_total [] = 0"
  by (simp_all add: seg_span_def seg_total_def)

lemma span_slice:
  assumes "s + n \<le> l"
  shows "take n (drop s (span a l)) = span (a + word_of_nat s) n"
  using assms by (intro nth_equalityI) (simp_all add: span_def add.assoc)

lemma unat_of_nat_small: "n < 2 ^ 64 \<Longrightarrow> unat (word_of_nat n :: u64) = n"
  by (simp add: unat_of_nat take_bit_nat_eq_self)

lemma span_mem: "n \<le> 2 ^ 64 \<Longrightarrow> x \<in> set (span a n) \<longleftrightarrow> unat (x - a) < n"
proof
  assume n: "n \<le> 2 ^ 64" and "x \<in> set (span a n)"
  then obtain i where "i < n" "x = a + word_of_nat i"
    by (auto simp: span_def)
  with n show "unat (x - a) < n"
    by (simp add: unat_of_nat_small)
next
  assume "unat (x - a) < n"
  moreover have "x = a + word_of_nat (unat (x - a))"
    by simp
  ultimately show "x \<in> set (span a n)"
    unfolding span_def set_map by (intro image_eqI[where x = "unat (x - a)"]) simp_all
qed

lemma write_bytes_outside:
  "length bs \<le> 2 ^ 64 \<Longrightarrow> x \<notin> set (span a (length bs)) \<Longrightarrow> write_bytes m a bs x = m x"
  by (simp add: write_bytes_def span_mem)

lemma map_write_bytes_span:
  assumes "length bs \<le> 2 ^ 64"
  shows "map (write_bytes m a bs) (span a (length bs)) = bs"
proof (rule nth_equalityI)
  fix i
  assume "i < length (map (write_bytes m a bs) (span a (length bs)))"
  then have "i < length bs" by simp
  moreover from this assms have "unat (word_of_nat i :: u64) = i"
    by (simp add: unat_of_nat_small)
  ultimately show "map (write_bytes m a bs) (span a (length bs)) ! i = bs ! i"
    by (simp add: write_bytes_def span_def)
qed simp

text \<open>
  A scatter over segments that do not overlap writes the source, in order, to the
  addresses of the segments and nothing else.
\<close>

lemma scatter_ok:
  assumes "off + iov_total iovs \<le> length src" "distinct (iov_span iovs)"
  shows "\<exists>m'. scatter m src off iovs = Some m' \<and>
    map m' (iov_span iovs) = take (iov_total iovs) (drop off src) \<and>
    (\<forall>x. x \<notin> set (iov_span iovs) \<longrightarrow> m' x = m x)"
  using assms
proof (induction iovs arbitrary: m off)
  case Nil
  then show ?case by (simp add: iov_span_def)
next
  case (Cons i iovs)
  define n where "n = unat (iov_len i)"
  define bs where "bs = take n (drop off src)"
  define m1 where "m1 = write_bytes m (iov_as_ptr i) bs"
  have len: "length bs = n" and small: "length bs \<le> 2 ^ 64"
    using Cons.prems(1) unat_bound[of "iov_len i"] by (auto simp: bs_def n_def)
  from Cons.prems have "off + n + iov_total iovs \<le> length src" "distinct (iov_span iovs)"
    and apart: "set (span (iov_as_ptr i) n) \<inter> set (iov_span iovs) = {}"
    by (auto simp: iov_span_Cons n_def)
  from Cons.IH[OF this(1,2), of m1] obtain m' where m':
    "scatter m1 src (off + n) iovs = Some m'"
    "map m' (iov_span iovs) = take (iov_total iovs) (drop (off + n) src)"
    "\<forall>x. x \<notin> set (iov_span iovs) \<longrightarrow> m' x = m1 x"
    by blast
  have "scatter m src off (i # iovs) = Some m'"
    using m'(1) Cons.prems(1) by (simp add: n_def bs_def m1_def)
  moreover have "map m' (span (iov_as_ptr i) n) = bs"
  proof -
    have "map m' (span (iov_as_ptr i) n) = map m1 (span (iov_as_ptr i) n)"
      using m'(3) apart by auto
    also have "\<dots> = bs"
      using map_write_bytes_span[OF small, of m "iov_as_ptr i"] len by (simp add: m1_def)
    finally show ?thesis .
  qed
  moreover have "take (n + iov_total iovs) (drop off src) = bs @ take (iov_total iovs) (drop (off + n) src)"
    by (simp add: bs_def take_add add.commute)
  moreover have "m' x = m x" if "x \<notin> set (iov_span (i # iovs))" for x
    using that m'(3) write_bytes_outside[OF small, of x "iov_as_ptr i" m] len
    by (simp add: iov_span_Cons n_def m1_def)
  ultimately show ?case
    using m'(2) by (auto simp: iov_span_Cons n_def)
qed

lemma scatter_panic_iff: "scatter m src off iovs = None \<longleftrightarrow> length src < off + iov_total iovs"
  if "off \<le> length src" for off
  using that by (induction iovs arbitrary: m off) (auto simp: Let_def)

end
