(* ===== verification/Pega_Ops.thy ===== *)
theory Pega_Ops
  imports Pega_Region
begin

text \<open>
  Operation arguments, replies and their validation (\<open>ops.rs\<close>). The main results are the
  exact acceptance conditions of \<open>validate_iovs\<close> and \<open>OpPut::validate\<close>: every later
  operation reads and writes memory only through lists that passed them.
\<close>

section \<open>Validation of a gather or scatter list\<close>

text \<open>The loop of \<open>validate_iovs\<close> from segment \<open>idx\<close> on, with the running total.\<close>

fun validate_loop :: "device \<Rightarrow> nat \<Rightarrow> u64 \<Rightarrow> iov list \<Rightarrow> u64 res" where
  "validate_loop device idx tot [] = Inr tot"
| "validate_loop device idx tot (i # iovs) =
     (if \<not> in_bounds i then
        Inl (with_context ''region_len'' (CtxNum (unat (mr_len (iov_region i))))
             (with_context ''len'' (CtxNum (unat (iov_len i)))
             (with_context ''offset'' (CtxNum (unat (iov_offset i)))
             (with_context ''index'' (CtxNum idx)
             (error_new InvalidInput ''iov out of region bounds'')))))
      else if iov_device i \<noteq> device then
        Inl (with_context ''expected'' (CtxDevice device)
             (with_context ''device'' (CtxDevice (iov_device i))
             (with_context ''index'' (CtxNum idx)
             (error_new InvalidInput ''iov list spans multiple devices''))))
      else case checked_add tot (iov_len i) of
          None \<Rightarrow> err InvalidInput ''iov total length overflows''
        | Some tot' \<Rightarrow> validate_loop device (Suc idx) tot' iovs)"

definition validate_iovs :: "iov list \<Rightarrow> u64 option \<Rightarrow> (device \<times> u64) res" where
  "validate_iovs iovs expect_len = (case iovs of
      [] \<Rightarrow> err InvalidInput ''empty iov list''
    | first # _ \<Rightarrow>
        and_then (validate_loop (iov_device first) 0 0 iovs) (\<lambda>tot.
          case expect_len of
            Some expect \<Rightarrow>
              if tot \<noteq> expect
              then Inl (with_context ''expected'' (CtxNum (unat expect))
                        (with_context ''total'' (CtxNum (unat tot))
                        (error_new InvalidInput ''iov total length mismatch'')))
              else Inr (iov_device first, tot)
          | None \<Rightarrow> Inr (iov_device first, tot)))"

section \<open>Operations\<close>

record put_slot =
  ps_spec :: slot_spec
  ps_src :: "iov list"

record op_put =
  op_retention :: retention
  op_slots :: "put_slot list"

definition op_put_new :: "put_slot list \<Rightarrow> op_put" where
  "op_put_new slots = \<lparr>op_retention = Cache, op_slots = slots\<rparr>"

definition op_put_with_retention :: "op_put \<Rightarrow> retention \<Rightarrow> op_put" where
  "op_put_with_retention op r = op\<lparr>op_retention := r\<rparr>"

definition op_put_spec :: "op_put \<Rightarrow> object_spec" where
  "op_put_spec op = \<lparr>os_retention = op_retention op, os_slots = map ps_spec (op_slots op)\<rparr>"

fun op_put_validate_loop :: "nat \<Rightarrow> put_slot list \<Rightarrow> unit res" where
  "op_put_validate_loop i [] = Inr ()"
| "op_put_validate_loop i (s # ss) =
     and_then (map_err (with_context ''slot'' (CtxNum i))
                (validate_iovs (ps_src s) (Some (ss_len (ps_spec s)))))
       (\<lambda>_. op_put_validate_loop (Suc i) ss)"

definition op_put_validate :: "op_put \<Rightarrow> unit res" where
  "op_put_validate op =
     (if op_slots op = [] then err InvalidInput ''object needs at least one slot''
      else op_put_validate_loop 0 (op_slots op))"

record rp_put =
  rp_slots :: "unit res list"

definition all_ok :: "rp_put \<Rightarrow> bool" where
  "all_ok rp = list_all is_ok (rp_slots rp)"

text \<open>\<open>collect::<Result<()>>()\<close>: the first error, if any.\<close>

fun collect_results :: "unit res list \<Rightarrow> unit res" where
  "collect_results [] = Inr ()"
| "collect_results (r # rs) = (case r of Inl e \<Rightarrow> Inl e | Inr _ \<Rightarrow> collect_results rs)"

definition into_result :: "rp_put \<Rightarrow> unit res" where
  "into_result rp = collect_results (rp_slots rp)"

record op_get =
  og_slot :: slot_idx
  og_src_offset :: u64
  og_dst :: "iov list"

definition op_get_new :: "slot_idx \<Rightarrow> iov list \<Rightarrow> op_get" where
  "op_get_new slot dst = \<lparr>og_slot = slot, og_src_offset = 0, og_dst = dst\<rparr>"

definition with_src_offset :: "op_get \<Rightarrow> u64 \<Rightarrow> op_get" where
  "with_src_offset op n = op\<lparr>og_src_offset := n\<rparr>"

definition op_get_validate :: "op_get \<Rightarrow> (device \<times> u64) res" where
  "op_get_validate op = validate_iovs (og_dst op) None"

record rp_get =
  rg_from :: location

record op_publish =
  pub_slot :: slot_idx
  pub_src :: "iov list"

definition op_publish_new :: "slot_idx \<Rightarrow> iov list \<Rightarrow> op_publish" where
  "op_publish_new slot src = \<lparr>pub_slot = slot, pub_src = src\<rparr>"

definition op_publish_validate :: "op_publish \<Rightarrow> (device \<times> u64) res" where
  "op_publish_validate op = validate_iovs (pub_src op) None"

text \<open>What a caller has to supply for a list to be accepted.\<close>

definition good_iovs :: "device \<Rightarrow> iov list \<Rightarrow> bool" where
  "good_iovs d iovs \<longleftrightarrow> iovs \<noteq> [] \<and> iov_total iovs < 2 ^ 64 \<and>
     (\<forall>i \<in> set iovs. iov_device i = d \<and>
        unat (iov_offset i) + unat (iov_len i) \<le> unat (mr_len (iov_region i)))"

section \<open>Acceptance\<close>

lemma validate_loop_Inr:
  "validate_loop d idx tot iovs = Inr t \<longleftrightarrow>
    (\<forall>i \<in> set iovs. in_bounds i \<and> iov_device i = d) \<and> unat t = unat tot + iov_total iovs"
proof (induction d idx tot iovs rule: validate_loop.induct)
  case (1 d idx tot)
  then show ?case by (auto simp: word_unat_eq_iff)
next
  case (2 d idx tot i iovs)
  show ?case
  proof (cases "in_bounds i \<and> iov_device i = d")
    case False
    then show ?thesis by auto
  next
    case True
    show ?thesis
    proof (cases "checked_add tot (iov_len i)")
      case None
      then have "2 ^ 64 \<le> unat tot + unat (iov_len i)"
        by (simp add: checked_add_None)
      then have "unat t \<noteq> unat tot + iov_total (i # iovs)"
        using unat_bound[of t] by (simp del: unsigned_less)
      with None True show ?thesis by simp
    next
      case (Some s)
      then have "unat s = unat tot + unat (iov_len i)"
        by (simp add: checked_add_Some)
      with 2 Some True show ?thesis by (simp add: add.assoc)
    qed
  qed
qed

lemma validate_loop_Inl:
  "validate_loop d idx tot iovs = Inl e \<Longrightarrow> err_kind e = InvalidInput \<and> default_err e"
  by (induction d idx tot iovs rule: validate_loop.induct)
     (auto split: if_splits option.splits)

lemma validate_iovs_Inl:
  "validate_iovs iovs expect = Inl e \<Longrightarrow> err_kind e = InvalidInput \<and> default_err e"
  by (auto simp: validate_iovs_def and_then_def dest: validate_loop_Inl
      split: list.splits sum.splits option.splits if_splits)

lemma validate_iovs_Inr:
  "validate_iovs iovs expect = Inr (d, tot) \<longleftrightarrow>
    good_iovs d iovs \<and> unat tot = iov_total iovs \<and> (\<forall>n. expect = Some n \<longrightarrow> n = tot)"
proof (cases iovs)
  case Nil
  then show ?thesis by (simp add: validate_iovs_def good_iovs_def)
next
  case (Cons first rest)
  have "validate_iovs iovs expect = Inr (d, tot) \<longleftrightarrow>
      validate_loop (iov_device first) 0 0 iovs = Inr tot \<and> d = iov_device first \<and>
      (\<forall>n. expect = Some n \<longrightarrow> n = tot)"
    using Cons by (auto simp: validate_iovs_def split: option.splits if_splits)
  also have "\<dots> \<longleftrightarrow> good_iovs d iovs \<and> unat tot = iov_total iovs \<and> (\<forall>n. expect = Some n \<longrightarrow> n = tot)"
    unfolding validate_loop_Inr good_iovs_def in_bounds_iff
    using Cons unat_bound[of tot] by (auto simp del: unsigned_less)
  finally show ?thesis .
qed

lemma op_put_validate_loop_Inr:
  "op_put_validate_loop i ss = Inr () \<longleftrightarrow>
    (\<forall>s \<in> set ss. \<exists>d. good_iovs d (ps_src s) \<and> iov_total (ps_src s) = unat (ss_len (ps_spec s)))"
proof (induction i ss rule: op_put_validate_loop.induct)
  case (2 i s ss)
  have "(\<exists>x. validate_iovs (ps_src s) (Some (ss_len (ps_spec s))) = Inr x) \<longleftrightarrow>
      (\<exists>d. good_iovs d (ps_src s) \<and> iov_total (ps_src s) = unat (ss_len (ps_spec s)))"
    by (auto simp: validate_iovs_Inr)
  with 2 show ?case by auto
qed simp

lemma op_put_validate_Inr:
  "op_put_validate op = Inr () \<longleftrightarrow> op_slots op \<noteq> [] \<and>
    (\<forall>s \<in> set (op_slots op). \<exists>d. good_iovs d (ps_src s) \<and>
       iov_total (ps_src s) = unat (ss_len (ps_spec s)))"
  by (simp add: op_put_validate_def op_put_validate_loop_Inr)

lemma op_put_validate_loop_Inl:
  "op_put_validate_loop i ss = Inl e \<Longrightarrow> err_kind e = InvalidInput \<and> default_err e"
  by (induction i ss rule: op_put_validate_loop.induct)
     (auto simp: and_then_def map_err_def dest: validate_iovs_Inl split: sum.splits)

lemma op_put_validate_Inl:
  "op_put_validate op = Inl e \<Longrightarrow> err_kind e = InvalidInput \<and> default_err e"
  by (auto simp: op_put_validate_def dest: op_put_validate_loop_Inl split: if_splits)

lemma collect_results_Inr: "collect_results rs = Inr () \<longleftrightarrow> list_all is_ok rs"
  by (induction rs) (auto split: sum.splits)

lemma into_result_all_ok: "into_result rp = Inr () \<longleftrightarrow> all_ok rp"
  by (simp add: into_result_def all_ok_def collect_results_Inr)

end
