(* ===== verification/Pega_Btree.thy ===== *)
theory Pega_Btree
  imports Pega_Prelude "HOL-Library.List_Lexorder"
begin

text \<open>
  \<open>std::collections::BTreeMap\<close>, as the sources use it: an association list whose keys
  are strictly increasing. The locale \<open>ordered_map\<close> states what the clients rely on
  (\<open>get\<close>, \<open>insert\<close>, \<open>remove\<close>, \<open>values_mut\<close> and in-order iteration); its lemmas cover the
  range queries of the two index structures of the program: the scan of a key prefix
  (\<open>Memory::remove_prefix\<close>, \<open>Local::remove_prefix\<close>) and the predecessor and
  successor lookups of the RDMA registration map.
\<close>

type_synonym ('k, 'v) btree = "('k \<times> 'v) list"

fun bt_get :: "('k, 'v) btree \<Rightarrow> 'k \<Rightarrow> 'v option" where
  "bt_get [] k = None"
| "bt_get ((k', v) # t) k = (if k = k' then Some v else bt_get t k)"

fun bt_insert :: "('k::linorder, 'v) btree \<Rightarrow> 'k \<Rightarrow> 'v \<Rightarrow> ('k, 'v) btree" where
  "bt_insert [] k v = [(k, v)]"
| "bt_insert ((k', v') # t) k v =
     (if k < k' then (k, v) # (k', v') # t
      else if k = k' then (k, v) # t
      else (k', v') # bt_insert t k v)"

fun bt_remove :: "('k, 'v) btree \<Rightarrow> 'k \<Rightarrow> ('k, 'v) btree" where
  "bt_remove [] k = []"
| "bt_remove ((k', v) # t) k = (if k = k' then t else (k', v) # bt_remove t k)"

definition bt_map_values :: "('v \<Rightarrow> 'v) \<Rightarrow> ('k, 'v) btree \<Rightarrow> ('k, 'v) btree" where
  "bt_map_values f t = map (\<lambda>(k, v). (k, f v)) t"

text \<open>\<open>range(lo..)\<close>, \<open>range(..=hi).next_back()\<close> and \<open>range(lo..).next()\<close>.\<close>

definition bt_range_from :: "('k::linorder, 'v) btree \<Rightarrow> 'k \<Rightarrow> ('k \<times> 'v) list" where
  "bt_range_from t lo = dropWhile (\<lambda>(k, _). k < lo) t"

definition bt_prev :: "('k::linorder, 'v) btree \<Rightarrow> 'k \<Rightarrow> ('k \<times> 'v) option" where
  "bt_prev t hi = (case takeWhile (\<lambda>(k, _). k \<le> hi) t of [] \<Rightarrow> None | e # es \<Rightarrow> Some (last (e # es)))"

definition bt_next :: "('k::linorder, 'v) btree \<Rightarrow> 'k \<Rightarrow> ('k \<times> 'v) option" where
  "bt_next t lo = (case bt_range_from t lo of [] \<Rightarrow> None | e # _ \<Rightarrow> Some e)"

text \<open>\<open>starts_with\<close> on byte slices.\<close>

definition starts_with :: "'a list \<Rightarrow> 'a list \<Rightarrow> bool" where
  "starts_with xs p \<longleftrightarrow> length p \<le> length xs \<and> take (length p) xs = p"

definition bt_inv :: "('k::linorder, 'v) btree \<Rightarrow> bool" where
  "bt_inv t \<longleftrightarrow> sorted_wrt (<) (map fst t)"

section \<open>The interface\<close>

locale ordered_map =
  fixes get :: "'m \<Rightarrow> 'k::linorder \<Rightarrow> 'v option"
    and insert :: "'m \<Rightarrow> 'k \<Rightarrow> 'v \<Rightarrow> 'm"
    and remove :: "'m \<Rightarrow> 'k \<Rightarrow> 'm"
    and entries :: "'m \<Rightarrow> ('k \<times> 'v) list"
    and inv :: "'m \<Rightarrow> bool"
  assumes get_insert: "inv m \<Longrightarrow> get (insert m k v) = (get m)(k := Some v)"
    and get_remove: "inv m \<Longrightarrow> get (remove m k) = (get m)(k := None)"
    and inv_insert: "inv m \<Longrightarrow> inv (insert m k v)"
    and inv_remove: "inv m \<Longrightarrow> inv (remove m k)"
    and entries_sorted: "inv m \<Longrightarrow> sorted_wrt (<) (map fst (entries m))"
    and get_entries: "inv m \<Longrightarrow> get m k = map_of (entries m) k"
begin

lemma entries_get: "inv m \<Longrightarrow> (k, v) \<in> set (entries m) \<longleftrightarrow> get m k = Some v"
proof -
  assume inv: "inv m"
  then have "distinct (map fst (entries m))"
    using entries_sorted strict_sorted_iff by blast
  then show ?thesis
    using inv by (simp add: get_entries)
qed

lemma key_order:
  assumes "inv m" "entries m = xs @ (k, v) # ys"
  shows "\<forall>(k', v') \<in> set xs. k' < k" "\<forall>(k', v') \<in> set ys. k < k'"
  using entries_sorted[OF assms(1)] assms(2) by (auto simp: sorted_wrt_append)

lemma inv_remove_all: "inv m \<Longrightarrow> inv (foldl remove m ks)"
  by (induction ks arbitrary: m) (auto simp: inv_remove)

lemma get_remove_all:
  "inv m \<Longrightarrow> get (foldl remove m ks) k = (if k \<in> set ks then None else get m k)"
  by (induction ks arbitrary: m) (auto simp: get_remove inv_remove)

end

section \<open>The association list implements it\<close>

lemma bt_inv_Cons [simp]:
  "bt_inv (e # t) \<longleftrightarrow> (\<forall>e' \<in> set t. fst e < fst e') \<and> bt_inv t"
  by (auto simp: bt_inv_def)

lemma bt_inv_Nil [simp]: "bt_inv []"
  by (simp add: bt_inv_def)

lemma bt_get_map_of: "bt_get t k = map_of t k"
  by (induction t k rule: bt_get.induct) auto

lemma set_bt_insert: "set (bt_insert t k v) \<subseteq> insert (k, v) (set t)"
  by (induction t k v rule: bt_insert.induct) auto

lemma set_bt_remove: "set (bt_remove t k) \<subseteq> set t"
  by (induction t k rule: bt_remove.induct) auto

lemma bt_inv_insert [simp]: "bt_inv t \<Longrightarrow> bt_inv (bt_insert t k v)"
proof (induction t k v rule: bt_insert.induct)
  case (2 k' v' t k v)
  from "2.prems" have later: "\<forall>e \<in> set t. k' < fst e" and inv: "bt_inv t"
    by auto
  consider "k < k'" | "k = k'" | "k' < k" by fastforce
  then show ?case
  proof cases
    case 1
    then have "\<forall>e \<in> set t. k < fst e"
      using later order.strict_trans by blast
    with 1 later inv show ?thesis by simp
  next
    case 2
    with later inv show ?thesis by simp
  next
    case 3
    then have "\<forall>e \<in> set (bt_insert t k v). k' < fst e"
      using set_bt_insert[of t k v] later by auto
    moreover from 3 have "\<not> k < k'" "k \<noteq> k'" by auto
    ultimately show ?thesis
      using "2.IH" inv by simp
  qed
qed simp

lemma bt_inv_remove [simp]: "bt_inv t \<Longrightarrow> bt_inv (bt_remove t k)"
proof (induction t k rule: bt_remove.induct)
  case (2 k' v t k)
  then show ?case
    using set_bt_remove[of t k] by auto
qed simp

lemma bt_get_fresh:
  fixes t :: "('k::linorder, 'v) btree"
  shows "\<forall>e \<in> set t. k < fst e \<Longrightarrow> bt_get t k = None"
  by (induction t k rule: bt_get.induct) auto

lemma bt_get_insert [simp]: "bt_get (bt_insert t k v) = (bt_get t)(k := Some v)"
  by (rule ext, induction t k v rule: bt_insert.induct) auto

lemma bt_get_remove: "bt_inv t \<Longrightarrow> bt_get (bt_remove t k) = (bt_get t)(k := None)"
proof (rule ext, induction t k rule: bt_remove.induct)
  case (2 k' v t k x)
  then show ?case
    using bt_get_fresh[of t k'] by auto
qed simp

interpretation bt: ordered_map bt_get bt_insert bt_remove "\<lambda>t. t" bt_inv
  by unfold_locales (simp_all add: bt_get_remove bt_get_map_of, simp add: bt_inv_def)

lemma bt_get_map_values [simp]: "bt_get (bt_map_values f t) k = map_option f (bt_get t k)"
  by (induction t k rule: bt_get.induct) (auto simp: bt_map_values_def)

lemma bt_inv_map_values [simp]: "bt_inv (bt_map_values f t) \<longleftrightarrow> bt_inv t"
  by (simp add: bt_inv_def bt_map_values_def case_prod_unfold comp_def)

section \<open>Sums over the values\<close>

definition bt_sum :: "('v \<Rightarrow> nat) \<Rightarrow> ('k, 'v) btree \<Rightarrow> nat" where
  "bt_sum f t = sum_list (map (\<lambda>e. f (snd e)) t)"

lemma bt_sum_simps [simp]:
  "bt_sum f [] = 0"
  "bt_sum f (e # t) = f (snd e) + bt_sum f t"
  by (simp_all add: bt_sum_def)

lemma bt_sum_insert:
  assumes "bt_inv t"
  shows "bt_sum f (bt_insert t k v) + (case bt_get t k of None \<Rightarrow> 0 | Some w \<Rightarrow> f w) = bt_sum f t + f v"
  using assms
proof (induction t k v rule: bt_insert.induct)
  case (2 k' v' t k v)
  from "2.prems" have later: "\<forall>e \<in> set t. k' < fst e"
    by simp
  have "bt_get t k = None" if "k < k'"
    using later that by (intro bt_get_fresh) (metis order.strict_trans)
  with 2 show ?case
    by simp
qed simp

lemma bt_sum_remove:
  "bt_sum f (bt_remove t k) + (case bt_get t k of None \<Rightarrow> 0 | Some w \<Rightarrow> f w) = bt_sum f t"
  by (induction t k rule: bt_remove.induct) auto

lemma bt_sum_get_le: "bt_get t k = Some v \<Longrightarrow> f v \<le> bt_sum f t"
  using bt_sum_remove[of f t k] by simp

lemma bt_sum_map_values: "bt_sum f (bt_map_values g t) = bt_sum (\<lambda>v. f (g v)) t"
  by (simp add: bt_sum_def bt_map_values_def case_prod_unfold comp_def)

section \<open>Prefix scans\<close>

lemma starts_with_Nil [simp]: "starts_with xs []"
  by (simp add: starts_with_def)

lemma starts_with_Cons [simp]:
  "starts_with xs (a # p) \<longleftrightarrow> (\<exists>ys. xs = a # ys \<and> starts_with ys p)"
  by (cases xs) (auto simp: starts_with_def)

lemma starts_with_ge:
  fixes p k :: "'a::linorder list"
  shows "starts_with k p \<Longrightarrow> p \<le> k"
  by (induction p arbitrary: k) auto

text \<open>The keys that start with \<open>p\<close> are an interval of the key order.\<close>

lemma starts_with_between:
  fixes p k k' :: "'a::linorder list"
  shows "p \<le> k \<Longrightarrow> k \<le> k' \<Longrightarrow> starts_with k' p \<Longrightarrow> starts_with k p"
proof (induction p arbitrary: k k')
  case Nil
  then show ?case by simp
next
  case (Cons a p)
  from Cons.prems(3) obtain r' where k': "k' = a # r'" "starts_with r' p"
    by auto
  from Cons.prems(1) obtain b r where k: "k = b # r"
    by (cases k) auto
  from Cons.prems k k' have "b = a" "p \<le> r" "r \<le> r'"
    by auto
  with Cons.IH k k' show ?case by auto
qed

text \<open>
  A scan from the prefix itself that stops at the first key without the prefix sees
  every key that has it.
\<close>

definition bt_scan_prefix :: "('a::linorder list, 'v) btree \<Rightarrow> 'a list \<Rightarrow> 'a list list" where
  "bt_scan_prefix t p = map fst (takeWhile (\<lambda>(k, _). starts_with k p) (bt_range_from t p))"

lemma takeWhile_prefix:
  assumes "bt_inv t" "\<forall>e \<in> set t. p \<le> fst e"
  shows "takeWhile (\<lambda>e. starts_with (fst e) p) t = filter (\<lambda>e. starts_with (fst e) p) t"
  using assms
proof (induction t)
  case (Cons e t)
  show ?case
  proof (cases "starts_with (fst e) p")
    case True
    with Cons show ?thesis by simp
  next
    case False
    have "\<not> starts_with (fst e') p" if "e' \<in> set t" for e'
      using that False Cons.prems starts_with_between[of p "fst e" "fst e'"]
      by (auto simp: less_imp_le)
    then have "filter (\<lambda>e. starts_with (fst e) p) t = []"
      by (simp add: filter_empty_conv)
    with False show ?thesis by simp
  qed
qed simp

lemma bt_inv_dropWhile: "bt_inv t \<Longrightarrow> bt_inv (dropWhile P t)"
  by (induction t) auto

lemma bt_range_from_filter:
  assumes "bt_inv t"
  shows "bt_range_from t lo = filter (\<lambda>e. lo \<le> fst e) t"
  using assms unfolding bt_range_from_def
proof (induction t)
  case (Cons e t)
  show ?case
  proof (cases "fst e < lo")
    case True
    with Cons show ?thesis by (auto simp: case_prod_unfold)
  next
    case False
    then have "lo \<le> fst e'" if "e' \<in> set t" for e'
      using that Cons.prems by (meson bt_inv_Cons less_imp_le not_less order.trans)
    then have "filter (\<lambda>e. lo \<le> fst e) t = t"
      by (simp add: filter_id_conv)
    with False show ?thesis by (auto simp: case_prod_unfold)
  qed
qed simp

lemma bt_scan_prefix_filter:
  assumes "bt_inv t"
  shows "bt_scan_prefix t p = filter (\<lambda>k. starts_with k p) (map fst t)"
proof -
  have 1: "bt_inv (bt_range_from t p)"
    using assms by (simp add: bt_range_from_def bt_inv_dropWhile)
  have 2: "\<forall>e \<in> set (bt_range_from t p). p \<le> fst e"
    by (simp add: bt_range_from_filter[OF assms])
  have "(p \<le> fst e \<and> starts_with (fst e) p) = starts_with (fst e) p" for e :: "'a list \<times> 'b"
    using starts_with_ge[of "fst e" p] by blast
  then have "filter (\<lambda>e. starts_with (fst e) p) (bt_range_from t p) =
      filter (\<lambda>e. starts_with (fst e) p) t"
    by (simp add: bt_range_from_filter[OF assms])
  then show ?thesis
    by (simp add: bt_scan_prefix_def case_prod_unfold takeWhile_prefix[OF 1 2] filter_map comp_def)
qed

section \<open>Neighbour lookups\<close>

lemma bt_prev_simps [simp]:
  "bt_prev [] hi = None"
  "bt_prev ((k, v) # t) hi =
     (if k \<le> hi then (case bt_prev t hi of None \<Rightarrow> Some (k, v) | Some e \<Rightarrow> Some e) else None)"
  by (auto simp: bt_prev_def split: list.splits)

lemma bt_next_simps [simp]:
  "bt_next [] lo = None"
  "bt_next ((k, v) # t) lo = (if k < lo then bt_next t lo else Some (k, v))"
  by (auto simp: bt_next_def bt_range_from_def)

lemma bt_prev_None: "bt_inv t \<Longrightarrow> bt_prev t hi = None \<Longrightarrow> e \<in> set t \<Longrightarrow> hi < fst e"
proof (induction t)
  case (Cons e' t)
  then have "hi < fst e'"
    by (cases e') (auto split: if_splits option.splits)
  with Cons.prems show ?case
    by (metis bt_inv_Cons order.strict_trans set_ConsD)
qed simp

lemma bt_prev_in:
  assumes "bt_inv t" "bt_prev t hi = Some (k, v)"
  shows "(k, v) \<in> set t \<and> k \<le> hi \<and> (\<forall>e \<in> set t. fst e \<le> hi \<longrightarrow> fst e \<le> k)"
  using assms
proof (induction t)
  case (Cons e t)
  obtain k1 v1 where e: "e = (k1, v1)" by (cases e)
  show ?case
  proof (cases "bt_prev t hi")
    case None
    with Cons.prems have "hi < fst e'" if "e' \<in> set t" for e'
      using bt_prev_None[of t hi e'] that by simp
    then have "\<not> fst e' \<le> hi" if "e' \<in> set t" for e'
      using that by (simp add: not_le)
    with None Cons.prems e show ?thesis
      by (auto split: if_splits)
  next
    case (Some r)
    with Cons.prems e have "bt_prev t hi = Some (k, v)"
      by (auto split: if_splits)
    with Cons.IH Cons.prems(1) e show ?thesis by (auto simp: less_imp_le)
  qed
qed simp

lemma bt_prev_Some:
  assumes "bt_inv t" "bt_prev t hi = Some (k, v)"
  shows "bt_get t k = Some v" "k \<le> hi" "bt_get t k' = Some v' \<Longrightarrow> k' \<le> hi \<Longrightarrow> k' \<le> k"
  using bt_prev_in[OF assms] bt.entries_get[OF assms(1)] by (blast, blast, fastforce)

lemma bt_next_None: "bt_next t lo = None \<Longrightarrow> e \<in> set t \<Longrightarrow> fst e < lo"
proof (induction t)
  case (Cons e t)
  then show ?case by (cases e) (auto split: if_splits)
qed simp

lemma bt_next_in:
  assumes "bt_inv t" "bt_next t lo = Some (k, v)"
  shows "(k, v) \<in> set t \<and> lo \<le> k \<and> (\<forall>e \<in> set t. lo \<le> fst e \<longrightarrow> k \<le> fst e)"
  using assms
proof (induction t)
  case (Cons e t)
  then show ?case by (cases e) (auto simp: less_imp_le split: if_splits)
qed simp

lemma bt_next_Some:
  assumes "bt_inv t" "bt_next t lo = Some (k, v)"
  shows "bt_get t k = Some v" "lo \<le> k" "bt_get t k' = Some v' \<Longrightarrow> lo \<le> k' \<Longrightarrow> k \<le> k'"
  using bt_next_in[OF assms] bt.entries_get[OF assms(1)] by (blast, blast, fastforce)

end
