(* ===== verification/Pega_Distance.thy ===== *)
theory Pega_Distance
  imports Pega_Types "HOL-Library.Product_Lexorder"
begin

text \<open>
  Source selection. Both backends read from
  \<open>replicas.iter().min_by_key(|r| (distance(dst, r.device), tier_rank(r.tier)))\<close>; they
  differ in where the distance comes from. The locale \<open>device_distance\<close> is what the
  selection relies on, and its lemmas say which replica serves a read; the two distance
  functions of the program interpret it in the theories of their components.
\<close>

text \<open>\<open>Iterator::min_by_key\<close>: the first of the elements with the least key.\<close>

fun min_by_key :: "('a \<Rightarrow> 'b::linorder) \<Rightarrow> 'a list \<Rightarrow> 'a option" where
  "min_by_key f [] = None"
| "min_by_key f (x # xs) = (case min_by_key f xs of
      None \<Rightarrow> Some x
    | Some y \<Rightarrow> if f x \<le> f y then Some x else Some y)"

fun tier_rank :: "tier \<Rightarrow> nat" where
  "tier_rank Dram = 0"
| "tier_rank External = 1"
| "tier_rank Ssd = 2"

lemma min_by_key_None [simp]: "min_by_key f xs = None \<longleftrightarrow> xs = []"
  by (cases xs) (simp_all split: option.splits)

lemma min_by_key_in: "min_by_key f xs = Some x \<Longrightarrow> x \<in> set xs"
proof (induction xs arbitrary: x)
  case (Cons z zs)
  then show ?case
    by (cases "min_by_key f zs") (auto split: if_split_asm)
qed simp

lemma min_by_key_le: "min_by_key f xs = Some x \<Longrightarrow> y \<in> set xs \<Longrightarrow> f x \<le> f y"
proof (induction xs arbitrary: x)
  case (Cons z zs)
  show ?case
  proof (cases "min_by_key f zs")
    case None
    then have "zs = []" "x = z"
      using Cons.prems(1) by simp_all
    with Cons.prems(2) show ?thesis by simp
  next
    case (Some w)
    then have x: "x = (if f z \<le> f w then z else w)"
      using Cons.prems(1) by (simp split: if_splits)
    then have le: "f x \<le> f z" "f x \<le> f w"
      using linear[of "f z" "f w"] by (simp_all split: if_splits)
    show ?thesis
    proof (cases "y = z")
      case True
      then show ?thesis using le(1) by simp
    next
      case False
      then have "f w \<le> f y"
        using Cons.prems(2) Cons.IH[OF Some] by simp
      with le(2) show ?thesis by (rule order.trans)
    qed
  qed
qed simp

lemma min_by_key_Some: "xs \<noteq> [] \<Longrightarrow> \<exists>x. min_by_key f xs = Some x"
  by (cases "min_by_key f xs") auto

locale device_distance =
  fixes dist :: "device \<Rightarrow> device \<Rightarrow> nat"
  assumes dist_zero: "dist a b = 0 \<longleftrightarrow> a = b"
    and dist_sym: "dist a b = dist b a"
    and dist_gpu: "i \<noteq> j \<Longrightarrow> dist (Gpu i) (Gpu j) = 1"
    and dist_host: "2 \<le> dist (Cpu n) (Gpu i)"
begin

text \<open>A replica on the reader's own device is never passed over for one elsewhere.\<close>

lemma own_device_first:
  assumes "min_by_key (\<lambda>r. (dist dst (dv r), tier_rank (tr r))) rs = Some r"
    and "r' \<in> set rs" "dv r' = dst"
  shows "dv r = dst"
proof -
  have "(dist dst (dv r), tier_rank (tr r)) \<le> (dist dst (dv r'), tier_rank (tr r'))"
    using min_by_key_le[OF assms(1,2)] .
  moreover have "dist dst (dv r') = 0"
    unfolding assms(3) by (simp add: dist_zero)
  ultimately have "dist dst (dv r) = 0"
    unfolding less_eq_prod_simp by linarith
  then show ?thesis
    by (simp add: dist_zero)
qed

text \<open>A GPU reads from a peer GPU rather than from any host memory.\<close>

lemma peer_gpu_first:
  assumes "min_by_key (\<lambda>r. (dist (Gpu i) (dv r), tier_rank (tr r))) rs = Some r"
    and "r' \<in> set rs" "dv r' = Gpu j"
  shows "is_gpu (dv r)"
proof -
  have "(dist (Gpu i) (dv r), tier_rank (tr r)) \<le> (dist (Gpu i) (dv r'), tier_rank (tr r'))"
    using min_by_key_le[OF assms(1,2)] .
  then have "dist (Gpu i) (dv r) \<le> dist (Gpu i) (Gpu j)"
    unfolding assms(3) less_eq_prod_simp by linarith
  moreover have "dist (Gpu i) (Gpu j) \<le> 1"
    by (cases "i = j") (simp_all add: dist_gpu dist_zero[THEN iffD2])
  moreover have "dist (dv r) (Gpu i) = dist (Gpu i) (dv r)"
    by (rule dist_sym)
  ultimately have near: "dist (dv r) (Gpu i) \<le> 1"
    by linarith
  show ?thesis
  proof (cases "dv r")
    case (Cpu n)
    with near dist_host[of n i] show ?thesis by simp
  qed (simp add: is_gpu_def)
qed

end

end
