(* ===== verification/Pega_Memory.thy ===== *)
theory Pega_Memory
  imports Pega_Ops Pega_Btree Pega_Distance
begin

text \<open>
  The in-process reference backend (\<open>services/memory.rs\<close>), definition by definition: the
  builder, the state behind the mutex, the eviction loop, and one definition per method of
  its \<open>Access\<close> implementation. Each method takes the lock once for its whole body, so a
  method is one step on \<open>mem_state\<close>; a panic inside it (which poisons the mutex) is the
  outcome \<open>None\<close>. \<open>get\<close> and \<open>put\<close> also read or write the process memory.
\<close>

section \<open>State\<close>

datatype replica_data = Owned bytes | Ext "(u64 \<times> u64) list" u64

record replica_entry =
  re_device :: device
  re_tier :: tier
  re_misplaced :: bool
  re_data :: replica_data

record slot =
  sl_replicas :: "replica_entry list"

record object =
  ob_spec :: object_spec
  ob_slots :: "slot list"

record pool =
  po_capacity :: "u64 option"
  po_used :: u64
  po_fifo :: "(key \<times> u32) list"

type_synonym objects = "(key, object) btree"
type_synonym pools = "device \<rightharpoonup> pool"

record mem_state =
  st_objects :: objects
  st_pools :: pools

record mem_inner =
  in_info :: access_info
  in_device_order :: "device list"
  in_gpu_numa :: "u16 \<rightharpoonup> u16"

section \<open>Builder\<close>

record mem_builder =
  mb_node :: node_id
  mb_devices :: "(device \<times> u64 option) list"
  mb_gpu_numa :: "u16 \<rightharpoonup> u16"
  mb_capability :: capability

definition builder_new :: mem_builder where
  "builder_new = \<lparr>mb_node = 0, mb_devices = [], mb_gpu_numa = Map.empty, mb_capability = capability_all\<rparr>"

definition builder_node :: "node_id \<Rightarrow> mem_builder \<Rightarrow> mem_builder" where
  "builder_node n b = b\<lparr>mb_node := n\<rparr>"

definition builder_device :: "device \<Rightarrow> mem_builder \<Rightarrow> mem_builder" where
  "builder_device d b = b\<lparr>mb_devices := mb_devices b @ [(d, None)]\<rparr>"

definition builder_device_with_capacity :: "device \<Rightarrow> u64 \<Rightarrow> mem_builder \<Rightarrow> mem_builder" where
  "builder_device_with_capacity d cap b = b\<lparr>mb_devices := mb_devices b @ [(d, Some cap)]\<rparr>"

definition builder_gpu_affinity :: "u16 \<Rightarrow> u16 \<Rightarrow> mem_builder \<Rightarrow> mem_builder" where
  "builder_gpu_affinity gpu numa b = b\<lparr>mb_gpu_numa := (mb_gpu_numa b)(gpu \<mapsto> numa)\<rparr>"

definition builder_capability :: "capability \<Rightarrow> mem_builder \<Rightarrow> mem_builder" where
  "builder_capability c b = b\<lparr>mb_capability := c\<rparr>"

text \<open>
  Collecting the device list into a \<open>HashMap\<close>: a device listed twice keeps its last entry.
\<close>

fun collect_pools :: "pools \<Rightarrow> (device \<times> u64 option) list \<Rightarrow> pools" where
  "collect_pools m [] = m"
| "collect_pools m ((d, cap) # ds) =
     collect_pools (m(d \<mapsto> \<lparr>po_capacity = cap, po_used = 0, po_fifo = []\<rparr>)) ds"

definition build :: "mem_builder \<Rightarrow> mem_inner \<times> mem_state" where
  "build b =
     (let devices = (if mb_devices b = [] then [(Cpu 0, None)] else mb_devices b) in
      (\<lparr>in_info = \<lparr>ai_name = ''memory'', ai_node = mb_node b, ai_devices = map fst devices,
                   ai_capability = mb_capability b\<rparr>,
        in_device_order = map fst devices,
        in_gpu_numa = mb_gpu_numa b\<rparr>,
       \<lparr>st_objects = [], st_pools = collect_pools Map.empty devices\<rparr>))"

definition used :: "mem_state \<Rightarrow> device \<Rightarrow> u64" where
  "used st d = (case st_pools st d of None \<Rightarrow> 0 | Some p \<Rightarrow> po_used p)"

section \<open>Distances and locations\<close>

definition distance :: "mem_inner \<Rightarrow> device \<Rightarrow> device \<Rightarrow> nat" where
  "distance inner a b =
     (let host_gpu = (\<lambda>numa gi. case in_gpu_numa inner gi of
            Some n \<Rightarrow> if n = numa then 2 else 4
          | None \<Rightarrow> 3) in
      if a = b then 0
      else case (a, b) of
          (Gpu _, Gpu _) \<Rightarrow> 1
        | (Cpu numa, Gpu gi) \<Rightarrow> host_gpu numa gi
        | (Gpu gi, Cpu numa) \<Rightarrow> host_gpu numa gi
        | (Cpu _, Cpu _) \<Rightarrow> 3)"

definition mem_location :: "mem_inner \<Rightarrow> device \<Rightarrow> tier \<Rightarrow> location" where
  "mem_location inner d t = \<lparr>loc_node = ai_node (in_info inner), loc_device = d, loc_tier = t\<rparr>"

section \<open>Regions going away\<close>

definition external_of :: "u64 \<Rightarrow> replica_entry \<Rightarrow> bool" where
  "external_of rid r = (case re_data r of Ext _ rid' \<Rightarrow> rid' = rid | Owned _ \<Rightarrow> False)"

definition retire_slot :: "u64 \<Rightarrow> slot \<Rightarrow> slot" where
  "retire_slot rid s = s\<lparr>sl_replicas := filter (\<lambda>r. \<not> external_of rid r) (sl_replicas s)\<rparr>"

definition retire_region :: "u64 \<Rightarrow> mem_state \<Rightarrow> mem_state" where
  "retire_region rid st = st\<lparr>st_objects :=
     bt_map_values (\<lambda>obj. obj\<lparr>ob_slots := map (retire_slot rid) (ob_slots obj)\<rparr>) (st_objects st)\<rparr>"

section \<open>Making room\<close>

definition owned_on :: "device \<Rightarrow> replica_entry \<Rightarrow> bool" where
  "owned_on d r \<longleftrightarrow> re_device r = d \<and> (case re_data r of Owned _ \<Rightarrow> True | Ext _ _ \<Rightarrow> False)"

definition owned_len :: "replica_entry \<Rightarrow> u64" where
  "owned_len r = (case re_data r of Owned b \<Rightarrow> word_of_nat (length b) | Ext _ _ \<Rightarrow> 0)"

text \<open>
  One turn of the eviction loop, for the popped entry \<open>(key, slot_idx)\<close> that is not the
  protected key: a stale entry is dropped, an \<open>Explicit\<close> object is left alone, and the
  owned replicas of a \<open>Cache\<close> slot on this device are freed. An object that has no replica
  left in any slot is removed.
\<close>

definition evict_entry ::
    "device \<Rightarrow> key \<Rightarrow> u32 \<Rightarrow> objects \<Rightarrow> u64 \<Rightarrow> (objects \<times> u64) outcome" where
  "evict_entry device k slot_idx objs us = (case bt_get objs k of
      None \<Rightarrow> Some (objs, us)
    | Some obj \<Rightarrow>
        if os_retention (ob_spec obj) \<noteq> Cache then Some (objs, us)
        else do {
          slot \<leftarrow> index (ob_slots obj) (unat slot_idx);
          freed \<leftarrow> checked_sum 0 (map owned_len (filter (owned_on device) (sl_replicas slot)));
          us' \<leftarrow> checked_sub us freed;
          let obj' = obj\<lparr>ob_slots := (ob_slots obj)[unat slot_idx :=
            slot\<lparr>sl_replicas := filter (\<lambda>r. \<not> owned_on device r) (sl_replicas slot)\<rparr>]\<rparr>;
          Some (if list_all (\<lambda>s. sl_replicas s = []) (ob_slots obj')
                then bt_remove objs k else bt_insert objs k obj', us')
        })"

text \<open>
  The \<open>while\<close> loop, on the objects, the pool's \<open>used\<close> counter and its queue; it returns
  them together with the deferred entries of the protected key.
\<close>

fun evict_loop ::
    "device \<Rightarrow> u64 \<Rightarrow> u64 \<Rightarrow> key \<Rightarrow> (key \<times> u32) list \<Rightarrow> objects \<Rightarrow> u64 \<Rightarrow> (key \<times> u32) list \<Rightarrow>
     (objects \<times> u64 \<times> (key \<times> u32) list \<times> (key \<times> u32) list) outcome" where
  "evict_loop device need cap protect deferred objs us [] = do {
     _ \<leftarrow> checked_add us need;
     Some (objs, us, deferred, [])
   }"
| "evict_loop device need cap protect deferred objs us ((k, slot_idx) # fifo) = do {
     t \<leftarrow> checked_add us need;
     if t \<le> cap then Some (objs, us, deferred, (k, slot_idx) # fifo)
     else if k = protect
       then evict_loop device need cap protect (deferred @ [(k, slot_idx)]) objs us fifo
     else do {
       (objs', us') \<leftarrow> evict_entry device k slot_idx objs us;
       evict_loop device need cap protect deferred objs' us' fifo
     }
   }"

definition make_room :: "device \<Rightarrow> u64 \<Rightarrow> key \<Rightarrow> mem_state \<Rightarrow> (mem_state \<times> bool) outcome" where
  "make_room device need protect st = do {
     p \<leftarrow> st_pools st device;
     case po_capacity p of
       None \<Rightarrow> Some (st, True)
     | Some cap \<Rightarrow>
         if need > cap then Some (st, False)
         else do {
           (objs', us', deferred, fifo') \<leftarrow>
             evict_loop device need cap protect [] (st_objects st) (po_used p) (po_fifo p);
           t \<leftarrow> checked_add us' need;
           Some (st\<lparr>st_objects := objs',
                    st_pools := (st_pools st)(device \<mapsto>
                      p\<lparr>po_used := us', po_fifo := deferred @ fifo'\<rparr>)\<rparr>, t \<le> cap)
         }
   }"

definition charge :: "device \<Rightarrow> key \<Rightarrow> u32 \<Rightarrow> u64 \<Rightarrow> pools \<Rightarrow> pools outcome" where
  "charge device k slot_idx len ps = do {
     p \<leftarrow> ps device;
     us \<leftarrow> checked_add (po_used p) len;
     Some (ps(device \<mapsto> p\<lparr>po_used := us, po_fifo := po_fifo p @ [(k, slot_idx)]\<rparr>))
   }"

fun release_replicas :: "replica_entry list \<Rightarrow> pools \<Rightarrow> pools outcome" where
  "release_replicas [] ps = Some ps"
| "release_replicas (r # rs) ps = (case (re_data r, ps (re_device r)) of
      (Owned b, Some p) \<Rightarrow> do {
        us \<leftarrow> checked_sub (po_used p) (word_of_nat (length b));
        release_replicas rs (ps(re_device r \<mapsto> p\<lparr>po_used := us\<rparr>))
      }
    | _ \<Rightarrow> release_replicas rs ps)"

definition release_object :: "object \<Rightarrow> pools \<Rightarrow> pools outcome" where
  "release_object obj ps = release_replicas (concat (map sl_replicas (ob_slots obj))) ps"

section \<open>Reading a replica\<close>

definition data_len :: "replica_data \<Rightarrow> u64 outcome" where
  "data_len rd = (case rd of
      Owned b \<Rightarrow> Some (word_of_nat (length b))
    | Ext segs _ \<Rightarrow> checked_sum 0 (map snd segs))"

text \<open>
  The loop over the segments of an external replica; \<open>*addr + skip\<close> is an overflow-checked
  \<open>usize\<close> addition.
\<close>

fun read_segs :: "host_mem \<Rightarrow> (u64 \<times> u64) list \<Rightarrow> u64 \<Rightarrow> u64 \<Rightarrow> bytes outcome" where
  "read_segs m [] skip want = Some []"
| "read_segs m ((addr, seg_len) # segs) skip want =
     (if want = 0 then Some []
      else if skip \<ge> seg_len then read_segs m segs (skip - seg_len) want
      else let n = min (seg_len - skip) want in do {
        a \<leftarrow> checked_add addr skip;
        rest \<leftarrow> read_segs m segs 0 (want - n);
        Some (read_bytes m a (unat n) @ rest)
      })"

definition data_read :: "host_mem \<Rightarrow> replica_data \<Rightarrow> u64 \<Rightarrow> u64 \<Rightarrow> bytes outcome" where
  "data_read m rd offset len = (case rd of
      Owned b \<Rightarrow> do {
        e \<leftarrow> checked_add offset len;
        if unat e \<le> length b then Some (take (unat len) (drop (unat offset) b)) else panic
      }
    | Ext segs _ \<Rightarrow> read_segs m segs offset len)"

section \<open>The operations\<close>

definition unknown_device :: "device \<Rightarrow> error" where
  "unknown_device d = with_context ''device'' (CtxDevice d)
     (error_new InvalidInput ''device not served by this backend'')"

text \<open>\<open>register\<close> draws an id from the process-wide counter.\<close>

definition mem_register ::
    "mem_inner \<Rightarrow> u64 \<Rightarrow> u64 \<Rightarrow> u64 \<Rightarrow> device \<Rightarrow> u64 \<times> mem_region res" where
  "mem_register inner counter addr len device =
     (if is_gpu device \<and> \<not> cap_gpu_memory (ai_capability (in_info inner))
      then (counter, err Unsupported ''gpu memory disabled'')
      else let (rid, counter') = next_id counter in
           (counter', Inr (with_id rid addr len device)))"

subsection \<open>put\<close>

definition candidates :: "device list \<Rightarrow> placement \<Rightarrow> (device \<times> bool) list" where
  "candidates device_order pl = (case pl of
      Strict d \<Rightarrow> [(d, False)]
    | Prefer d \<Rightarrow> (d, False) # map (\<lambda>x. (x, True)) (filter (\<lambda>x. x \<noteq> d) device_order)
    | Each ds \<Rightarrow> map (\<lambda>d. (d, False)) ds
    | Anywhere \<Rightarrow> map (\<lambda>d. (d, False)) device_order)"

definition is_each :: "placement \<Rightarrow> bool" where
  "is_each pl = (case pl of Each _ \<Rightarrow> True | _ \<Rightarrow> False)"

text \<open>
  The loop over the candidates: the targets found so far, the last error, and whether every
  candidate is needed (\<open>Each\<close>) or the first that has room will do.
\<close>

fun place_loop ::
    "bool \<Rightarrow> u64 \<Rightarrow> key \<Rightarrow> (device \<times> bool) list \<Rightarrow> (device \<times> bool) list \<Rightarrow> error option \<Rightarrow> mem_state \<Rightarrow>
     (mem_state \<times> (device \<times> bool) list \<times> error option) outcome" where
  "place_loop each len kb [] targets e st = Some (st, targets, e)"
| "place_loop each len kb ((d, misplaced) # cs) targets e st =
     (if st_pools st d = None then
        (let e' = Some (unknown_device d) in
         if each then Some (st, targets, e') else place_loop each len kb cs targets e' st)
      else do {
        (st', room) \<leftarrow> make_room d len kb st;
        if room then
          (let targets' = targets @ [(d, misplaced)] in
           if each then place_loop each len kb cs targets' e st' else Some (st', targets', e))
        else
          (let e' = Some (with_context ''len'' (CtxNum (unat len))
                     (with_context ''device'' (CtxDevice d)
                     (error_new NoSpace ''pool cannot fit slot''))) in
           if each then Some (st', targets, e') else place_loop each len kb cs targets e' st')
      })"

fun charge_all :: "(device \<times> bool) list \<Rightarrow> key \<Rightarrow> u32 \<Rightarrow> u64 \<Rightarrow> pools \<Rightarrow> pools outcome" where
  "charge_all [] k i len ps = Some ps"
| "charge_all ((d, _) # ts) k i len ps = do {
     ps' \<leftarrow> charge d k i len ps;
     charge_all ts k i len ps'
   }"

definition new_replicas :: "(device \<times> bool) list \<Rightarrow> bytes \<Rightarrow> replica_entry list" where
  "new_replicas targets bs = map (\<lambda>(d, misplaced).
     \<lparr>re_device = d, re_tier = Dram, re_misplaced = misplaced, re_data = Owned bs\<rparr>) targets"

text \<open>Storing the gathered bytes in slot \<open>i\<close> on every target, and charging the pools.\<close>

definition store_slot ::
    "key \<Rightarrow> nat \<Rightarrow> u64 \<Rightarrow> bytes \<Rightarrow> (device \<times> bool) list \<Rightarrow> mem_state \<Rightarrow> mem_state outcome" where
  "store_slot kb i len bs targets st = do {
     obj \<leftarrow> bt_get (st_objects st) kb;
     slot \<leftarrow> index (ob_slots obj) i;
     let obj' = obj\<lparr>ob_slots := (ob_slots obj)[i :=
       slot\<lparr>sl_replicas := sl_replicas slot @ new_replicas targets bs\<rparr>]\<rparr>;
     ps \<leftarrow> charge_all targets kb (word_of_nat i) len (st_pools st);
     Some (st\<lparr>st_objects := bt_insert (st_objects st) kb obj', st_pools := ps\<rparr>)
   }"

definition mem_put_slot ::
    "mem_inner \<Rightarrow> host_mem \<Rightarrow> key \<Rightarrow> nat \<Rightarrow> put_slot \<Rightarrow> mem_state \<Rightarrow> (mem_state \<times> unit res) outcome" where
  "mem_put_slot inner m kb i ps st =
     (let len = ss_len (ps_spec ps);
          pl = ss_placement (ps_spec ps);
          each = is_each pl in do {
        (st1, targets, e) \<leftarrow> place_loop each len kb (candidates (in_device_order inner) pl) [] None st;
        if (if each then e = None \<and> targets \<noteq> [] else targets \<noteq> [])
        then do {
          st2 \<leftarrow> store_slot kb i len (gather m (ps_src ps)) targets st1;
          Some (st2, Inr ())
        }
        else Some (st1, Inl (with_context ''slot'' (CtxNum i)
               (case e of Some e' \<Rightarrow> e' | None \<Rightarrow> error_new NoSpace ''no device available'')))
      })"

fun put_loop ::
    "mem_inner \<Rightarrow> host_mem \<Rightarrow> key \<Rightarrow> bool list \<Rightarrow> nat \<Rightarrow> put_slot list \<Rightarrow> mem_state \<Rightarrow>
     (mem_state \<times> unit res list) outcome" where
  "put_loop inner m kb writable i [] st = Some (st, [])"
| "put_loop inner m kb writable i (ps # pss) st = do {
     w \<leftarrow> index writable i;
     (st1, r) \<leftarrow>
       (if \<not> w
        then Some (st, Inl (with_context ''slot'' (CtxNum i) (error_new AlreadyExists ''slot already written'')))
        else mem_put_slot inner m kb i ps st);
     (st2, rs) \<leftarrow> put_loop inner m kb writable (Suc i) pss st1;
     Some (st2, r # rs)
   }"

text \<open>Phase 1: an existing object must have the same specification; a new one is reserved.\<close>

definition reserve :: "key \<Rightarrow> object_spec \<Rightarrow> mem_state \<Rightarrow> (mem_state \<times> bool list) res" where
  "reserve k spec st = (case bt_get (st_objects st) k of
      Some obj \<Rightarrow>
        if ob_spec obj \<noteq> spec
        then Inl (with_context ''key'' (CtxKey k)
               (error_new SpecMismatch ''existing object has a different spec''))
        else Inr (st, map (\<lambda>s. sl_replicas s = []) (ob_slots obj))
    | None \<Rightarrow>
        (let n = length (os_slots spec) in
         Inr (st\<lparr>st_objects := bt_insert (st_objects st) k
                \<lparr>ob_spec = spec, ob_slots = replicate n \<lparr>sl_replicas = []\<rparr>\<rparr>\<rparr>,
              replicate n True)))"

definition mem_put ::
    "mem_inner \<Rightarrow> host_mem \<Rightarrow> mem_state \<Rightarrow> key \<Rightarrow> op_put \<Rightarrow> (mem_state \<times> rp_put res) outcome" where
  "mem_put inner m st k op = (case op_put_validate op of
      Inl e \<Rightarrow> Some (st, Inl e)
    | Inr _ \<Rightarrow> (case reserve k (op_put_spec op) st of
        Inl e \<Rightarrow> Some (st, Inl e)
      | Inr (st1, writable) \<Rightarrow> do {
          (st2, rs) \<leftarrow> put_loop inner m k writable 0 (op_slots op) st1;
          Some (st2, Inr \<lparr>rp_slots = rs\<rparr>)
        }))"

subsection \<open>publish, stat and get\<close>

definition not_found :: "key \<Rightarrow> error" where
  "not_found k = with_context ''key'' (CtxKey k) (error_new NotFound ''no such key'')"

definition slot_out_of_range :: "nat \<Rightarrow> error" where
  "slot_out_of_range idx = with_context ''slot'' (CtxNum idx)
     (error_new InvalidInput ''slot index out of range'')"

text \<open>\<open>slice.get(idx)\<close>.\<close>

definition nth_opt :: "'a list \<Rightarrow> nat \<Rightarrow> 'a option" where
  "nth_opt xs i = (if i < length xs then Some (xs ! i) else None)"

definition mem_publish ::
    "mem_state \<Rightarrow> key \<Rightarrow> op_publish \<Rightarrow> (mem_state \<times> unit res) outcome" where
  "mem_publish st k op = (case op_publish_validate op of
      Inl e \<Rightarrow> Some (st, Inl e)
    | Inr (device, tot) \<Rightarrow> (case bt_get (st_objects st) k of
        None \<Rightarrow> Some (st, Inl (not_found k))
      | Some obj \<Rightarrow>
          (let idx = unat (pub_slot op) in
           case nth_opt (os_slots (ob_spec obj)) idx of
             None \<Rightarrow> Some (st, Inl (slot_out_of_range idx))
           | Some spec \<Rightarrow>
               if ss_len spec \<noteq> tot
               then Some (st, Inl (with_context ''expected'' (CtxNum (unat (ss_len spec)))
                      (with_context ''len'' (CtxNum (unat tot))
                      (with_context ''slot'' (CtxNum idx)
                      (error_new InvalidInput ''published length differs from slot length'')))))
               else do {
                 first \<leftarrow> index (pub_src op) 0;
                 slot \<leftarrow> index (ob_slots obj) idx;
                 let r = \<lparr>re_device = device, re_tier = External, re_misplaced = False,
                   re_data = Ext (map (\<lambda>i. (iov_as_ptr i, iov_len i)) (pub_src op))
                     (mr_id (iov_region first))\<rparr>;
                 Some (st\<lparr>st_objects := bt_insert (st_objects st) k
                   (obj\<lparr>ob_slots := (ob_slots obj)[idx := slot\<lparr>sl_replicas := sl_replicas slot @ [r]\<rparr>]\<rparr>)\<rparr>,
                   Inr ())
               })))"

definition mem_slot_info :: "mem_inner \<Rightarrow> slot \<times> slot_spec \<Rightarrow> slot_info" where
  "mem_slot_info inner = (\<lambda>(s, spec). \<lparr>si_len = ss_len spec,
     si_replicas = map (\<lambda>r. \<lparr>rep_location = mem_location inner (re_device r) (re_tier r),
                             rep_misplaced = re_misplaced r\<rparr>) (sl_replicas s)\<rparr>)"

definition mem_object_info :: "mem_inner \<Rightarrow> object \<Rightarrow> object_info" where
  "mem_object_info inner obj = \<lparr>oi_retention = os_retention (ob_spec obj),
     oi_slots = map (mem_slot_info inner) (zip (ob_slots obj) (os_slots (ob_spec obj)))\<rparr>"

definition mem_stat :: "mem_inner \<Rightarrow> mem_state \<Rightarrow> key list \<Rightarrow> object_info option list res" where
  "mem_stat inner st ks =
     Inr (map (\<lambda>k. map_option (mem_object_info inner) (bt_get (st_objects st) k)) ks)"

definition nearest :: "mem_inner \<Rightarrow> device \<Rightarrow> slot \<Rightarrow> replica_entry option" where
  "nearest inner dst s =
     min_by_key (\<lambda>r. (distance inner dst (re_device r), tier_rank (re_tier r))) (sl_replicas s)"

definition mem_get ::
    "mem_inner \<Rightarrow> host_mem \<Rightarrow> mem_state \<Rightarrow> key \<Rightarrow> op_get \<Rightarrow> (host_mem \<times> rp_get res) outcome" where
  "mem_get inner m st k op = (case op_get_validate op of
      Inl e \<Rightarrow> Some (m, Inl e)
    | Inr (dst_device, dst_len) \<Rightarrow> (case bt_get (st_objects st) k of
        None \<Rightarrow> Some (m, Inl (not_found k))
      | Some obj \<Rightarrow>
          (let idx = unat (og_slot op) in
           case nth_opt (os_slots (ob_spec obj)) idx of
             None \<Rightarrow> Some (m, Inl (slot_out_of_range idx))
           | Some spec \<Rightarrow>
               if (case checked_add (og_src_offset op) dst_len of
                     None \<Rightarrow> True | Some e \<Rightarrow> \<not> e \<le> ss_len spec)
               then Some (m, Inl (with_context ''slot_len'' (CtxNum (unat (ss_len spec)))
                      (with_context ''len'' (CtxNum (unat dst_len))
                      (with_context ''src_offset'' (CtxNum (unat (og_src_offset op)))
                      (error_new InvalidInput ''read range exceeds slot'')))))
               else do {
                 slot \<leftarrow> index (ob_slots obj) idx;
                 case nearest inner dst_device slot of
                   None \<Rightarrow> Some (m, Inl (with_context ''slot'' (CtxNum idx)
                     (with_context ''key'' (CtxKey k)
                     (error_new Evicted ''slot has no replica''))))
                 | Some r \<Rightarrow> do {
                     l \<leftarrow> data_len (re_data r);
                     if l \<noteq> ss_len spec then panic
                     else do {
                       bs \<leftarrow> data_read m (re_data r) (og_src_offset op) dst_len;
                       m' \<leftarrow> scatter m bs 0 (og_dst op);
                       Some (m', Inr \<lparr>rg_from = mem_location inner (re_device r) (re_tier r)\<rparr>)
                     }
                   }
               })))"

subsection \<open>remove and remove_prefix\<close>

definition remove_one :: "mem_state \<Rightarrow> key \<Rightarrow> mem_state outcome" where
  "remove_one st k = (case bt_get (st_objects st) k of
      None \<Rightarrow> Some st
    | Some obj \<Rightarrow> do {
        ps \<leftarrow> release_object obj (st_pools st);
        Some (st\<lparr>st_objects := bt_remove (st_objects st) k, st_pools := ps\<rparr>)
      })"

fun remove_loop :: "key list \<Rightarrow> mem_state \<Rightarrow> mem_state outcome" where
  "remove_loop [] st = Some st"
| "remove_loop (k # ks) st = do {
     st' \<leftarrow> remove_one st k;
     remove_loop ks st'
   }"

definition mem_remove :: "mem_state \<Rightarrow> key list \<Rightarrow> (mem_state \<times> unit res) outcome" where
  "mem_remove st ks = do {
     st' \<leftarrow> remove_loop ks st;
     Some (st', Inr ())
   }"

definition mem_remove_prefix :: "mem_state \<Rightarrow> bytes \<Rightarrow> (mem_state \<times> u64 res) outcome" where
  "mem_remove_prefix st prefix =
     (let ks = bt_scan_prefix (st_objects st) prefix;
          n = word_of_nat (length ks) in do {
        st' \<leftarrow> remove_loop ks st;
        Some (st', Inr n)
      })"

section \<open>The distance of this backend\<close>

lemma distance_interface: "device_distance (distance inner)"
  by unfold_locales
     (auto simp: distance_def Let_def split: device.splits option.splits)

interpretation mem_dist: device_distance "distance inner" for inner
  by (rule distance_interface)

end
