(* ===== verification/Pega_Memory_Evict.thy ===== *)
theory Pega_Memory_Evict
  imports Pega_Memory
begin

text \<open>
  The invariant of the reference backend, and the eviction loop against it. The invariant
  ties the redundant parts of the state together: every replica has the length its slot
  declares, every pool's \<open>used\<close> counter is the number of bytes of the owned replicas on its
  device, and every owned replica of a \<open>Cache\<close> object is queued for eviction there. The
  relation \<open>shrunk\<close> says exactly what making room may do to the objects.
\<close>

section \<open>The invariant\<close>

definition owned_size :: "replica_entry \<Rightarrow> nat" where
  "owned_size r = (case re_data r of Owned b \<Rightarrow> length b | Ext _ _ \<Rightarrow> 0)"

definition slot_owned :: "device \<Rightarrow> slot \<Rightarrow> nat" where
  "slot_owned d s = sum_list (map owned_size (filter (owned_on d) (sl_replicas s)))"

definition obj_owned :: "device \<Rightarrow> object \<Rightarrow> nat" where
  "obj_owned d obj = sum_list (map (slot_owned d) (ob_slots obj))"

abbreviation owned_bytes :: "device \<Rightarrow> objects \<Rightarrow> nat" where
  "owned_bytes d objs \<equiv> bt_sum (obj_owned d) objs"

definition replica_ok :: "device set \<Rightarrow> slot_spec \<Rightarrow> replica_entry \<Rightarrow> bool" where
  "replica_ok D spec r \<longleftrightarrow> (case re_data r of
      Owned b \<Rightarrow> length b = unat (ss_len spec) \<and> re_tier r = Dram \<and> re_device r \<in> D
    | Ext segs _ \<Rightarrow> seg_total segs = unat (ss_len spec) \<and> re_tier r = External \<and>
        (\<forall>x \<in> set segs. unat (fst x) + unat (snd x) \<le> 2 ^ 64))"

definition slot_ok :: "device set \<Rightarrow> slot_spec \<Rightarrow> slot \<Rightarrow> bool" where
  "slot_ok D spec s \<longleftrightarrow> (\<forall>r \<in> set (sl_replicas s). replica_ok D spec r)"

definition object_ok :: "device set \<Rightarrow> object \<Rightarrow> bool" where
  "object_ok D obj \<longleftrightarrow> list_all2 (slot_ok D) (os_slots (ob_spec obj)) (ob_slots obj) \<and>
     length (ob_slots obj) \<le> 2 ^ 32"

definition objects_ok :: "device set \<Rightarrow> objects \<Rightarrow> bool" where
  "objects_ok D objs \<longleftrightarrow> bt_inv objs \<and> (\<forall>k obj. bt_get objs k = Some obj \<longrightarrow> object_ok D obj)"

text \<open>Every owned replica of a \<open>Cache\<close> object on device \<open>d\<close> is in the queue of \<open>d\<close>.\<close>

definition queued :: "device \<Rightarrow> objects \<Rightarrow> (key \<times> u32) set \<Rightarrow> bool" where
  "queued d objs q \<longleftrightarrow> (\<forall>k obj i. bt_get objs k = Some obj \<longrightarrow> os_retention (ob_spec obj) = Cache \<longrightarrow>
     i < length (ob_slots obj) \<longrightarrow> filter (owned_on d) (sl_replicas (ob_slots obj ! i)) \<noteq> [] \<longrightarrow>
     (k, word_of_nat i) \<in> q)"

definition pool_inv :: "device \<Rightarrow> objects \<Rightarrow> pool \<Rightarrow> bool" where
  "pool_inv d objs p \<longleftrightarrow> unat (po_used p) = owned_bytes d objs \<and> queued d objs (set (po_fifo p))"

definition mem_inv :: "mem_state \<Rightarrow> bool" where
  "mem_inv st \<longleftrightarrow> objects_ok (dom (st_pools st)) (st_objects st) \<and>
     (\<forall>d p. st_pools st d = Some p \<longrightarrow> pool_inv d (st_objects st) p)"

text \<open>No queue entry names a slot that its object does not have.\<close>

definition in_range :: "objects \<Rightarrow> (key \<times> u32) set \<Rightarrow> bool" where
  "in_range objs q \<longleftrightarrow> (\<forall>k i obj. (k, i) \<in> q \<longrightarrow> bt_get objs k = Some obj \<longrightarrow> unat i < length (ob_slots obj))"

definition fifo_ok :: "mem_state \<Rightarrow> bool" where
  "fifo_ok st \<longleftrightarrow> (\<forall>d p. st_pools st d = Some p \<longrightarrow> in_range (st_objects st) (set (po_fifo p)))"

text \<open>No pool is above its capacity.\<close>

definition within_capacity :: "mem_state \<Rightarrow> bool" where
  "within_capacity st \<longleftrightarrow>
     (\<forall>d p cap. st_pools st d = Some p \<longrightarrow> po_capacity p = Some cap \<longrightarrow> po_used p \<le> cap)"

section \<open>What making room may do\<close>

text \<open>
  On the devices \<open>D\<close>, owned replicas may go; nothing else changes in a slot, nothing at all
  changes in an \<open>Explicit\<close> object or in the protected one, and an object disappears only
  when it has no replica left.
\<close>

definition slot_shrunk :: "device set \<Rightarrow> slot \<Rightarrow> slot \<Rightarrow> bool" where
  "slot_shrunk D s s' \<longleftrightarrow> (\<exists>P. sl_replicas s' = filter P (sl_replicas s) \<and>
     (\<forall>r. (\<forall>d \<in> D. \<not> owned_on d r) \<longrightarrow> P r))"

definition obj_shrunk :: "device set \<Rightarrow> object \<Rightarrow> object \<Rightarrow> bool" where
  "obj_shrunk D obj obj' \<longleftrightarrow> ob_spec obj' = ob_spec obj \<and>
     list_all2 (slot_shrunk D) (ob_slots obj) (ob_slots obj')"

definition no_replicas :: "object \<Rightarrow> bool" where
  "no_replicas obj \<longleftrightarrow> list_all (\<lambda>s. sl_replicas s = []) (ob_slots obj)"

definition shrunk_to :: "device set \<Rightarrow> object \<Rightarrow> object option \<Rightarrow> bool" where
  "shrunk_to D obj x \<longleftrightarrow> (\<exists>obj'. obj_shrunk D obj obj' \<and>
     (x = Some obj' \<or> x = None \<and> no_replicas obj'))"

definition kept :: "device set \<Rightarrow> object option \<Rightarrow> object option \<Rightarrow> bool" where
  "kept D x y \<longleftrightarrow> (case x of
      None \<Rightarrow> y = None
    | Some obj \<Rightarrow> if os_retention (ob_spec obj) = Explicit then y = Some obj else shrunk_to D obj y)"

definition others_kept :: "device set \<Rightarrow> key \<Rightarrow> objects \<Rightarrow> objects \<Rightarrow> bool" where
  "others_kept D k objs objs' \<longleftrightarrow> (\<forall>k'. k' \<noteq> k \<longrightarrow> kept D (bt_get objs k') (bt_get objs' k'))"

definition shrunk :: "device set \<Rightarrow> key \<Rightarrow> objects \<Rightarrow> objects \<Rightarrow> bool" where
  "shrunk D protect objs objs' \<longleftrightarrow>
     bt_get objs' protect = bt_get objs protect \<and> others_kept D protect objs objs'"

lemma slot_shrunk_refl [simp]: "slot_shrunk D s s"
  unfolding slot_shrunk_def by (intro exI[where x = "\<lambda>_. True"]) simp

lemma slot_shrunk_trans:
  assumes "slot_shrunk D s s'" "slot_shrunk D' s' s''"
  shows "slot_shrunk (D \<union> D') s s''"
proof -
  from assms obtain P Q where
    "sl_replicas s' = filter P (sl_replicas s)" "\<forall>r. (\<forall>d \<in> D. \<not> owned_on d r) \<longrightarrow> P r"
    "sl_replicas s'' = filter Q (sl_replicas s')" "\<forall>r. (\<forall>d \<in> D'. \<not> owned_on d r) \<longrightarrow> Q r"
    unfolding slot_shrunk_def by blast
  then show ?thesis
    unfolding slot_shrunk_def by (intro exI[where x = "\<lambda>r. P r \<and> Q r"]) auto
qed

lemma obj_shrunk_refl [simp]: "obj_shrunk D obj obj"
  by (simp add: obj_shrunk_def list_all2_refl)

lemma obj_shrunk_trans:
  "obj_shrunk D a b \<Longrightarrow> obj_shrunk D' b c \<Longrightarrow> obj_shrunk (D \<union> D') a c"
  unfolding obj_shrunk_def
  using list_all2_trans[of "slot_shrunk D" "slot_shrunk D'" "slot_shrunk (D \<union> D')"
      "ob_slots a" "ob_slots b" "ob_slots c"] slot_shrunk_trans by metis

lemma slot_shrunk_empty: "slot_shrunk D s s' \<Longrightarrow> sl_replicas s = [] \<Longrightarrow> sl_replicas s' = []"
  by (auto simp: slot_shrunk_def)

lemma no_replicas_shrunk: "obj_shrunk D a b \<Longrightarrow> no_replicas a \<Longrightarrow> no_replicas b"
  unfolding obj_shrunk_def no_replicas_def list_all_length list_all2_conv_all_nth
  using slot_shrunk_empty by metis

lemma slot_shrunk_mono: "slot_shrunk D s s' \<Longrightarrow> D \<subseteq> D' \<Longrightarrow> slot_shrunk D' s s'"
  unfolding slot_shrunk_def by blast

lemma obj_shrunk_mono: "obj_shrunk D s s' \<Longrightarrow> D \<subseteq> D' \<Longrightarrow> obj_shrunk D' s s'"
  unfolding obj_shrunk_def by (auto intro: list_all2_mono slot_shrunk_mono)

lemma shrunk_to_Some: "shrunk_to D obj (Some obj)"
  unfolding shrunk_to_def using obj_shrunk_refl by blast

lemma shrunk_to_trans:
  assumes "shrunk_to D a (Some b)" "shrunk_to D' b x"
  shows "shrunk_to (D \<union> D') a x"
  using assms obj_shrunk_trans unfolding shrunk_to_def by blast

lemma shrunk_to_None_mono: "shrunk_to D a x \<Longrightarrow> D \<subseteq> D' \<Longrightarrow> shrunk_to D' a x"
  unfolding shrunk_to_def using obj_shrunk_mono by blast

lemma shrunk_to_retention: "shrunk_to D a (Some b) \<Longrightarrow> ob_spec b = ob_spec a"
  by (auto simp: shrunk_to_def obj_shrunk_def)

lemma kept_refl [simp]: "kept D x x"
  by (auto simp: kept_def shrunk_to_Some split: option.splits)

lemma kept_trans:
  assumes "kept D x y" "kept D' y z"
  shows "kept (D \<union> D') x z"
proof (cases x)
  case None
  with assms show ?thesis by (simp add: kept_def)
next
  case (Some obj)
  show ?thesis
  proof (cases "os_retention (ob_spec obj) = Explicit")
    case True
    with Some assms show ?thesis by (simp add: kept_def)
  next
    case False
    with Some assms(1) have to: "shrunk_to D obj y" by (simp add: kept_def)
    show ?thesis
    proof (cases y)
      case None
      with to assms(2) Some False show ?thesis
        using shrunk_to_None_mono[of D obj None "D \<union> D'"] by (simp add: kept_def)
    next
      case (Some obj')
      with to have "os_retention (ob_spec obj') \<noteq> Explicit" "shrunk_to D obj (Some obj')"
        using shrunk_to_retention[of D obj obj'] False by simp_all
      with Some assms(2) have "shrunk_to (D \<union> D') obj z"
        using shrunk_to_trans[of D obj obj' D' z] by (simp add: kept_def)
      with \<open>x = Some obj\<close> False show ?thesis by (simp add: kept_def)
    qed
  qed
qed

lemma others_kept_refl [simp]: "others_kept D k objs objs"
  by (simp add: others_kept_def)

lemma others_kept_trans:
  "others_kept D k a b \<Longrightarrow> others_kept D' k b c \<Longrightarrow> others_kept (D \<union> D') k a c"
  unfolding others_kept_def using kept_trans by blast

lemma others_kept_insert [simp]: "others_kept D k objs (bt_insert objs k obj)"
  by (simp add: others_kept_def)

lemma shrunk_refl [simp]: "shrunk D protect objs objs"
  by (simp add: shrunk_def)

lemma shrunk_trans:
  assumes "shrunk D protect a b" "shrunk D' protect b c"
  shows "shrunk (D \<union> D') protect a c"
  using assms others_kept_trans unfolding shrunk_def by metis

section \<open>One eviction\<close>

lemma object_ok_nth:
  assumes "object_ok D obj" "i < length (ob_slots obj)"
  shows "i < length (os_slots (ob_spec obj))" "slot_ok D (os_slots (ob_spec obj) ! i) (ob_slots obj ! i)"
  using assms by (simp_all add: object_ok_def list_all2_conv_all_nth)

lemma unat_owned_len:
  "replica_ok D spec r \<Longrightarrow> unat (owned_len r) = owned_size r"
proof (cases "re_data r")
  case (Owned b)
  assume "replica_ok D spec r"
  then have "length b < 2 ^ 64"
    using Owned unat_bound[of "ss_len spec"] by (simp add: replica_ok_def)
  then show ?thesis
    using Owned by (simp add: owned_len_def owned_size_def unat_of_nat_small)
qed (simp add: owned_len_def owned_size_def)

text \<open>The slot after its owned replicas on \<open>d\<close> are dropped, and the object around it.\<close>

definition evict_slot :: "device \<Rightarrow> slot \<Rightarrow> slot" where
  "evict_slot d s = s\<lparr>sl_replicas := filter (\<lambda>r. \<not> owned_on d r) (sl_replicas s)\<rparr>"

definition evict_obj :: "device \<Rightarrow> nat \<Rightarrow> object \<Rightarrow> object" where
  "evict_obj d i obj = obj\<lparr>ob_slots := (ob_slots obj)[i := evict_slot d (ob_slots obj ! i)]\<rparr>"

lemma sum_owned_len:
  assumes "slot_ok D spec s"
  shows "sum_list (map unat (map owned_len (filter (owned_on d) (sl_replicas s)))) = slot_owned d s"
proof -
  have "map unat (map owned_len (filter (owned_on d) (sl_replicas s))) =
      map owned_size (filter (owned_on d) (sl_replicas s))"
    using assms by (auto simp: slot_ok_def intro: unat_owned_len)
  then show ?thesis
    by (simp only: slot_owned_def)
qed

lemma owned_on_other: "d' \<noteq> d \<Longrightarrow> owned_on d' r \<Longrightarrow> \<not> owned_on d r"
  by (simp add: owned_on_def)

lemma slot_owned_evict [simp]:
  "slot_owned d' (evict_slot d s) = (if d' = d then 0 else slot_owned d' s)"
proof (cases "d' = d")
  case True
  then have "filter (owned_on d') (sl_replicas (evict_slot d s)) = []"
    by (auto simp: evict_slot_def filter_empty_conv)
  with True show ?thesis by (simp add: slot_owned_def)
next
  case False
  then have "(\<not> owned_on d r \<and> owned_on d' r) = owned_on d' r" for r
    using owned_on_other by blast
  then have "filter (owned_on d') (sl_replicas (evict_slot d s)) = filter (owned_on d') (sl_replicas s)"
    by (simp add: evict_slot_def)
  with False show ?thesis by (simp add: slot_owned_def)
qed

lemma obj_owned_evict:
  assumes "i < length (ob_slots obj)"
  shows "obj_owned d' (evict_obj d i obj) + (if d' = d then slot_owned d (ob_slots obj ! i) else 0)
    = obj_owned d' obj"
  using sum_list_map_update[OF assms, of "slot_owned d'" "evict_slot d (ob_slots obj ! i)"]
  by (auto simp: obj_owned_def evict_obj_def)

lemma obj_owned_none: "no_replicas obj \<Longrightarrow> obj_owned d obj = 0"
  by (auto simp: obj_owned_def no_replicas_def list_all_iff slot_owned_def)

lemma slot_shrunk_evict: "slot_shrunk {d} s (evict_slot d s)"
  unfolding slot_shrunk_def evict_slot_def
  by (intro exI[where x = "\<lambda>r. \<not> owned_on d r"]) simp

lemma obj_shrunk_evict: "i < length (ob_slots obj) \<Longrightarrow> obj_shrunk {d} obj (evict_obj d i obj)"
  unfolding obj_shrunk_def evict_obj_def
  by (auto simp: list_all2_conv_all_nth nth_list_update intro: slot_shrunk_evict)

lemma slot_ok_shrunk: "slot_ok D spec s \<Longrightarrow> slot_shrunk E s s' \<Longrightarrow> slot_ok D spec s'"
  by (auto simp: slot_ok_def slot_shrunk_def)

lemma object_ok_shrunk: "object_ok D obj \<Longrightarrow> obj_shrunk E obj obj' \<Longrightarrow> object_ok D obj'"
  unfolding object_ok_def obj_shrunk_def list_all2_conv_all_nth
  using slot_ok_shrunk by metis

text \<open>
  The four outcomes of one turn, in the terms above: nothing to do, or the eviction of one
  slot, after which an object without replicas is gone.
\<close>

lemma evict_entry_cases:
  assumes "evict_entry d k i objs us = Some (objs', us')"
  obtains (skip) "objs' = objs" "us' = us"
      "\<And>obj. bt_get objs k = Some obj \<Longrightarrow> os_retention (ob_spec obj) = Explicit"
  | (evict) obj where "bt_get objs k = Some obj" "os_retention (ob_spec obj) = Cache"
      "unat i < length (ob_slots obj)"
      "objs' = (if no_replicas (evict_obj d (unat i) obj) then bt_remove objs k
                else bt_insert objs k (evict_obj d (unat i) obj))"
      "unat us = unat us' + sum_list (map unat (map owned_len
         (filter (owned_on d) (sl_replicas (ob_slots obj ! unat i)))))"
proof (cases "bt_get objs k")
  case None
  with assms show thesis
    by (intro skip) (simp_all add: evict_entry_def)
next
  case (Some obj)
  show thesis
  proof (cases "os_retention (ob_spec obj) = Cache")
    case False
    then have "os_retention (ob_spec obj) = Explicit"
      by (cases "os_retention (ob_spec obj)") simp_all
    with assms Some show thesis
      by (intro skip) (simp_all add: evict_entry_def)
  next
    case True
    let ?s = "ob_slots obj ! unat i"
    let ?obj = "obj\<lparr>ob_slots := (ob_slots obj)[unat i :=
            ?s\<lparr>sl_replicas := filter (\<lambda>r. \<not> owned_on d r) (sl_replicas ?s)\<rparr>]\<rparr>"
    from assms Some True obtain freed where
      i: "unat i < length (ob_slots obj)"
      and freed: "checked_sum 0 (map owned_len (filter (owned_on d) (sl_replicas ?s))) = Some freed"
      and us': "checked_sub us freed = Some us'"
      and objs': "objs' = (if list_all (\<lambda>s. sl_replicas s = []) (ob_slots ?obj)
          then bt_remove objs k else bt_insert objs k ?obj)"
      by (auto simp: evict_entry_def Let_def bind_eq_Some_conv)
    have obj: "?obj = evict_obj d (unat i) obj"
      by (simp add: evict_obj_def evict_slot_def)
    show thesis
    proof (rule evict[OF Some True i])
      show "objs' = (if no_replicas (evict_obj d (unat i) obj) then bt_remove objs k
                else bt_insert objs k (evict_obj d (unat i) obj))"
        using objs' unfolding obj no_replicas_def .
      from freed have "unat freed = sum_list (map unat (map owned_len (filter (owned_on d) (sl_replicas ?s))))"
        by (simp add: checked_sum_Some)
      with us' show "unat us = unat us' + sum_list (map unat (map owned_len
         (filter (owned_on d) (sl_replicas ?s))))"
        by (simp add: checked_sub_Some)
    qed
  qed
qed

lemma queued_mono: "queued d objs q \<Longrightarrow> q \<subseteq> q' \<Longrightarrow> queued d objs q'"
  unfolding queued_def by blast

lemma shrunk_kept: "shrunk D protect objs objs' \<Longrightarrow> kept D (bt_get objs k) (bt_get objs' k)"
  by (cases "k = protect") (simp_all add: shrunk_def others_kept_def)

lemma kept_Some:
  assumes "kept D x (Some obj')"
  obtains obj where "x = Some obj" "obj_shrunk D obj obj'"
  using assms by (auto simp: kept_def shrunk_to_def split: option.splits if_splits)

lemma shrunk_get:
  assumes "shrunk D protect objs objs'" "bt_get objs' k = Some obj'"
  obtains obj where "bt_get objs k = Some obj" "obj_shrunk D obj obj'"
  using shrunk_kept[OF assms(1), of k] assms(2) by (auto elim: kept_Some)

lemma obj_shrunk_nth:
  assumes "obj_shrunk D obj obj'"
  shows "length (ob_slots obj') = length (ob_slots obj)" "ob_spec obj' = ob_spec obj"
    "i < length (ob_slots obj) \<Longrightarrow> slot_shrunk D (ob_slots obj ! i) (ob_slots obj' ! i)"
  using assms by (auto simp: obj_shrunk_def list_all2_conv_all_nth)

lemma slot_shrunk_owned:
  "slot_shrunk D s s' \<Longrightarrow> filter (owned_on d) (sl_replicas s') \<noteq> [] \<Longrightarrow>
   filter (owned_on d) (sl_replicas s) \<noteq> []"
  by (auto simp: slot_shrunk_def filter_empty_conv)

lemma queued_shrunk:
  assumes "shrunk D protect objs objs'" "queued d objs q"
  shows "queued d objs' q"
  unfolding queued_def
proof (intro allI impI)
  fix k obj' i
  assume *: "bt_get objs' k = Some obj'" "os_retention (ob_spec obj') = Cache"
    "i < length (ob_slots obj')" "filter (owned_on d) (sl_replicas (ob_slots obj' ! i)) \<noteq> []"
  from assms(1) *(1) obtain obj where "bt_get objs k = Some obj" "obj_shrunk D obj obj'"
    by (rule shrunk_get)
  with * obj_shrunk_nth[OF this(2)] show "(k, word_of_nat i) \<in> q"
    using assms(2) slot_shrunk_owned unfolding queued_def by metis
qed

lemma in_range_shrunk:
  assumes "shrunk D protect objs objs'" "in_range objs q"
  shows "in_range objs' q"
  unfolding in_range_def
proof (intro allI impI)
  fix k i obj'
  assume *: "(k, i) \<in> q" "bt_get objs' k = Some obj'"
  from assms(1) *(2) obtain obj where "bt_get objs k = Some obj" "obj_shrunk D obj obj'"
    by (rule shrunk_get)
  with * assms(2) obj_shrunk_nth(1)[OF this(2)] show "unat i < length (ob_slots obj')"
    unfolding in_range_def by metis
qed

lemma in_range_mono: "in_range objs q \<Longrightarrow> q' \<subseteq> q \<Longrightarrow> in_range objs q'"
  unfolding in_range_def by blast

lemma evicted_get:
  assumes "objects_ok D objs"
    and "objs' = (if no_replicas obj' then bt_remove objs k else bt_insert objs k obj')"
  shows "bt_get objs' = (bt_get objs)(k := (if no_replicas obj' then None else Some obj'))" "bt_inv objs'"
  using assms by (simp_all add: objects_ok_def bt_get_remove)

lemma evict_entry_shrunk:
  assumes "evict_entry d k i objs us = Some (objs', us')" "objects_ok D objs" "k \<noteq> protect"
  shows "shrunk {d} protect objs objs'"
  using assms(1)
proof (cases rule: evict_entry_cases)
  case (evict obj)
  note get = evicted_get(1)[OF assms(2) evict(4)]
  have "obj_shrunk {d} obj (evict_obj d (unat i) obj)"
    using evict(3) by (rule obj_shrunk_evict)
  then have "shrunk_to {d} obj (bt_get objs' k)"
    unfolding get shrunk_to_def by auto
  moreover have "bt_get objs' k' = bt_get objs k'" if "k' \<noteq> k" for k'
    using that by (simp add: get)
  ultimately have "kept {d} (bt_get objs k') (bt_get objs' k')" for k'
    using evict(1,2) by (cases "k' = k") (simp_all add: kept_def[of _ "Some obj"])
  moreover have "bt_get objs' protect = bt_get objs protect"
    using assms(3) by (simp add: get)
  ultimately show ?thesis
    by (simp add: shrunk_def others_kept_def)
qed simp

lemma objects_ok_shrunk:
  assumes "objects_ok D objs" "shrunk E protect objs objs'" "bt_inv objs'"
  shows "objects_ok D objs'"
  unfolding objects_ok_def
proof (intro conjI allI impI)
  fix k obj'
  assume "bt_get objs' k = Some obj'"
  with assms(2) obtain obj where "bt_get objs k = Some obj" "obj_shrunk E obj obj'"
    by (rule shrunk_get)
  with assms(1) show "object_ok D obj'"
    unfolding objects_ok_def using object_ok_shrunk by blast
qed (rule assms(3))

lemma evict_entry_bt_inv:
  assumes "evict_entry d k i objs us = Some (objs', us')" "objects_ok D objs"
  shows "bt_inv objs'"
  using assms(1)
proof (cases rule: evict_entry_cases)
  case (evict obj)
  then show ?thesis
    using evicted_get(2)[OF assms(2)] by blast
qed (use assms(2) in \<open>simp add: objects_ok_def\<close>)

lemma owned_bytes_evicted:
  assumes "objects_ok D objs" "bt_get objs k = Some obj" "i < length (ob_slots obj)"
    and "objs' = (if no_replicas (evict_obj d i obj) then bt_remove objs k
                  else bt_insert objs k (evict_obj d i obj))"
  shows "owned_bytes d' objs' + (if d' = d then slot_owned d (ob_slots obj ! i) else 0) = owned_bytes d' objs"
proof -
  have "owned_bytes d' objs' + obj_owned d' obj = owned_bytes d' objs + obj_owned d' (evict_obj d i obj)"
  proof (cases "no_replicas (evict_obj d i obj)")
    case True
    with assms bt_sum_remove[of "obj_owned d'" objs k] show ?thesis
      by (simp add: obj_owned_none)
  next
    case False
    with assms bt_sum_insert[of objs "obj_owned d'" k "evict_obj d i obj"] show ?thesis
      by (simp add: objects_ok_def)
  qed
  with obj_owned_evict[OF assms(3), of d' d] show ?thesis
    by linarith
qed

lemma evict_entry_owned:
  assumes "evict_entry d k i objs us = Some (objs', us')" "objects_ok D objs"
    and "unat us = owned_bytes d objs"
  shows "unat us' = owned_bytes d objs'" "d' \<noteq> d \<Longrightarrow> owned_bytes d' objs' = owned_bytes d' objs"
proof -
  from assms(1) have "unat us' = owned_bytes d objs' \<and> (d' \<noteq> d \<longrightarrow> owned_bytes d' objs' = owned_bytes d' objs)"
  proof (cases rule: evict_entry_cases)
    case skip
    with assms(3) show ?thesis by simp
  next
    case (evict obj)
    from assms(2) evict(1) have "object_ok D obj"
      by (simp add: objects_ok_def)
    from object_ok_nth(2)[OF this evict(3)] evict(5)
    have "unat us = unat us' + slot_owned d (ob_slots obj ! unat i)"
      by (metis sum_owned_len)
    with owned_bytes_evicted[OF assms(2) evict(1,3,4), of d] owned_bytes_evicted[OF assms(2) evict(1,3,4), of d']
      assms(3) show ?thesis by (simp split: if_splits)
  qed
  then show "unat us' = owned_bytes d objs'" "d' \<noteq> d \<Longrightarrow> owned_bytes d' objs' = owned_bytes d' objs"
    by blast+
qed

lemma unat_of_nat32: "n < 2 ^ 32 \<Longrightarrow> unat (word_of_nat n :: u32) = n"
  by (simp add: unat_of_nat take_bit_nat_eq_self)

text \<open>A popped entry has done its work: the rest of the queue still covers the device.\<close>

lemma evict_entry_queued:
  assumes "evict_entry d k i objs us = Some (objs', us')" "objects_ok D objs"
    and "queued d objs (insert (k, i) q)"
  shows "queued d objs' q"
  using assms(1)
proof (cases rule: evict_entry_cases)
  case skip
  show ?thesis
    unfolding queued_def
  proof (intro allI impI)
    fix k' obj j
    assume *: "bt_get objs' k' = Some obj" "os_retention (ob_spec obj) = Cache"
      "j < length (ob_slots obj)" "filter (owned_on d) (sl_replicas (ob_slots obj ! j)) \<noteq> []"
    with skip have "k' \<noteq> k" by auto
    moreover have "(k', word_of_nat j) \<in> insert (k, i) q"
      using assms(3) * skip(1) unfolding queued_def by blast
    ultimately show "(k', word_of_nat j) \<in> q" by simp
  qed
next
  case (evict obj)
  note get = evicted_get(1)[OF assms(2) evict(4)]
  show ?thesis
    unfolding queued_def
  proof (intro allI impI)
    fix k' obj' j
    assume *: "bt_get objs' k' = Some obj'" "os_retention (ob_spec obj') = Cache"
      "j < length (ob_slots obj')" "filter (owned_on d) (sl_replicas (ob_slots obj' ! j)) \<noteq> []"
    have "(k', word_of_nat j) \<in> insert (k, i) q"
    proof -
      have "queued d objs' (insert (k, i) q)"
        using queued_shrunk[OF evict_entry_shrunk[OF assms(1,2), of "k @ [0]"] assms(3)] by simp
      with * show ?thesis unfolding queued_def by blast
    qed
    moreover have "(k', word_of_nat j) \<noteq> (k, i)"
    proof
      assume eq: "(k', word_of_nat j) = (k, i)"
      with * get have obj': "obj' = evict_obj d (unat i) obj"
        by (auto split: if_splits)
      from assms(2) evict(1) have "object_ok D obj"
        by (simp add: objects_ok_def)
      with *(3) obj' have "j < 2 ^ 32"
        by (simp add: object_ok_def evict_obj_def)
      with eq have "unat i = j"
        using unat_of_nat32[of j] by auto
      with * obj' evict(3) show False
        by (simp add: evict_obj_def evict_slot_def)
    qed
    ultimately show "(k', word_of_nat j) \<in> q" by blast
  qed
qed

lemma evict_entry_total:
  assumes "objects_ok D objs" "unat us = owned_bytes d objs"
    and "\<And>obj. bt_get objs k = Some obj \<Longrightarrow> unat i < length (ob_slots obj)"
  shows "\<exists>objs' us'. evict_entry d k i objs us = Some (objs', us')"
proof (cases "\<exists>obj. bt_get objs k = Some obj \<and> os_retention (ob_spec obj) = Cache")
  case False
  then show ?thesis
    by (auto simp: evict_entry_def split: option.splits)
next
  case True
  then obtain obj where obj: "bt_get objs k = Some obj" "os_retention (ob_spec obj) = Cache"
    by blast
  let ?rs = "map owned_len (filter (owned_on d) (sl_replicas (ob_slots obj ! unat i)))"
  from assms(1) obj(1) have ok: "object_ok D obj"
    by (simp add: objects_ok_def)
  note i = assms(3)[OF obj(1)]
  have "sum_list (map unat ?rs) = slot_owned d (ob_slots obj ! unat i)"
    using object_ok_nth(2)[OF ok i] by (rule sum_owned_len)
  moreover have "slot_owned d (ob_slots obj ! unat i) \<le> obj_owned d obj"
    using obj_owned_evict[OF i, of d d] by simp
  moreover have "obj_owned d obj \<le> owned_bytes d objs"
    using obj(1) by (rule bt_sum_get_le)
  ultimately have le: "sum_list (map unat ?rs) \<le> unat us"
    using assms(2) by linarith
  define freed :: u64 where "freed = word_of_nat (sum_list (map unat ?rs))"
  have "unat freed = sum_list (map unat ?rs)"
    unfolding freed_def using le unat_bound[of us] by (intro unat_of_nat_small) simp
  then have "checked_sum 0 ?rs = Some freed"
    by (simp add: checked_sum_Some)
  moreover have "checked_sub us freed \<noteq> None"
    using le \<open>unat freed = _\<close> by (simp add: checked_sub_None)
  ultimately show ?thesis
    using obj i by (auto simp: evict_entry_def Let_def index_def)
qed

section \<open>Making room\<close>

text \<open>What the loop establishes, whatever it does on the way.\<close>

definition loop_post ::
    "device \<Rightarrow> key \<Rightarrow> device set \<Rightarrow> objects \<Rightarrow> u64 \<Rightarrow> objects \<Rightarrow> u64 \<Rightarrow> bool" where
  "loop_post d protect D objs us objs' us' \<longleftrightarrow>
     objects_ok D objs' \<and> unat us' = owned_bytes d objs' \<and> unat us' \<le> unat us \<and>
     (\<forall>d'. d' \<noteq> d \<longrightarrow> owned_bytes d' objs' = owned_bytes d' objs) \<and>
     shrunk {d} protect objs objs'"

lemma loop_post_refl: "objects_ok D objs \<Longrightarrow> unat us = owned_bytes d objs \<Longrightarrow> loop_post d protect D objs us objs us"
  by (simp add: loop_post_def)

lemma loop_post_trans:
  assumes "loop_post d protect D a u b v" "loop_post d protect D b v c w"
  shows "loop_post d protect D a u c w"
  using assms shrunk_trans[of "{d}" protect a b "{d}" c] unfolding loop_post_def by auto

lemma shrunk_owned_le:
  assumes "evict_entry d k i objs us = Some (objs', us')"
  shows "unat us' \<le> unat us"
  using assms by (cases rule: evict_entry_cases) auto

lemma evict_entry_post:
  assumes "evict_entry d k i objs us = Some (objs', us')" "objects_ok D objs"
    and "unat us = owned_bytes d objs" "k \<noteq> protect"
  shows "loop_post d protect D objs us objs' us'"
proof -
  have sh: "shrunk {d} protect objs objs'"
    using assms(1,2,4) by (rule evict_entry_shrunk)
  then have "objects_ok D objs'"
    using objects_ok_shrunk[OF assms(2) sh] evict_entry_bt_inv[OF assms(1,2)] by blast
  with sh evict_entry_owned[OF assms(1-3)] shrunk_owned_le[OF assms(1)] show ?thesis
    unfolding loop_post_def by blast
qed

lemma evict_loop_post:
  assumes "evict_loop d need cap protect deferred objs us fifo = Some (objs', us', deferred', fifo')"
    and "objects_ok D objs" "unat us = owned_bytes d objs"
  shows "loop_post d protect D objs us objs' us' \<and>
    (queued d objs (set (deferred @ fifo)) \<longrightarrow> queued d objs' (set (deferred' @ fifo'))) \<and>
    set (deferred' @ fifo') \<subseteq> set (deferred @ fifo)"
  using assms
proof (induction d need cap protect deferred objs us fifo rule: evict_loop.induct)
  case (1 d need cap protect deferred objs us)
  then show ?case
    by (auto simp: bind_eq_Some_conv loop_post_refl)
next
  case (2 d need cap protect deferred objs us k i fifo)
  from "2.prems"(1) obtain t where t: "checked_add us need = Some t"
    by (auto simp: bind_eq_Some_conv)
  consider "t \<le> cap" | "\<not> t \<le> cap" "k = protect" | "\<not> t \<le> cap" "k \<noteq> protect" by blast
  then show ?case
  proof cases
    case 1
    with 2 t show ?thesis by (auto simp: loop_post_refl)
  next
    case 2
    with "2.IH"(1)[OF t] "2.prems" t show ?thesis by simp
  next
    case 3
    with "2.prems"(1) t obtain objs1 us1 where e: "evict_entry d k i objs us = Some (objs1, us1)"
      and rest: "evict_loop d need cap protect deferred objs1 us1 fifo = Some (objs', us', deferred', fifo')"
      by (auto simp: bind_eq_Some_conv)
    have post: "loop_post d protect D objs us objs1 us1"
      using e "2.prems"(2,3) 3(2) by (rule evict_entry_post)
    then have "objects_ok D objs1" "unat us1 = owned_bytes d objs1"
      by (simp_all add: loop_post_def)
    from "2.IH"(2)[OF t 3 e refl rest this] loop_post_trans[OF post]
      evict_entry_queued[OF e "2.prems"(2), of "set (deferred @ fifo)"]
    show ?thesis by auto
  qed
qed

lemma evict_loop_total:
  assumes "objects_ok D objs" "unat us = owned_bytes d objs" "in_range objs (set fifo)"
    and "unat us + unat need < 2 ^ 64"
  shows "\<exists>r. evict_loop d need cap protect deferred objs us fifo = Some r"
  using assms
proof (induction d need cap protect deferred objs us fifo rule: evict_loop.induct)
  case (1 d need cap protect deferred objs us)
  then show ?case by (simp add: checked_add_def)
next
  case (2 d need cap protect deferred objs us k i fifo)
  then obtain t where t: "checked_add us need = Some t"
    by (simp add: checked_add_def)
  have range': "in_range objs (set fifo)"
    using "2.prems"(3) by (rule in_range_mono) auto
  consider "t \<le> cap" | "\<not> t \<le> cap" "k = protect" | "\<not> t \<le> cap" "k \<noteq> protect" by blast
  then show ?case
  proof cases
    case 1
    with t show ?thesis by simp
  next
    case 2
    with "2.IH"(1)[OF t] "2.prems" range' t show ?thesis by simp
  next
    case 3
    have "unat i < length (ob_slots obj)" if "bt_get objs k = Some obj" for obj
      using "2.prems"(3) that unfolding in_range_def by auto
    then obtain objs1 us1 where e: "evict_entry d k i objs us = Some (objs1, us1)"
      using evict_entry_total[OF "2.prems"(1,2)] by blast
    have post: "loop_post d protect D objs us objs1 us1"
      using e "2.prems"(1,2) 3(2) by (rule evict_entry_post)
    then have "\<exists>r. evict_loop d need cap protect deferred objs1 us1 fifo = Some r"
      using "2.IH"(2)[OF t 3 e refl] "2.prems"(4) in_range_shrunk[OF _ range', of "{d}" protect objs1]
      by (simp add: loop_post_def)
    with t e 3 show ?thesis by simp
  qed
qed

text \<open>
  The loop stops either because the bytes fit or because the queue is exhausted; the
  entries it keeps aside all belong to the protected key.
\<close>

lemma evict_loop_exit:
  assumes "evict_loop d need cap protect deferred objs us fifo = Some (objs', us', deferred', fifo')"
    and "\<forall>e \<in> set deferred. fst e = protect"
  shows "(fifo' = [] \<or> unat us' + unat need \<le> unat cap) \<and> (\<forall>e \<in> set deferred'. fst e = protect) \<and>
    unat us' + unat need < 2 ^ 64"
  using assms
proof (induction d need cap protect deferred objs us fifo rule: evict_loop.induct)
  case (1 d need cap protect deferred objs us)
  then show ?case
    by (auto simp: bind_eq_Some_conv checked_add_def split: if_splits)
next
  case (2 d need cap protect deferred objs us k i fifo)
  from "2.prems"(1) obtain t where t: "checked_add us need = Some t"
    by (auto simp: bind_eq_Some_conv)
  then have ut: "unat t = unat us + unat need"
    by (simp add: checked_add_Some)
  consider "t \<le> cap" | "\<not> t \<le> cap" "k = protect" | "\<not> t \<le> cap" "k \<noteq> protect" by blast
  then show ?case
  proof cases
    case 1
    with 2 t ut unat_bound[of t] show ?thesis by (auto simp: word_le_nat_alt)
  next
    case 2
    with "2.IH"(1)[OF t] "2.prems" t show ?thesis by auto
  next
    case 3
    with "2.prems"(1) t obtain objs1 us1 where e: "evict_entry d k i objs us = Some (objs1, us1)"
      and rest: "evict_loop d need cap protect deferred objs1 us1 fifo = Some (objs', us', deferred', fifo')"
      by (auto simp: bind_eq_Some_conv)
    from "2.IH"(2)[OF t 3 e refl rest "2.prems"(2)] show ?thesis .
  qed
qed

definition pool_shrunk :: "pool \<Rightarrow> pool \<Rightarrow> bool" where
  "pool_shrunk p p' \<longleftrightarrow> po_capacity p' = po_capacity p \<and> unat (po_used p') \<le> unat (po_used p) \<and>
     set (po_fifo p') \<subseteq> set (po_fifo p)"

definition pools_shrunk :: "device set \<Rightarrow> pools \<Rightarrow> pools \<Rightarrow> bool" where
  "pools_shrunk D ps ps' \<longleftrightarrow> (\<forall>d. case ps d of
      None \<Rightarrow> ps' d = None
    | Some p \<Rightarrow> (\<exists>p'. ps' d = Some p' \<and> pool_shrunk p p' \<and> (d \<notin> D \<longrightarrow> p' = p)))"

definition room_made :: "device set \<Rightarrow> key \<Rightarrow> mem_state \<Rightarrow> mem_state \<Rightarrow> bool" where
  "room_made D protect st st' \<longleftrightarrow> shrunk D protect (st_objects st) (st_objects st') \<and>
     pools_shrunk D (st_pools st) (st_pools st')"

text \<open>Only \<open>Explicit\<close> objects and the protected key still own bytes on \<open>d\<close>.\<close>

definition exhausted :: "device \<Rightarrow> key \<Rightarrow> objects \<Rightarrow> bool" where
  "exhausted d protect objs \<longleftrightarrow> (\<forall>k obj. bt_get objs k = Some obj \<longrightarrow> k \<noteq> protect \<longrightarrow>
     os_retention (ob_spec obj) = Cache \<longrightarrow> (\<forall>s \<in> set (ob_slots obj). filter (owned_on d) (sl_replicas s) = []))"

lemma pool_shrunk_refl [simp]: "pool_shrunk p p"
  by (simp add: pool_shrunk_def)

lemma pools_shrunk_refl [simp]: "pools_shrunk D ps ps"
  by (simp add: pools_shrunk_def split: option.splits)

lemma pools_shrunkD:
  assumes "pools_shrunk D ps ps'"
  shows "ps d = None \<Longrightarrow> ps' d = None"
    and "ps d = Some p \<Longrightarrow> \<exists>p'. ps' d = Some p' \<and> pool_shrunk p p' \<and> (d \<notin> D \<longrightarrow> p' = p)"
proof -
  from assms have *: "case ps d of None \<Rightarrow> ps' d = None
    | Some p \<Rightarrow> (\<exists>p'. ps' d = Some p' \<and> pool_shrunk p p' \<and> (d \<notin> D \<longrightarrow> p' = p))"
    unfolding pools_shrunk_def by blast
  then show "ps d = None \<Longrightarrow> ps' d = None"
    and "ps d = Some p \<Longrightarrow> \<exists>p'. ps' d = Some p' \<and> pool_shrunk p p' \<and> (d \<notin> D \<longrightarrow> p' = p)"
    by simp_all
qed

lemma pools_shrunk_trans:
  assumes "pools_shrunk D a b" "pools_shrunk D' b c"
  shows "pools_shrunk (D \<union> D') a c"
  unfolding pools_shrunk_def
proof
  fix d
  show "case a d of None \<Rightarrow> c d = None
    | Some p \<Rightarrow> \<exists>p'. c d = Some p' \<and> pool_shrunk p p' \<and> (d \<notin> D \<union> D' \<longrightarrow> p' = p)"
  proof (cases "a d")
    case None
    with pools_shrunkD(1)[OF assms(1)] pools_shrunkD(1)[OF assms(2)] show ?thesis by simp
  next
    case (Some p)
    from pools_shrunkD(2)[OF assms(1) Some] obtain p1 where p1:
      "b d = Some p1" "pool_shrunk p p1" "d \<notin> D \<longrightarrow> p1 = p" by blast
    from pools_shrunkD(2)[OF assms(2) p1(1)] obtain p2 where p2:
      "c d = Some p2" "pool_shrunk p1 p2" "d \<notin> D' \<longrightarrow> p2 = p1" by blast
    have "pool_shrunk p p2"
      using p1(2) p2(2) by (auto simp: pool_shrunk_def)
    with p1 p2 Some show ?thesis by simp
  qed
qed

lemma pools_shrunk_dom: "pools_shrunk D ps ps' \<Longrightarrow> dom ps' = dom ps"
proof (rule set_eqI)
  fix d
  assume "pools_shrunk D ps ps'"
  from pools_shrunkD[OF this, of d] show "d \<in> dom ps' \<longleftrightarrow> d \<in> dom ps"
    by (cases "ps d") auto
qed

lemma room_made_refl [simp]: "room_made D protect st st"
  by (simp add: room_made_def)

lemma room_made_trans:
  "room_made D protect a b \<Longrightarrow> room_made D' protect b c \<Longrightarrow> room_made (D \<union> D') protect a c"
  unfolding room_made_def using shrunk_trans pools_shrunk_trans by blast

end
