(* ===== verification/Pega_Memory_Inv.thy ===== *)
theory Pega_Memory_Inv
  imports Pega_Memory_Evict
begin

text \<open>
  Preservation of the invariant of the reference backend by each of its operations, and the
  conditions under which an operation returns (does not panic).
\<close>

section \<open>Making room\<close>

lemma make_room_cases:
  assumes "make_room d need protect st = Some (st', room)" "st_pools st d = Some p"
  obtains (unlimited) "po_capacity p = None" "st' = st" "room"
  | (too_big) cap where "po_capacity p = Some cap" "unat cap < unat need" "st' = st" "\<not> room"
  | (loop) cap objs' us' deferred fifo' where "po_capacity p = Some cap" "unat need \<le> unat cap"
      "evict_loop d need cap protect [] (st_objects st) (po_used p) (po_fifo p) =
         Some (objs', us', deferred, fifo')"
      "st' = st\<lparr>st_objects := objs', st_pools := (st_pools st)(d \<mapsto>
         p\<lparr>po_used := us', po_fifo := deferred @ fifo'\<rparr>)\<rparr>"
      "room \<longleftrightarrow> unat us' + unat need \<le> unat cap"
proof (cases "po_capacity p")
  case None
  with assms show thesis
    by (intro unlimited) (simp_all add: make_room_def)
next
  case (Some cap)
  show thesis
  proof (cases "need > cap")
    case True
    with assms Some show thesis
      by (intro too_big[of cap]) (simp_all add: make_room_def word_less_nat_alt)
  next
    case False
    with assms Some obtain objs' us' deferred fifo' t where
      "evict_loop d need cap protect [] (st_objects st) (po_used p) (po_fifo p) =
         Some (objs', us', deferred, fifo')"
      "checked_add us' need = Some t"
      "st' = st\<lparr>st_objects := objs', st_pools := (st_pools st)(d \<mapsto>
         p\<lparr>po_used := us', po_fifo := deferred @ fifo'\<rparr>)\<rparr>"
      "room \<longleftrightarrow> t \<le> cap"
      by (auto simp: make_room_def bind_eq_Some_conv)
    with Some False show thesis
      by (intro loop[of cap objs' us' deferred fifo'])
         (auto simp: checked_add_Some word_le_nat_alt word_less_nat_alt)
  qed
qed

lemma mem_inv_pool: "mem_inv st \<Longrightarrow> st_pools st d = Some p \<Longrightarrow> pool_inv d (st_objects st) p"
  by (simp add: mem_inv_def)

lemma make_room_inv:
  assumes "make_room d need protect st = Some (st', room)" "mem_inv st" "st_pools st d = Some p"
  shows "mem_inv st'" "room_made {d} protect st st'"
proof -
  have ok: "objects_ok (dom (st_pools st)) (st_objects st)" and p: "pool_inv d (st_objects st) p"
    using assms(2) mem_inv_pool[OF assms(2,3)] by (simp_all add: mem_inv_def)
  from assms(1,3) have "mem_inv st' \<and> room_made {d} protect st st'"
  proof (cases rule: make_room_cases)
    case (loop cap objs' us' deferred fifo')
    define p' where "p' = p\<lparr>po_used := us', po_fifo := deferred @ fifo'\<rparr>"
    from evict_loop_post[OF loop(3) ok] p
    have post: "loop_post d protect (dom (st_pools st)) (st_objects st) (po_used p) objs' us'"
      and q: "queued d objs' (set (po_fifo p'))" and sub: "set (po_fifo p') \<subseteq> set (po_fifo p)"
      by (simp_all add: pool_inv_def p'_def)
    have st': "st_objects st' = objs'" "st_pools st' = (st_pools st)(d \<mapsto> p')"
      by (simp_all add: loop(4) p'_def)
    have "pool_inv d' objs' p''" if "st_pools st' d' = Some p''" for d' p''
    proof (cases "d' = d")
      case True
      with that st' q post show ?thesis
        by (auto simp: pool_inv_def loop_post_def p'_def)
    next
      case False
      with that st' mem_inv_pool[OF assms(2), of d' p''] post show ?thesis
        by (auto simp: pool_inv_def loop_post_def intro: queued_shrunk)
    qed
    moreover have "dom (st_pools st') = dom (st_pools st)"
      using assms(3) st' by auto
    ultimately have "mem_inv st'"
      using post st' by (simp add: mem_inv_def loop_post_def)
    moreover have "pools_shrunk {d} (st_pools st) (st_pools st')"
      using post sub assms(3) st'
      by (auto simp: pools_shrunk_def pool_shrunk_def loop_post_def p'_def split: option.splits)
    ultimately show ?thesis
      using post st' by (simp add: room_made_def loop_post_def)
  qed (use assms(2) in simp_all)
  then show "mem_inv st'" "room_made {d} protect st st'" by blast+
qed

text \<open>A positive answer is kept: the bytes fit below the capacity.\<close>

lemma make_room_fits:
  assumes "make_room d need protect st = Some (st', True)" "st_pools st' d = Some p'"
    and "st_pools st d = Some p" "po_capacity p' = Some cap"
  shows "unat (po_used p') + unat need \<le> unat cap"
  using assms(1,3) by (cases rule: make_room_cases) (use assms in auto)

text \<open>A negative answer is honest: everything evictable is gone and the bytes still do not fit.\<close>

lemma make_room_refuses:
  assumes "make_room d need protect st = Some (st', False)" "mem_inv st" "st_pools st d = Some p"
  obtains p' cap where "st_pools st' d = Some p'" "po_capacity p' = Some cap"
    "unat cap < unat need \<or> unat cap < unat (po_used p') + unat need \<and> exhausted d protect (st_objects st')"
  using assms(1,3)
proof (cases rule: make_room_cases)
  case (too_big cap)
  then show ?thesis
    using that[of p cap] assms(3) by simp
next
  case (loop cap objs' us' deferred fifo')
  have inv: "mem_inv st'"
    using make_room_inv(1)[OF assms] .
  from evict_loop_exit[OF loop(3)] loop(5) have fifo: "fifo' = []" "\<forall>e \<in> set deferred. fst e = protect"
    by auto
  have p': "st_pools st' d = Some (p\<lparr>po_used := us', po_fifo := deferred @ fifo'\<rparr>)"
    by (simp add: loop(4))
  have "exhausted d protect (st_objects st')"
    unfolding exhausted_def
  proof (intro allI impI ballI, rule ccontr)
    fix k obj s
    assume k: "bt_get (st_objects st') k = Some obj" "k \<noteq> protect" "os_retention (ob_spec obj) = Cache"
      and s: "s \<in> set (ob_slots obj)" "filter (owned_on d) (sl_replicas s) \<noteq> []"
    from s(1) obtain i where "i < length (ob_slots obj)" "s = ob_slots obj ! i"
      by (metis in_set_conv_nth)
    with k s mem_inv_pool[OF inv p'] have "(k, word_of_nat i) \<in> set (deferred @ fifo')"
      unfolding pool_inv_def queued_def by auto
    with fifo k(2) show False by auto
  qed
  with p' loop(1,5) show ?thesis
    using that[of "p\<lparr>po_used := us', po_fifo := deferred @ fifo'\<rparr>" cap] by auto
qed simp

lemma make_room_total:
  assumes "mem_inv st" "st_pools st d = Some p" "in_range (st_objects st) (set (po_fifo p))"
    and "unat (po_used p) + unat need < 2 ^ 64"
  shows "\<exists>st' room. make_room d need protect st = Some (st', room)"
proof (cases "po_capacity p")
  case None
  with assms(2) show ?thesis by (auto simp: make_room_def)
next
  case (Some cap)
  from assms have ok: "objects_ok (dom (st_pools st)) (st_objects st)"
    and us: "unat (po_used p) = owned_bytes d (st_objects st)"
    by (simp_all add: mem_inv_def pool_inv_def)
  obtain r where r: "evict_loop d need cap protect [] (st_objects st) (po_used p) (po_fifo p) = Some r"
    using evict_loop_total[OF ok us assms(3,4)] by blast
  obtain objs' us' deferred fifo' where eq: "r = (objs', us', deferred, fifo')"
    by (cases r)
  have "unat us' + unat need < 2 ^ 64"
    using evict_loop_exit[OF r[unfolded eq]] by simp
  then have "checked_add us' need \<noteq> None"
    by (simp add: checked_add_None)
  with assms(2) Some r eq show ?thesis
    by (auto simp: make_room_def)
qed

lemma room_made_fifo_ok:
  assumes "room_made D protect st st'" "fifo_ok st"
  shows "fifo_ok st'"
  unfolding fifo_ok_def
proof (intro allI impI)
  fix d p'
  assume p': "st_pools st' d = Some p'"
  from assms(1) have sh: "pools_shrunk D (st_pools st) (st_pools st')"
    and ob: "shrunk D protect (st_objects st) (st_objects st')"
    by (simp_all add: room_made_def)
  from p' sh obtain p where p: "st_pools st d = Some p" "pool_shrunk p p'"
    using pools_shrunkD[OF sh, of d] by (cases "st_pools st d") auto
  with assms(2) have "in_range (st_objects st) (set (po_fifo p))"
    by (simp add: fifo_ok_def)
  with p(2) show "in_range (st_objects st') (set (po_fifo p'))"
    using in_range_shrunk[OF ob] in_range_mono by (metis pool_shrunk_def)
qed

section \<open>Placing a slot\<close>

definition fits :: "device \<Rightarrow> u64 \<Rightarrow> pools \<Rightarrow> bool" where
  "fits d len ps \<longleftrightarrow> (\<forall>p cap. ps d = Some p \<longrightarrow> po_capacity p = Some cap \<longrightarrow>
     unat (po_used p) + unat len \<le> unat cap)"

lemma fits_shrunk:
  assumes "fits d len ps" "pools_shrunk D ps ps'"
  shows "fits d len ps'"
  unfolding fits_def
proof (intro allI impI)
  fix p' cap
  assume p': "ps' d = Some p'" "po_capacity p' = Some cap"
  then obtain p where p: "ps d = Some p" "pool_shrunk p p'"
    using pools_shrunkD[OF assms(2), of d] by (cases "ps d") auto
  then have "unat (po_used p) + unat len \<le> unat cap"
    using assms(1) p'(2) by (simp add: fits_def pool_shrunk_def)
  with p(2) show "unat (po_used p') + unat len \<le> unat cap"
    by (simp add: pool_shrunk_def)
qed

text \<open>
  The targets \<open>ts\<close> chosen from the candidates \<open>cs\<close>: each is a served device with room for
  the slot, and \<open>Each\<close> apart there is at most one.
\<close>

definition placed :: "bool \<Rightarrow> u64 \<Rightarrow> (device \<times> bool) list \<Rightarrow> (device \<times> bool) list \<Rightarrow> pools \<Rightarrow> bool" where
  "placed each len cs ts ps \<longleftrightarrow> set ts \<subseteq> set cs \<and> fst ` set ts \<subseteq> dom ps \<and>
     (\<forall>t \<in> set ts. fits (fst t) len ps) \<and> (distinct (map fst cs) \<longrightarrow> distinct (map fst ts)) \<and>
     length ts \<le> (if each then length cs else 1)"

lemma placed_Nil [simp]: "placed each len cs [] ps"
  by (simp add: placed_def)

lemma placed_skip: "placed each len cs ts ps \<Longrightarrow> placed each len (c # cs) ts ps"
  by (auto simp: placed_def)

lemma placed_Cons:
  assumes "placed each len cs ts ps" "fst c \<in> dom ps" "fits (fst c) len ps" "each \<or> ts = []"
  shows "placed each len (c # cs) (c # ts) ps"
  using assms by (auto simp: placed_def)

lemma place_loop_inv:
  assumes "place_loop each len kb cs targets e st = Some (st', targets', e')" "mem_inv st"
  shows "mem_inv st' \<and> room_made (fst ` set cs) kb st st' \<and>
    (\<exists>ts. targets' = targets @ ts \<and> placed each len cs ts (st_pools st'))"
  using assms
proof (induction each len kb cs targets e st rule: place_loop.induct)
  case (1 each len kb targets e st)
  then show ?case by simp
next
  case (2 each len kb d misplaced cs targets e st)
  have extend: "room_made (fst ` set ((d, misplaced) # cs)) kb st st'"
    if "room_made {d} kb st st1" "room_made (fst ` set cs) kb st1 st'" for st1
    using room_made_trans[OF that] by simp
  show ?case
  proof (cases "st_pools st d")
    case None
    show ?thesis
    proof (cases each)
      case True
      with 2 None show ?thesis by simp
    next
      case False
      with "2.IH"(1)[OF None refl False] "2.prems" None extend[OF room_made_refl] show ?thesis
        by (auto intro: placed_skip)
    qed
  next
    case (Some p)
    then have served: "st_pools st d \<noteq> None" by simp
    with "2.prems"(1) obtain st1 room where m: "make_room d len kb st = Some (st1, room)"
      by (auto simp: bind_eq_Some_conv)
    have inv: "mem_inv st1" and made: "room_made {d} kb st st1"
      using make_room_inv[OF m "2.prems"(2) Some] by blast+
    then obtain p1 where p1: "st_pools st1 d = Some p1"
      using pools_shrunkD(2)[of "{d}" "st_pools st" "st_pools st1" d p] Some by (auto simp: room_made_def)
    have fit: "fits d len (st_pools st1)" if room
      using make_room_fits[of d len kb st st1] m that Some by (simp add: fits_def)
    note rest = "2.prems"(1)[simplified place_loop.simps if_not_P[OF served] m, simplified]
    note IH = "2.IH"(2,3)[OF served m refl]
    consider (every) room each | (found) room "\<not> each" | (fail) "\<not> room" each | (further) "\<not> room" "\<not> each"
      by blast
    then show ?thesis
    proof cases
      case every
      with rest have "place_loop each len kb cs (targets @ [(d, misplaced)]) e st1 = Some (st', targets', e')"
        by (simp split: if_splits)
      from IH(1)[OF every(1) refl every(2) this inv] obtain ts where ts: "mem_inv st'"
        "room_made (fst ` set cs) kb st1 st'" "targets' = targets @ (d, misplaced) # ts"
        "placed each len cs ts (st_pools st')" by auto
      have sh: "pools_shrunk (fst ` set cs) (st_pools st1) (st_pools st')"
        using ts(2) by (simp add: room_made_def)
      have "placed each len ((d, misplaced) # cs) ((d, misplaced) # ts) (st_pools st')"
        using ts(4) fits_shrunk[OF fit[OF every(1)] sh] pools_shrunk_dom[OF sh] p1 every(2)
        by (intro placed_Cons) auto
      with ts(1,3) extend[OF made ts(2)] show ?thesis by blast
    next
      case found
      with rest have eq: "st' = st1" "targets' = targets @ [(d, misplaced)]"
        by (auto split: if_splits)
      have "placed each len ((d, misplaced) # cs) [(d, misplaced)] (st_pools st1)"
        using fit[OF found(1)] p1 by (intro placed_Cons) auto
      with eq inv extend[OF made] show ?thesis by simp
    next
      case fail
      with rest inv extend[OF made] show ?thesis by (auto split: if_splits)
    next
      case further
      with rest IH(2)[OF further(1) refl further(2) _ inv] extend[OF made] show ?thesis
        by (auto intro: placed_skip split: if_splits)
    qed
  qed
qed

text \<open>Room for \<open>n\<close> more bytes below \<open>2 ^ 64\<close> in every counter.\<close>

definition headroom :: "nat \<Rightarrow> mem_state \<Rightarrow> bool" where
  "headroom n st \<longleftrightarrow> (\<forall>d p. st_pools st d = Some p \<longrightarrow> unat (po_used p) + n < 2 ^ 64)"

lemma headroom_room_made:
  assumes "room_made D protect st st'" "headroom n st"
  shows "headroom n st'"
  unfolding headroom_def
proof (intro allI impI)
  fix d p'
  assume p': "st_pools st' d = Some p'"
  from assms(1) have sh: "pools_shrunk D (st_pools st) (st_pools st')"
    by (simp add: room_made_def)
  with p' obtain p where "st_pools st d = Some p" "pool_shrunk p p'"
    using pools_shrunkD[OF sh, of d] by (cases "st_pools st d") auto
  with assms(2) show "unat (po_used p') + n < 2 ^ 64"
    unfolding headroom_def pool_shrunk_def by (meson add_le_mono1 le_less_trans)
qed

lemma place_loop_total:
  assumes "mem_inv st" "fifo_ok st" "headroom (unat len) st"
  shows "\<exists>r. place_loop each len kb cs targets e st = Some r"
  using assms
proof (induction each len kb cs targets e st rule: place_loop.induct)
  case (2 each len kb d misplaced cs targets e st)
  show ?case
  proof (cases "st_pools st d")
    case None
    with 2 show ?thesis by (cases each) (simp_all add: Let_def)
  next
    case (Some p)
    then have served: "st_pools st d \<noteq> None" by simp
    from Some "2.prems" obtain st1 room where m: "make_room d len kb st = Some (st1, room)"
      using make_room_total[of st d p len kb] by (auto simp: fifo_ok_def headroom_def)
    have inv: "mem_inv st1" and made: "room_made {d} kb st st1"
      using make_room_inv[OF m "2.prems"(1) Some] by blast+
    note st1 = inv room_made_fifo_ok[OF made "2.prems"(2)] headroom_room_made[OF made "2.prems"(3)]
    show ?thesis
      using "2.IH"(2,3)[OF served m refl _ refl _ st1] served m by (cases room; cases each) auto
  qed
qed simp

section \<open>Storing a slot\<close>

definition tcount :: "device \<Rightarrow> (device \<times> bool) list \<Rightarrow> nat" where
  "tcount d ts = length (filter (\<lambda>t. fst t = d) ts)"

lemma tcount_simps [simp]:
  "tcount d [] = 0"
  "tcount d (t # ts) = (if fst t = d then 1 else 0) + tcount d ts"
  by (simp_all add: tcount_def)

lemma tcount_pos: "0 < tcount d ts \<longleftrightarrow> d \<in> fst ` set ts"
  by (induction ts) auto

lemma tcount_distinct: "distinct (map fst ts) \<Longrightarrow> tcount d ts \<le> 1"
  by (induction ts) (auto, metis One_nat_def gr0_conv_Suc image_set le_zero_eq not_less_zero tcount_pos zero_less_iff_neq_zero)

lemma tcount_le_length: "tcount d ts \<le> length ts"
  by (simp add: tcount_def)

text \<open>A charged pool: the counter grew by the bytes of its targets, the queue by the entry.\<close>

definition charged :: "nat \<Rightarrow> u64 \<Rightarrow> key \<times> u32 \<Rightarrow> pool \<Rightarrow> pool \<Rightarrow> bool" where
  "charged n len en p p' \<longleftrightarrow> po_capacity p' = po_capacity p \<and>
     unat (po_used p') = unat (po_used p) + n * unat len \<and>
     set (po_fifo p') = set (po_fifo p) \<union> (if n = 0 then {} else {en})"

lemma charge_all_spec:
  assumes "charge_all ts k i len ps = Some ps'"
  shows "(ps d = None \<longrightarrow> ps' d = None) \<and>
    (\<forall>p. ps d = Some p \<longrightarrow> (\<exists>p'. ps' d = Some p' \<and> charged (tcount d ts) len (k, i) p p'))"
  using assms
proof (induction ts k i len ps rule: charge_all.induct)
  case (1 k i len ps)
  then show ?case by (simp add: charged_def)
next
  case (2 d' m ts k i len ps)
  from "2.prems" obtain p0 us where p0: "ps d' = Some p0" "checked_add (po_used p0) len = Some us"
    and rest: "charge_all ts k i len (ps(d' \<mapsto> p0\<lparr>po_used := us, po_fifo := po_fifo p0 @ [(k, i)]\<rparr>)) = Some ps'"
    by (auto simp: charge_def bind_eq_Some_conv)
  have "charge d' k i len ps = Some (ps(d' \<mapsto> p0\<lparr>po_used := us, po_fifo := po_fifo p0 @ [(k, i)]\<rparr>))"
    using p0 by (simp add: charge_def)
  from "2.IH"[OF this rest] p0 show ?case
    by (auto simp: charged_def checked_add_Some split: if_splits)
qed

lemma charge_all_total:
  assumes "fst ` set ts \<subseteq> dom ps"
    and "\<forall>d p. ps d = Some p \<longrightarrow> unat (po_used p) + length ts * unat len < 2 ^ 64"
  shows "\<exists>ps'. charge_all ts k i len ps = Some ps'"
  using assms
proof (induction ts k i len ps rule: charge_all.induct)
  case (2 d m ts k i len ps)
  then obtain p where p: "ps d = Some p" by auto
  with "2.prems"(2) have fit: "unat (po_used p) + (unat len + length ts * unat len) < 2 ^ 64"
    by (auto simp: algebra_simps)
  then have us: "unat (po_used p + len) = unat (po_used p) + unat len"
    by (simp add: unat_add_fits)
  define ps1 where "ps1 = ps(d \<mapsto> p\<lparr>po_used := po_used p + len, po_fifo := po_fifo p @ [(k, i)]\<rparr>)"
  have c: "charge d k i len ps = Some ps1"
    using p fit by (simp add: charge_def checked_add_def ps1_def)
  have "unat (po_used q) + length ts * unat len < 2 ^ 64" if "ps1 d' = Some q" for d' q
  proof (cases "d' = d")
    case True
    with that us fit show ?thesis by (auto simp: ps1_def)
  next
    case False
    with that "2.prems"(2) have "unat (po_used q) + length ((d, m) # ts) * unat len < 2 ^ 64"
      by (simp add: ps1_def)
    then show ?thesis by simp
  qed
  moreover have "fst ` set ts \<subseteq> dom ps1"
    using "2.prems"(1) by (auto simp: ps1_def)
  ultimately show ?case
    using "2.IH"[OF c] c by simp
qed simp

lemma slot_owned_append:
  assumes "length bs = n"
  shows "slot_owned d (s\<lparr>sl_replicas := sl_replicas s @ new_replicas ts bs\<rparr>) = slot_owned d s + tcount d ts * n"
proof -
  have "sum_list (map owned_size (filter (owned_on d) (new_replicas ts bs))) = tcount d ts * n"
    using assms by (induction ts) (auto simp: new_replicas_def owned_on_def owned_size_def)
  then show ?thesis
    by (simp add: slot_owned_def)
qed

text \<open>The object after slot \<open>i\<close> got its bytes.\<close>

definition filled :: "nat \<Rightarrow> (device \<times> bool) list \<Rightarrow> bytes \<Rightarrow> object \<Rightarrow> object" where
  "filled i ts bs obj = obj\<lparr>ob_slots := (ob_slots obj)[i := (ob_slots obj ! i)\<lparr>sl_replicas :=
     sl_replicas (ob_slots obj ! i) @ new_replicas ts bs\<rparr>]\<rparr>"

lemma store_slot_cases:
  assumes "store_slot kb i len bs ts st = Some st'"
  obtains obj ps where "bt_get (st_objects st) kb = Some obj" "i < length (ob_slots obj)"
    "charge_all ts kb (word_of_nat i) len (st_pools st) = Some ps"
    "st' = st\<lparr>st_objects := bt_insert (st_objects st) kb (filled i ts bs obj), st_pools := ps\<rparr>"
  using assms by (auto simp: store_slot_def bind_eq_Some_conv Let_def filled_def)

lemma obj_owned_filled:
  assumes "i < length (ob_slots obj)" "length bs = n"
  shows "obj_owned d (filled i ts bs obj) = obj_owned d obj + tcount d ts * n"
proof -
  let ?s = "(ob_slots obj ! i)\<lparr>sl_replicas := sl_replicas (ob_slots obj ! i) @ new_replicas ts bs\<rparr>"
  have "obj_owned d (filled i ts bs obj) + slot_owned d (ob_slots obj ! i) =
      obj_owned d obj + slot_owned d ?s"
    using sum_list_map_update[OF assms(1), of "slot_owned d" ?s]
    by (simp add: obj_owned_def filled_def)
  then show ?thesis
    by (simp add: slot_owned_append[OF assms(2)])
qed

lemma object_ok_filled:
  assumes "object_ok D obj" "i < length (ob_slots obj)" "fst ` set ts \<subseteq> D"
    and "length bs = unat (ss_len (os_slots (ob_spec obj) ! i))"
  shows "object_ok D (filled i ts bs obj)"
proof -
  have "\<forall>r \<in> set (new_replicas ts bs). replica_ok D (os_slots (ob_spec obj) ! i) r"
    using assms(3,4) by (auto simp: new_replicas_def replica_ok_def)
  with object_ok_nth[OF assms(1,2)] assms(1,2) show ?thesis
    by (auto simp: object_ok_def filled_def list_all2_conv_all_nth nth_list_update slot_ok_def)
qed

lemma queued_filled:
  assumes "queued d objs q" "bt_get objs k = Some obj" "i < length (ob_slots obj)"
    and "d \<in> fst ` set ts \<Longrightarrow> (k, word_of_nat i) \<in> q'" "q \<subseteq> q'"
  shows "queued d (bt_insert objs k (filled i ts bs obj)) q'"
  unfolding queued_def
proof (intro allI impI)
  fix k' obj' j
  assume *: "bt_get (bt_insert objs k (filled i ts bs obj)) k' = Some obj'"
    "os_retention (ob_spec obj') = Cache" "j < length (ob_slots obj')"
    "filter (owned_on d) (sl_replicas (ob_slots obj' ! j)) \<noteq> []"
  have old: "(k', word_of_nat j) \<in> q'" if "bt_get objs k' = Some obj1" "os_retention (ob_spec obj1) = Cache"
    "j < length (ob_slots obj1)" "filter (owned_on d) (sl_replicas (ob_slots obj1 ! j)) \<noteq> []" for obj1
    using that assms(1,5) unfolding queued_def by blast
  show "(k', word_of_nat j) \<in> q'"
  proof (cases "k' = k")
    case False
    with * old[of obj'] show ?thesis by simp
  next
    case True
    with * have obj': "obj' = filled i ts bs obj" by simp
    show ?thesis
    proof (cases "j = i \<and> filter (owned_on d) (new_replicas ts bs) \<noteq> []")
      case True
      then have "d \<in> fst ` set ts"
        by (force simp: new_replicas_def owned_on_def filter_empty_conv)
      with assms(4) True \<open>k' = k\<close> show ?thesis by simp
    next
      case False
      with * obj' have "filter (owned_on d) (sl_replicas (ob_slots obj ! j)) \<noteq> []"
        by (cases "j = i") (auto simp: filled_def)
      with * obj' True assms(2) old[of obj] show ?thesis by (simp add: filled_def)
    qed
  qed
qed

lemma store_slot_inv:
  assumes "store_slot kb i len bs ts st = Some st'" "mem_inv st"
    and "bt_get (st_objects st) kb = Some obj" "ss_len (os_slots (ob_spec obj) ! i) = len"
    and "length bs = unat len" "fst ` set ts \<subseteq> dom (st_pools st)"
  shows "mem_inv st'"
proof -
  from assms(1,3) obtain ps where i: "i < length (ob_slots obj)"
    and ch: "charge_all ts kb (word_of_nat i) len (st_pools st) = Some ps"
    and st': "st_objects st' = bt_insert (st_objects st) kb (filled i ts bs obj)" "st_pools st' = ps"
    by (auto elim: store_slot_cases)
  note spec = charge_all_spec[OF ch]
  have dom: "dom ps = dom (st_pools st)"
  proof (rule set_eqI)
    fix d show "d \<in> dom ps \<longleftrightarrow> d \<in> dom (st_pools st)"
      using spec[of d] by (cases "st_pools st d") auto
  qed
  have ok: "objects_ok (dom (st_pools st)) (st_objects st)"
    using assms(2) by (simp add: mem_inv_def)
  then have "object_ok (dom ps) (filled i ts bs obj)"
    unfolding dom using assms(3-6) i by (intro object_ok_filled) (simp_all add: objects_ok_def)
  with ok have "objects_ok (dom (st_pools st')) (st_objects st')"
    by (simp add: objects_ok_def st' dom)
  moreover have "pool_inv d (st_objects st') p'" if p': "st_pools st' d = Some p'" for d p'
  proof -
    from p' st' spec[of d] obtain p where p: "st_pools st d = Some p"
      "charged (tcount d ts) len (kb, word_of_nat i) p p'"
      by (cases "st_pools st d") auto
    have old: "pool_inv d (st_objects st) p"
      using assms(2) p(1) by (rule mem_inv_pool)
    have "owned_bytes d (st_objects st') = owned_bytes d (st_objects st) + tcount d ts * unat len"
      using bt_sum_insert[of "st_objects st" "obj_owned d" kb "filled i ts bs obj"] ok assms(3)
        obj_owned_filled[OF i assms(5), of d ts] by (simp add: st' objects_ok_def)
    moreover have "queued d (st_objects st') (set (po_fifo p'))"
      unfolding st' using old p(2) assms(3) i tcount_pos[of d ts]
      by (intro queued_filled[where q = "set (po_fifo p)"]) (auto simp: pool_inv_def charged_def)
    ultimately show ?thesis
      using old p(2) by (simp add: pool_inv_def charged_def)
  qed
  ultimately show ?thesis
    by (simp add: mem_inv_def)
qed

end
