(* ===== verification/Pega_Memory_Put.thy ===== *)
theory Pega_Memory_Put
  imports Pega_Memory_Inv
begin

text \<open>
  The effect of \<open>put\<close> on the reference backend, slot by slot: which slots are written and
  with what, what happens to the other objects, and when it returns.
\<close>

section \<open>One slot\<close>

lemma charge_all_dom:
  assumes "charge_all ts k i len ps = Some ps'"
  shows "dom ps' = dom ps"
proof (rule set_eqI)
  fix d show "d \<in> dom ps' \<longleftrightarrow> d \<in> dom ps"
    using charge_all_spec[OF assms, of d] by (cases "ps d") auto
qed

lemma kept_mono: "kept D x y \<Longrightarrow> D \<subseteq> D' \<Longrightarrow> kept D' x y"
  by (cases x) (auto simp: kept_def intro: shrunk_to_None_mono)

lemma others_kept_mono: "others_kept D k a b \<Longrightarrow> D \<subseteq> D' \<Longrightarrow> others_kept D' k a b"
  unfolding others_kept_def using kept_mono by blast

text \<open>\<open>Each\<close> without an error reached every listed device.\<close>

lemma place_loop_each:
  "place_loop each len kb cs targets e st = Some (st', targets', None) \<Longrightarrow> each \<Longrightarrow>
   targets' = targets @ cs"
proof (induction each len kb cs targets e st rule: place_loop.induct)
  case (2 each len kb d misplaced cs targets e st)
  show ?case
  proof (cases "st_pools st d")
    case None
    with 2 show ?thesis by simp
  next
    case (Some p)
    then have served: "st_pools st d \<noteq> None" by simp
    with "2.prems"(1) obtain st1 room where m: "make_room d len kb st = Some (st1, room)"
      by (auto simp: bind_eq_Some_conv)
    with 2 served show ?thesis
      using "2.IH"(2)[OF served m refl] by (cases room) simp_all
  qed
qed simp

text \<open>An error of the placement loop is \<open>NoSpace\<close> or an unknown device.\<close>

definition place_err :: "error \<Rightarrow> bool" where
  "place_err e \<longleftrightarrow> err_kind e \<in> {NoSpace, InvalidInput} \<and> default_err e"

lemma place_err_intros [simp]:
  "place_err (unknown_device d)"
  "place_err (error_new NoSpace msg)"
  "place_err (with_context k v e) = place_err e"
  by (simp_all add: place_err_def unknown_device_def)

lemma place_loop_error:
  "place_loop each len kb cs targets e st = Some (st', targets', e') \<Longrightarrow>
   pred_option place_err e \<Longrightarrow> pred_option place_err e'"
proof (induction each len kb cs targets e st rule: place_loop.induct)
  case (2 each len kb d misplaced cs targets e st)
  show ?case
  proof (cases "st_pools st d")
    case None
    with "2.prems" "2.IH"(1)[OF None refl] show ?thesis
      by (cases each) auto
  next
    case (Some p)
    then have served: "st_pools st d \<noteq> None" by simp
    with "2.prems"(1) obtain st1 room where m: "make_room d len kb st = Some (st1, room)"
      by (auto simp: bind_eq_Some_conv)
    show ?thesis
    proof (cases room)
      case True
      with "2.prems" "2.IH"(2)[OF served m refl _ refl] served m show ?thesis
        by (cases each) auto
    next
      case False
      with "2.prems" "2.IH"(3)[OF served m refl _ refl] served m show ?thesis
        by (cases each) auto
    qed
  qed
qed simp

definition slot_effect ::
    "device list \<Rightarrow> host_mem \<Rightarrow> nat \<Rightarrow> put_slot \<Rightarrow> unit res \<Rightarrow> object \<Rightarrow> object \<Rightarrow> bool" where
  "slot_effect order m i ps r obj obj' \<longleftrightarrow> (case r of
      Inr _ \<Rightarrow> (\<exists>ts. ts \<noteq> [] \<and> obj' = filled i ts (gather m (ps_src ps)) obj \<and>
        set ts \<subseteq> set (candidates order (ss_placement (ps_spec ps))) \<and>
        (is_each (ss_placement (ps_spec ps)) \<longrightarrow> ts = candidates order (ss_placement (ps_spec ps))))
    | Inl e \<Rightarrow> obj' = obj)"

lemma room_made_protect: "room_made D k st st' \<Longrightarrow> bt_get (st_objects st') k = bt_get (st_objects st) k"
  by (simp add: room_made_def shrunk_def)

lemma room_made_others: "room_made D k st st' \<Longrightarrow> others_kept D k (st_objects st) (st_objects st')"
  by (simp add: room_made_def shrunk_def)

lemma mem_put_slot_cases:
  fixes inner m kb i ps st st' r
  defines "len \<equiv> ss_len (ps_spec ps)" and "pl \<equiv> ss_placement (ps_spec ps)"
    and "cs \<equiv> candidates (in_device_order inner) (ss_placement (ps_spec ps))"
  assumes "mem_put_slot inner m kb i ps st = Some (st', r)"
  obtains (stored) st1 ts e where "place_loop (is_each pl) len kb cs [] None st = Some (st1, ts, e)"
      "ts \<noteq> []" "is_each pl \<longrightarrow> e = None"
      "store_slot kb i len (gather m (ps_src ps)) ts st1 = Some st'" "r = Inr ()"
  | (failed) ts e where "place_loop (is_each pl) len kb cs [] None st = Some (st', ts, e)"
      "r = Inl (with_context ''slot'' (CtxNum i)
         (case e of Some e' \<Rightarrow> e' | None \<Rightarrow> error_new NoSpace ''no device available''))"
      "ts = [] \<or> is_each pl"
proof -
  from assms(4) obtain st1 ts e where pl: "place_loop (is_each pl) len kb cs [] None st = Some (st1, ts, e)"
    by (auto simp: mem_put_slot_def Let_def bind_eq_Some_conv len_def pl_def cs_def)
  define ok where "ok \<longleftrightarrow> (if is_each pl then e = None \<and> ts \<noteq> [] else ts \<noteq> [])"
  have eq: "(if ok
      then Option.bind (store_slot kb i len (gather m (ps_src ps)) ts st1) (\<lambda>st2. Some (st2, Inr ()))
      else Some (st1, Inl (with_context ''slot'' (CtxNum i)
        (case e of Some e' \<Rightarrow> e' | None \<Rightarrow> error_new NoSpace ''no device available'')))) = Some (st', r)"
    using assms(4) pl unfolding mem_put_slot_def Let_def len_def pl_def cs_def ok_def
    by (simp split del: if_split)
  show thesis
  proof (cases ok)
    case True
    with eq show thesis
      by (intro stored[OF pl]) (auto simp: bind_eq_Some_conv ok_def split: if_splits)
  next
    case False
    with eq have "st1 = st'" by simp
    with eq False show thesis
      by (intro failed[OF pl[unfolded \<open>st1 = st'\<close>]]) (auto simp: ok_def split: if_splits)
  qed
qed

lemma mem_put_slot_effect:
  assumes "mem_put_slot inner m kb i ps st = Some (st', r)" "mem_inv st"
    and "bt_get (st_objects st) kb = Some obj" "os_slots (ob_spec obj) ! i = ps_spec ps"
    and "iov_total (ps_src ps) = unat (ss_len (ps_spec ps))"
  obtains obj' where "mem_inv st'" "bt_get (st_objects st') kb = Some obj'"
    "slot_effect (in_device_order inner) m i ps r obj obj'"
    "others_kept UNIV kb (st_objects st) (st_objects st')"
    "dom (st_pools st') = dom (st_pools st)"
proof -
  let ?len = "ss_len (ps_spec ps)" and ?pl = "ss_placement (ps_spec ps)"
  let ?cs = "candidates (in_device_order inner) ?pl"
  have spec: "mem_inv st1 \<and> bt_get (st_objects st1) kb = Some obj \<and> placed (is_each ?pl) ?len ?cs ts (st_pools st1) \<and>
      others_kept UNIV kb (st_objects st) (st_objects st1) \<and> dom (st_pools st1) = dom (st_pools st)"
    if "place_loop (is_each ?pl) ?len kb ?cs [] None st = Some (st1, ts, e)" for st1 ts e
  proof -
    from place_loop_inv[OF that assms(2)] have "mem_inv st1" "room_made (fst ` set ?cs) kb st st1"
      "placed (is_each ?pl) ?len ?cs ts (st_pools st1)" by auto
    with assms(3) show ?thesis
      using room_made_protect[of "fst ` set ?cs" kb st st1] pools_shrunk_dom[of "fst ` set ?cs" "st_pools st" "st_pools st1"]
        others_kept_mono[OF room_made_others[of "fst ` set ?cs" kb st st1], of UNIV] by (simp add: room_made_def)
  qed
  from assms(1) show thesis
  proof (cases rule: mem_put_slot_cases)
    case (failed ts e)
    with spec[OF failed(1)] show thesis
      by (intro that[of obj]) (simp_all add: slot_effect_def)
  next
    case (stored st1 ts e)
    note st1 = spec[OF stored(1)]
    from stored(4) st1 obtain pls where
      objs': "st_objects st' = bt_insert (st_objects st1) kb (filled i ts (gather m (ps_src ps)) obj)"
      and ch: "charge_all ts kb (word_of_nat i) ?len (st_pools st1) = Some (st_pools st')"
      by (auto elim: store_slot_cases)
    have dom': "dom (st_pools st') = dom (st_pools st1)"
      using charge_all_dom[OF ch] .
    have each: "is_each ?pl \<longrightarrow> ts = ?cs"
      using place_loop_each[of "is_each ?pl" ?len kb ?cs "[]" None st st1 ts] stored(1,3) by auto
    have "mem_inv st'"
    proof (rule store_slot_inv[OF stored(4)])
      show "mem_inv st1" "bt_get (st_objects st1) kb = Some obj" "fst ` set ts \<subseteq> dom (st_pools st1)"
        using st1 unfolding placed_def by blast+
    qed (use assms(4,5) in simp_all)
    moreover have "others_kept UNIV kb (st_objects st) (st_objects st')"
      unfolding objs' using st1 others_kept_trans[OF _ others_kept_insert[of UNIV], of UNIV kb "st_objects st"] by simp
    moreover have "slot_effect (in_device_order inner) m i ps r obj (filled i ts (gather m (ps_src ps)) obj)"
      using each st1 stored(2,5) by (auto simp: slot_effect_def placed_def)
    ultimately show thesis
      using dom' st1 objs' by (intro that) simp_all
  qed
qed

section \<open>All slots\<close>

lemma object_ok_length: "object_ok D obj \<Longrightarrow> length (ob_slots obj) = length (os_slots (ob_spec obj))"
  by (auto simp: object_ok_def dest: list_all2_lengthD)

text \<open>
  What \<open>put\<close> reports for slot \<open>j\<close> and what it did to it: refused because the slot had
  bytes, not placed, or written with the gathered bytes on one target (on all of them for
  \<open>Each\<close>).
\<close>

definition slot_result ::
    "device list \<Rightarrow> host_mem \<Rightarrow> bool \<Rightarrow> nat \<Rightarrow> put_slot \<Rightarrow> unit res \<Rightarrow> slot \<Rightarrow> slot \<Rightarrow> bool" where
  "slot_result order m writable j ps r s s' \<longleftrightarrow>
     (if \<not> writable
      then s' = s \<and> r = Inl (with_context ''slot'' (CtxNum j) (error_new AlreadyExists ''slot already written''))
      else (case r of
          Inl e \<Rightarrow> s' = s \<and> place_err e
        | Inr _ \<Rightarrow> (\<exists>ts. ts \<noteq> [] \<and>
            sl_replicas s' = sl_replicas s @ new_replicas ts (gather m (ps_src ps)) \<and>
            set ts \<subseteq> set (candidates order (ss_placement (ps_spec ps))) \<and>
            (is_each (ss_placement (ps_spec ps)) \<longrightarrow> ts = candidates order (ss_placement (ps_spec ps))))))"

lemma mem_put_slot_error:
  assumes "mem_put_slot inner m kb i ps st = Some (st', Inl e)"
  shows "place_err e"
  using assms
proof (cases rule: mem_put_slot_cases)
  case (failed ts e')
  with place_loop_error[OF failed(1)] show ?thesis
    by (cases e') simp_all
qed simp

lemma filled_simps [simp]:
  "ob_spec (filled i ts bs obj) = ob_spec obj"
  "length (ob_slots (filled i ts bs obj)) = length (ob_slots obj)"
  "j \<noteq> i \<Longrightarrow> ob_slots (filled i ts bs obj) ! j = ob_slots obj ! j"
  "i < length (ob_slots obj) \<Longrightarrow> sl_replicas (ob_slots (filled i ts bs obj) ! i) =
     sl_replicas (ob_slots obj ! i) @ new_replicas ts bs"
  by (simp_all add: filled_def)

lemma slot_effect_obj:
  assumes "slot_effect order m i ps r obj obj'" "i < length (ob_slots obj)"
    and "\<And>e. r = Inl e \<Longrightarrow> place_err e"
  shows "ob_spec obj' = ob_spec obj" "length (ob_slots obj') = length (ob_slots obj)"
    "j \<noteq> i \<Longrightarrow> ob_slots obj' ! j = ob_slots obj ! j"
    "slot_result order m True i ps r (ob_slots obj ! i) (ob_slots obj' ! i)"
  using assms by (auto simp: slot_effect_def slot_result_def split: sum.splits)

text \<open>The whole loop, from slot \<open>i\<close> on.\<close>

definition put_effect ::
    "device list \<Rightarrow> host_mem \<Rightarrow> key \<Rightarrow> bool list \<Rightarrow> nat \<Rightarrow> put_slot list \<Rightarrow> mem_state \<Rightarrow> object \<Rightarrow>
     mem_state \<Rightarrow> object \<Rightarrow> unit res list \<Rightarrow> bool" where
  "put_effect order m k writable i pss st obj st' obj' rs \<longleftrightarrow>
     mem_inv st' \<and> bt_get (st_objects st') k = Some obj' \<and> ob_spec obj' = ob_spec obj \<and>
     length (ob_slots obj') = length (ob_slots obj) \<and> length rs = length pss \<and>
     others_kept UNIV k (st_objects st) (st_objects st') \<and> dom (st_pools st') = dom (st_pools st) \<and>
     (\<forall>j < i. ob_slots obj' ! j = ob_slots obj ! j) \<and>
     (\<forall>n < length pss. slot_result order m (writable ! (i + n)) (i + n) (pss ! n) (rs ! n)
        (ob_slots obj ! (i + n)) (ob_slots obj' ! (i + n)))"

lemma put_effect_Cons:
  assumes "put_effect order m k writable (Suc i) pss st1 obj1 st' obj' rs"
    and "ob_spec obj1 = ob_spec obj" "length (ob_slots obj1) = length (ob_slots obj)"
    and "\<And>j. j \<noteq> i \<Longrightarrow> ob_slots obj1 ! j = ob_slots obj ! j"
    and "slot_result order m (writable ! i) i ps r (ob_slots obj ! i) (ob_slots obj1 ! i)"
    and "others_kept UNIV k (st_objects st) (st_objects st1)" "dom (st_pools st1) = dom (st_pools st)"
  shows "put_effect order m k writable i (ps # pss) st obj st' obj' (r # rs)"
proof -
  have "others_kept UNIV k (st_objects st) (st_objects st')"
    using assms(1,6) others_kept_trans[of UNIV k _ _ UNIV] unfolding put_effect_def by auto
  moreover have "slot_result order m (writable ! (i + n)) (i + n) ((ps # pss) ! n) ((r # rs) ! n)
        (ob_slots obj ! (i + n)) (ob_slots obj' ! (i + n))" if n: "n < length (ps # pss)" for n
  proof (cases n)
    case 0
    with assms(1,5) show ?thesis by (simp add: put_effect_def)
  next
    case (Suc n')
    with n assms(1) have "slot_result order m (writable ! (Suc i + n')) (Suc i + n') (pss ! n') (rs ! n')
        (ob_slots obj1 ! (Suc i + n')) (ob_slots obj' ! (Suc i + n'))"
      unfolding put_effect_def by auto
    with Suc assms(4)[of "Suc i + n'"] show ?thesis by simp
  qed
  ultimately show ?thesis
    using assms(1-4,7) unfolding put_effect_def by auto
qed

lemma put_loop_effect:
  assumes "put_loop inner m kb writable i pss st = Some (st', rs)" "mem_inv st"
    and "bt_get (st_objects st) kb = Some obj" "drop i (os_slots (ob_spec obj)) = map ps_spec pss"
    and "\<forall>ps \<in> set pss. iov_total (ps_src ps) = unat (ss_len (ps_spec ps))"
  shows "\<exists>obj'. put_effect (in_device_order inner) m kb writable i pss st obj st' obj' rs"
  using assms
proof (induction pss arbitrary: i st obj rs)
  case Nil
  then show ?case by (auto simp: put_effect_def)
next
  case (Cons ps pss)
  from Cons.prems(1) obtain w st1 r rs' where w: "index writable i = Some w"
    and step: "(if \<not> w then Some (st, Inl (with_context ''slot'' (CtxNum i) (error_new AlreadyExists ''slot already written'')))
      else mem_put_slot inner m kb i ps st) = Some (st1, r)"
    and rest: "put_loop inner m kb writable (Suc i) pss st1 = Some (st', rs')" and rs: "rs = r # rs'"
    by (fastforce simp: bind_eq_Some_conv simp del: index_Some split del: if_split)
  from Cons.prems(4) have drop: "drop i (os_slots (ob_spec obj)) = ps_spec ps # map ps_spec pss"
    by simp
  then have "\<not> length (os_slots (ob_spec obj)) \<le> i"
    by auto
  moreover have "drop (Suc i) (os_slots (ob_spec obj)) = tl (drop i (os_slots (ob_spec obj)))"
    by (simp add: drop_Suc tl_drop)
  ultimately have spec: "os_slots (ob_spec obj) ! i = ps_spec ps"
    "drop (Suc i) (os_slots (ob_spec obj)) = map ps_spec pss" "i < length (os_slots (ob_spec obj))"
    using drop by (auto dest: nth_via_drop)
  have "object_ok (dom (st_pools st)) obj"
    using Cons.prems(2,3) by (simp add: mem_inv_def objects_ok_def)
  with spec(3) have i: "i < length (ob_slots obj)"
    by (simp add: object_ok_length)
  have w': "writable ! i = w"
    using w by simp
  have tot: "\<forall>ps \<in> set pss. iov_total (ps_src ps) = unat (ss_len (ps_spec ps))"
    using Cons.prems(5) by simp
  show ?case
  proof (cases w)
    case False
    with step have eq: "st1 = st"
      "r = Inl (with_context ''slot'' (CtxNum i) (error_new AlreadyExists ''slot already written''))"
      by auto
    from Cons.IH[OF rest[unfolded eq] Cons.prems(2,3) spec(2) tot] obtain obj' where
      "put_effect (in_device_order inner) m kb writable (Suc i) pss st obj st' obj' rs'" by blast
    from put_effect_Cons[OF this] have
      "put_effect (in_device_order inner) m kb writable i (ps # pss) st obj st' obj' (r # rs')"
      using False w' eq(2) by (simp add: slot_result_def)
    with rs show ?thesis by blast
  next
    case True
    with step have put: "mem_put_slot inner m kb i ps st = Some (st1, r)" by simp
    obtain obj1 where obj1: "mem_inv st1" "bt_get (st_objects st1) kb = Some obj1"
      "slot_effect (in_device_order inner) m i ps r obj obj1"
      "others_kept UNIV kb (st_objects st) (st_objects st1)" "dom (st_pools st1) = dom (st_pools st)"
      using mem_put_slot_effect[OF put Cons.prems(2,3) spec(1)] Cons.prems(5) by auto
    have perr: "place_err e" if "r = Inl e" for e
      using put that mem_put_slot_error by blast
    note eff = slot_effect_obj[OF obj1(3) i perr]
    from Cons.IH[OF rest obj1(1,2)] spec(2) eff(1) tot obtain obj' where
      "put_effect (in_device_order inner) m kb writable (Suc i) pss st1 obj1 st' obj' rs'" by auto
    from put_effect_Cons[OF this eff(1,2,3) _ obj1(4,5)] eff(4) True w' rs show ?thesis by auto
  qed
qed

section \<open>The operation\<close>

text \<open>The replicas of slot \<open>j\<close> of object \<open>k\<close>; none when there is no such slot.\<close>

definition replicas_at :: "mem_state \<Rightarrow> key \<Rightarrow> nat \<Rightarrow> replica_entry list" where
  "replicas_at st k j = (case bt_get (st_objects st) k of
      None \<Rightarrow> []
    | Some obj \<Rightarrow> if j < length (ob_slots obj) then sl_replicas (ob_slots obj ! j) else [])"

definition fresh_object :: "object_spec \<Rightarrow> object" where
  "fresh_object spec = \<lparr>ob_spec = spec, ob_slots = replicate (length (os_slots spec)) \<lparr>sl_replicas = []\<rparr>\<rparr>"

lemma object_ok_fresh: "length (os_slots spec) \<le> 2 ^ 32 \<Longrightarrow> object_ok D (fresh_object spec)"
  by (auto simp: object_ok_def fresh_object_def list_all2_conv_all_nth slot_ok_def)

lemma obj_owned_fresh [simp]: "obj_owned d (fresh_object spec) = 0"
  by (rule obj_owned_none) (simp add: no_replicas_def fresh_object_def list_all_length)

lemma mem_inv_fresh:
  assumes "mem_inv st" "bt_get (st_objects st) k = None" "length (os_slots spec) \<le> 2 ^ 32"
  shows "mem_inv (st\<lparr>st_objects := bt_insert (st_objects st) k (fresh_object spec)\<rparr>)"
proof -
  let ?objs = "bt_insert (st_objects st) k (fresh_object spec)"
  have ok: "objects_ok (dom (st_pools st)) (st_objects st)"
    using assms(1) by (simp add: mem_inv_def)
  have "owned_bytes d ?objs = owned_bytes d (st_objects st)" for d
    using bt_sum_insert[of "st_objects st" "obj_owned d" k "fresh_object spec"] ok assms(2)
    by (simp add: objects_ok_def)
  moreover have "queued d ?objs q" if "queued d (st_objects st) q" for d q
    unfolding queued_def
  proof (intro allI impI)
    fix k' obj i
    assume *: "bt_get ?objs k' = Some obj" "os_retention (ob_spec obj) = Cache" "i < length (ob_slots obj)"
      "filter (owned_on d) (sl_replicas (ob_slots obj ! i)) \<noteq> []"
    then have "k' \<noteq> k"
      by (auto simp: fresh_object_def split: if_splits)
    with * that show "(k', word_of_nat i) \<in> q"
      unfolding queued_def by simp
  qed
  moreover have "objects_ok (dom (st_pools st)) ?objs"
    using ok object_ok_fresh[OF assms(3)] by (simp add: objects_ok_def)
  ultimately show ?thesis
    using assms(1) by (simp add: mem_inv_def pool_inv_def)
qed

lemma reserve_Inr:
  assumes "reserve k spec st = Inr (st1, writable)" "mem_inv st" "length (os_slots spec) \<le> 2 ^ 32"
  obtains obj where "bt_get (st_objects st1) k = Some obj" "ob_spec obj = spec" "mem_inv st1"
    "writable = map (\<lambda>s. sl_replicas s = []) (ob_slots obj)"
    "\<And>j. j < length (ob_slots obj) \<Longrightarrow> sl_replicas (ob_slots obj ! j) = replicas_at st k j"
    "others_kept {} k (st_objects st) (st_objects st1)" "st_pools st1 = st_pools st"
proof (cases "bt_get (st_objects st) k")
  case None
  with assms(1) have eq: "st1 = st\<lparr>st_objects := bt_insert (st_objects st) k (fresh_object spec)\<rparr>"
    "writable = replicate (length (os_slots spec)) True"
    by (auto simp: reserve_def fresh_object_def Let_def)
  show thesis
  proof (rule that[of "fresh_object spec"])
    show "mem_inv st1"
      unfolding eq using assms(2) None assms(3) by (rule mem_inv_fresh)
    show "writable = map (\<lambda>s. sl_replicas s = []) (ob_slots (fresh_object spec))"
      by (simp add: eq fresh_object_def)
    show "sl_replicas (ob_slots (fresh_object spec) ! j) = replicas_at st k j"
      if "j < length (ob_slots (fresh_object spec))" for j
      using that None by (simp add: replicas_at_def fresh_object_def)
  qed (simp_all add: eq fresh_object_def)
next
  case (Some obj)
  with assms(1) have "ob_spec obj = spec" "st1 = st" "writable = map (\<lambda>s. sl_replicas s = []) (ob_slots obj)"
    by (auto simp: reserve_def split: if_splits)
  with Some assms(2) show thesis
    by (intro that[of obj]) (simp_all add: replicas_at_def)
qed

lemma reserve_Inl:
  assumes "reserve k spec st = Inl e"
  shows "err_kind e = SpecMismatch" "default_err e"
    "\<exists>obj. bt_get (st_objects st) k = Some obj \<and> ob_spec obj \<noteq> spec"
  using assms by (auto simp: reserve_def Let_def split: option.splits if_splits)

text \<open>An accepted \<open>put\<close>, slot by slot.\<close>

definition put_slot_ok :: "device list \<Rightarrow> host_mem \<Rightarrow> put_slot \<Rightarrow> unit res \<Rightarrow> replica_entry list \<Rightarrow> replica_entry list \<Rightarrow> bool" where
  "put_slot_ok order m ps r before after \<longleftrightarrow>
     (if before \<noteq> [] then after = before \<and> (\<exists>e. r = Inl e \<and> err_kind e = AlreadyExists \<and> default_err e)
      else case r of
          Inl e \<Rightarrow> after = [] \<and> place_err e
        | Inr _ \<Rightarrow> (\<exists>ts. ts \<noteq> [] \<and> after = new_replicas ts (gather m (ps_src ps)) \<and>
            set ts \<subseteq> set (candidates order (ss_placement (ps_spec ps))) \<and>
            (is_each (ss_placement (ps_spec ps)) \<longrightarrow> ts = candidates order (ss_placement (ps_spec ps)))))"

lemma mem_put_accepted:
  assumes "mem_put inner m st k op = Some (st', Inr rp)" "mem_inv st" "length (op_slots op) \<le> 2 ^ 32"
  shows "mem_inv st'" "length (rp_slots rp) = length (op_slots op)"
    "\<exists>obj'. bt_get (st_objects st') k = Some obj' \<and> ob_spec obj' = op_put_spec op"
    "j < length (op_slots op) \<Longrightarrow> put_slot_ok (in_device_order inner) m (op_slots op ! j) (rp_slots rp ! j)
       (replicas_at st k j) (replicas_at st' k j)"
    "others_kept UNIV k (st_objects st) (st_objects st')" "dom (st_pools st') = dom (st_pools st)"
    "op_put_validate op = Inr ()"
    "\<And>obj. bt_get (st_objects st) k = Some obj \<Longrightarrow> ob_spec obj = op_put_spec op"
proof -
  from assms(1) obtain st1 writable rs where valid: "op_put_validate op = Inr ()"
    and res: "reserve k (op_put_spec op) st = Inr (st1, writable)"
    and loop: "put_loop inner m k writable 0 (op_slots op) st1 = Some (st', rs)" and rp: "rp = \<lparr>rp_slots = rs\<rparr>"
    by (auto simp: mem_put_def bind_eq_Some_conv split: sum.splits)
  have "length (os_slots (op_put_spec op)) \<le> 2 ^ 32"
    using assms(3) by (simp add: op_put_spec_def)
  with res assms(2) obtain obj where obj: "bt_get (st_objects st1) k = Some obj" "ob_spec obj = op_put_spec op"
    "mem_inv st1" "writable = map (\<lambda>s. sl_replicas s = []) (ob_slots obj)"
    "\<And>j. j < length (ob_slots obj) \<Longrightarrow> sl_replicas (ob_slots obj ! j) = replicas_at st k j"
    "others_kept {} k (st_objects st) (st_objects st1)" "st_pools st1 = st_pools st"
    by (rule reserve_Inr) blast
  have "drop 0 (os_slots (ob_spec obj)) = map ps_spec (op_slots op)"
    using obj(2) by (simp add: op_put_spec_def)
  moreover have "\<forall>ps \<in> set (op_slots op). iov_total (ps_src ps) = unat (ss_len (ps_spec ps))"
    using valid unfolding op_put_validate_Inr by blast
  ultimately obtain obj' where eff: "put_effect (in_device_order inner) m k writable 0 (op_slots op) st1 obj st' obj' rs"
    using put_loop_effect[OF loop obj(3,1)] by blast
  have len: "length (ob_slots obj) = length (op_slots op)"
    using obj(1-3) object_ok_length[of "dom (st_pools st1)" obj]
    by (simp add: mem_inv_def objects_ok_def op_put_spec_def)
  show "mem_inv st'" "length (rp_slots rp) = length (op_slots op)" "dom (st_pools st') = dom (st_pools st)"
    "op_put_validate op = Inr ()"
    "\<exists>obj'. bt_get (st_objects st') k = Some obj' \<and> ob_spec obj' = op_put_spec op"
    using eff rp valid obj(2,7) by (auto simp: put_effect_def)
  show "others_kept UNIV k (st_objects st) (st_objects st')"
    using eff others_kept_trans[OF obj(6), of UNIV] by (simp add: put_effect_def)
  show "put_slot_ok (in_device_order inner) m (op_slots op ! j) (rp_slots rp ! j)
       (replicas_at st k j) (replicas_at st' k j)" if j: "j < length (op_slots op)"
  proof -
    have "slot_result (in_device_order inner) m (writable ! j) j (op_slots op ! j) (rs ! j)
        (ob_slots obj ! j) (ob_slots obj' ! j)"
      using eff j by (simp add: put_effect_def)
    moreover have "replicas_at st' k j = sl_replicas (ob_slots obj' ! j)"
      using eff j len by (simp add: put_effect_def replicas_at_def)
    moreover have "writable ! j \<longleftrightarrow> replicas_at st k j = []"
      using obj(4) obj(5)[of j] j len by simp
    ultimately show ?thesis
      using obj(5)[of j] j len rp
      by (auto simp: slot_result_def put_slot_ok_def split: sum.splits if_splits)
  qed
  show "ob_spec obj0 = op_put_spec op" if "bt_get (st_objects st) k = Some obj0" for obj0
    using res that by (auto simp: reserve_def split: if_splits)
qed

end
