(* ===== verification/Pega_Memory_Ops.thy ===== *)
theory Pega_Memory_Ops
  imports Pega_Memory_Put
begin

text \<open>
  The other operations of the reference backend against its invariant: \<open>publish\<close>, region
  retirement, \<open>remove\<close>, \<open>remove_prefix\<close> and \<open>get\<close>. Except where an argument breaks the
  contract of \<open>register\<close>, none of them can panic on a state that satisfies the invariant.
\<close>

section \<open>Small steps on one object\<close>

text \<open>Replacing an object by one with the same owned replicas in every slot keeps the invariant.\<close>

lemma mem_inv_same_owned:
  assumes "mem_inv st" "bt_get (st_objects st) k = Some obj"
    and "object_ok (dom (st_pools st)) obj'" "os_retention (ob_spec obj') = os_retention (ob_spec obj)"
    and "length (ob_slots obj') = length (ob_slots obj)"
    and "\<And>d i. i < length (ob_slots obj) \<Longrightarrow>
      filter (owned_on d) (sl_replicas (ob_slots obj' ! i)) = filter (owned_on d) (sl_replicas (ob_slots obj ! i))"
  shows "mem_inv (st\<lparr>st_objects := bt_insert (st_objects st) k obj'\<rparr>)"
proof -
  let ?objs = "bt_insert (st_objects st) k obj'"
  have ok: "objects_ok (dom (st_pools st)) (st_objects st)"
    using assms(1) by (simp add: mem_inv_def)
  have "map (slot_owned d) (ob_slots obj') = map (slot_owned d) (ob_slots obj)" for d
    using assms(5,6) by (intro nth_equalityI) (simp_all add: slot_owned_def)
  then have "obj_owned d obj' = obj_owned d obj" for d
    by (simp add: obj_owned_def)
  then have "owned_bytes d ?objs = owned_bytes d (st_objects st)" for d
    using bt_sum_insert[of "st_objects st" "obj_owned d" k obj'] ok assms(2)
    by (simp add: objects_ok_def)
  moreover have "queued d ?objs q" if "queued d (st_objects st) q" for d q
    using that assms(2,4-6) unfolding queued_def by (auto split: if_splits)
  moreover have "objects_ok (dom (st_pools st)) ?objs"
    using ok assms(3) by (simp add: objects_ok_def)
  ultimately show ?thesis
    using assms(1) by (simp add: mem_inv_def pool_inv_def)
qed

section \<open>publish\<close>

definition published :: "op_publish \<Rightarrow> device \<Rightarrow> replica_entry" where
  "published op d = \<lparr>re_device = d, re_tier = External, re_misplaced = False,
     re_data = Ext (map (\<lambda>i. (iov_as_ptr i, iov_len i)) (pub_src op)) (mr_id (iov_region (pub_src op ! 0)))\<rparr>"

definition add_replica :: "nat \<Rightarrow> replica_entry \<Rightarrow> object \<Rightarrow> object" where
  "add_replica i r obj = obj\<lparr>ob_slots := (ob_slots obj)[i :=
     (ob_slots obj ! i)\<lparr>sl_replicas := sl_replicas (ob_slots obj ! i) @ [r]\<rparr>]\<rparr>"

lemma mem_publish_cases:
  assumes "mem_inv st"
  obtains (rejected) e where "mem_publish st k op = Some (st, Inl e)" "default_err e"
      "err_kind e = NotFound \<and> bt_get (st_objects st) k = None \<or> err_kind e = InvalidInput"
  | (accepted) obj d where "good_iovs d (pub_src op)" "bt_get (st_objects st) k = Some obj"
      "unat (pub_slot op) < length (ob_slots obj)"
      "iov_total (pub_src op) = unat (ss_len (os_slots (ob_spec obj) ! unat (pub_slot op)))"
      "mem_publish st k op = Some (st\<lparr>st_objects :=
         bt_insert (st_objects st) k (add_replica (unat (pub_slot op)) (published op d) obj)\<rparr>, Inr ())"
proof (cases "op_publish_validate op")
  case (Inl e)
  then show thesis
    using validate_iovs_Inl[of "pub_src op" None e]
    by (intro rejected[of e]) (simp_all add: mem_publish_def op_publish_validate_def)
next
  case (Inr dt)
  obtain d tot where dt: "dt = (d, tot)" by (cases dt)
  from Inr have good: "good_iovs d (pub_src op)" "unat tot = iov_total (pub_src op)"
    unfolding op_publish_validate_def dt validate_iovs_Inr by auto
  show thesis
  proof (cases "bt_get (st_objects st) k")
    case None
    with Inr dt show thesis
      by (intro rejected[of "not_found k"]) (simp_all add: mem_publish_def not_found_def)
  next
    case (Some obj)
    let ?i = "unat (pub_slot op)"
    from assms Some have len: "length (ob_slots obj) = length (os_slots (ob_spec obj))"
      by (intro object_ok_length[of "dom (st_pools st)"]) (simp add: mem_inv_def objects_ok_def)
    consider (range) "length (os_slots (ob_spec obj)) \<le> ?i"
      | (len) "?i < length (os_slots (ob_spec obj))" "ss_len (os_slots (ob_spec obj) ! ?i) \<noteq> tot"
      | (ok) "?i < length (os_slots (ob_spec obj))" "ss_len (os_slots (ob_spec obj) ! ?i) = tot"
      by linarith
    then show thesis
    proof cases
      case range
      with Inr dt Some show thesis
        by (intro rejected[of "slot_out_of_range ?i"])
           (simp_all add: mem_publish_def slot_out_of_range_def nth_opt_def)
    next
      case len
      with Inr dt Some show thesis
        by (intro rejected, simp add: mem_publish_def Let_def nth_opt_def) simp_all
    next
      case ok
      have "pub_src op \<noteq> []"
        using good(1) by (simp add: good_iovs_def)
      with ok Inr dt Some len good show thesis
        by (intro accepted[of d obj])
           (simp_all add: mem_publish_def nth_opt_def Let_def index_def published_def add_replica_def)
    qed
  qed
qed

lemma add_replica_simps [simp]:
  "ob_spec (add_replica i r obj) = ob_spec obj"
  "length (ob_slots (add_replica i r obj)) = length (ob_slots obj)"
  "j < length (ob_slots obj) \<Longrightarrow> sl_replicas (ob_slots (add_replica i r obj) ! j) =
     sl_replicas (ob_slots obj ! j) @ (if j = i then [r] else [])"
  by (auto simp: add_replica_def)

lemma mem_publish_inv:
  assumes "mem_publish st k op = Some (st', r)" "mem_inv st"
    and "\<forall>i \<in> set (pub_src op). region_fits (iov_region i)"
  shows "mem_inv st'"
  using assms(2)
proof (cases rule: mem_publish_cases[where k = k and op = op])
  case (rejected e)
  with assms(1,2) show ?thesis by simp
next
  case (accepted obj d)
  let ?i = "unat (pub_slot op)"
  have ok: "object_ok (dom (st_pools st)) obj"
    using assms(2) accepted(2) by (simp add: mem_inv_def objects_ok_def)
  have "unat (iov_as_ptr i) + unat (iov_len i) \<le> 2 ^ 64" if "i \<in> set (pub_src op)" for i
    using that assms(3) accepted(1) by (intro iov_fits) (auto simp: good_iovs_def in_bounds_iff)
  moreover have "seg_total (map (\<lambda>i. (iov_as_ptr i, iov_len i)) (pub_src op)) = iov_total (pub_src op)"
    by (simp add: seg_total_def iov_total_def comp_def)
  ultimately have "replica_ok (dom (st_pools st)) (os_slots (ob_spec obj) ! ?i) (published op d)"
    using accepted(4) by (auto simp: replica_ok_def published_def)
  with ok accepted(3) have "object_ok (dom (st_pools st)) (add_replica ?i (published op d) obj)"
    by (auto simp: object_ok_def list_all2_conv_all_nth slot_ok_def split: if_splits)
  then have "mem_inv (st\<lparr>st_objects := bt_insert (st_objects st) k (add_replica ?i (published op d) obj)\<rparr>)"
    by (rule mem_inv_same_owned[OF assms(2) accepted(2)]) (simp_all add: published_def owned_on_def)
  with assms(1) accepted(5) show ?thesis by simp
qed

section \<open>Retiring a region\<close>

lemma retire_slot_owned:
  "filter (owned_on d) (sl_replicas (retire_slot rid s)) = filter (owned_on d) (sl_replicas s)"
proof -
  have "(\<not> external_of rid r \<and> owned_on d r) = owned_on d r" for r
    by (auto simp: external_of_def owned_on_def split: replica_data.splits)
  then show ?thesis by (simp add: retire_slot_def)
qed

definition retire_obj :: "u64 \<Rightarrow> object \<Rightarrow> object" where
  "retire_obj rid obj = obj\<lparr>ob_slots := map (retire_slot rid) (ob_slots obj)\<rparr>"

lemma retire_region_alt:
  "retire_region rid st = st\<lparr>st_objects := bt_map_values (retire_obj rid) (st_objects st)\<rparr>"
  by (simp add: retire_region_def retire_obj_def[abs_def])

lemma retire_obj_ok: "object_ok D obj \<Longrightarrow> object_ok D (retire_obj rid obj)"
  by (auto simp: object_ok_def retire_obj_def list_all2_conv_all_nth slot_ok_def retire_slot_def)

lemma retire_obj_owned [simp]: "obj_owned d (retire_obj rid obj) = obj_owned d obj"
  by (simp add: obj_owned_def retire_obj_def comp_def slot_owned_def[abs_def] retire_slot_owned)

lemma retire_region_inv:
  assumes "mem_inv st"
  shows "mem_inv (retire_region rid st)"
proof -
  have "queued d (bt_map_values (retire_obj rid) (st_objects st)) q" if "queued d (st_objects st) q" for d q
    using that unfolding queued_def by (auto simp: retire_obj_def retire_slot_owned)
  moreover have "objects_ok D (bt_map_values (retire_obj rid) (st_objects st))"
    if "objects_ok D (st_objects st)" for D
    using that by (auto simp: objects_ok_def retire_obj_ok)
  ultimately show ?thesis
    using assms by (simp add: retire_region_alt mem_inv_def pool_inv_def bt_sum_map_values)
qed

lemma replicas_at_retire:
  "replicas_at (retire_region rid st) k j = filter (\<lambda>r. \<not> external_of rid r) (replicas_at st k j)"
  by (simp add: replicas_at_def retire_region_alt retire_obj_def retire_slot_def split: option.splits)

section \<open>remove and remove_prefix\<close>

definition owned_sum :: "device \<Rightarrow> replica_entry list \<Rightarrow> nat" where
  "owned_sum d rs = sum_list (map owned_size (filter (owned_on d) rs))"

lemma owned_sum_simps [simp]:
  "owned_sum d [] = 0"
  "owned_sum d (r # rs) = (if owned_on d r then owned_size r else 0) + owned_sum d rs"
  "owned_sum d (rs @ rs') = owned_sum d rs + owned_sum d rs'"
  by (simp_all add: owned_sum_def)

definition released :: "nat \<Rightarrow> pool \<Rightarrow> pool \<Rightarrow> bool" where
  "released n p p' \<longleftrightarrow> po_capacity p' = po_capacity p \<and> po_fifo p' = po_fifo p \<and>
     unat (po_used p) = unat (po_used p') + n"

lemma release_replicas_spec:
  assumes "\<forall>r \<in> set rs. \<exists>spec. replica_ok D spec r"
    and "\<forall>d p. ps d = Some p \<longrightarrow> owned_sum d rs \<le> unat (po_used p)"
  shows "\<exists>ps'. release_replicas rs ps = Some ps' \<and> dom ps' = dom ps \<and>
    (\<forall>d p p'. ps d = Some p \<longrightarrow> ps' d = Some p' \<longrightarrow> released (owned_sum d rs) p p')"
  using assms
proof (induction rs arbitrary: ps)
  case Nil
  then show ?case by (simp add: released_def)
next
  case (Cons r rs)
  show ?case
  proof (cases "\<exists>b p. re_data r = Owned b \<and> ps (re_device r) = Some p")
    case False
    then have skip: "release_replicas (r # rs) ps = release_replicas rs ps"
      by (auto split: replica_data.splits option.splits)
    from False have "owned_sum d (r # rs) = owned_sum d rs" if "ps d = Some p" for d p
      using that by (auto simp: owned_on_def split: replica_data.splits)
    with Cons False skip show ?thesis
      by (cases "re_data r"; cases "ps (re_device r)") auto
  next
    case True
    then obtain b p where b: "re_data r = Owned b" and p: "ps (re_device r) = Some p" by blast
    have own: "owned_on d r \<longleftrightarrow> d = re_device r" for d
      using b by (auto simp: owned_on_def)
    have size: "owned_size r = length b"
      using b by (simp add: owned_size_def)
    have le: "length b + owned_sum (re_device r) rs \<le> unat (po_used p)"
      using Cons.prems(2) p own size by fastforce
    then have len: "unat (word_of_nat (length b) :: u64) = length b"
      using unat_bound[of "po_used p"] by (intro unat_of_nat_small) simp
    then obtain us where us: "checked_sub (po_used p) (word_of_nat (length b)) = Some us"
      using le by (metis add_leD1 checked_sub_None linorder_not_less not_None_eq)
    then have uus: "unat (po_used p) = length b + unat us"
      using len by (simp add: checked_sub_Some)
    define ps1 where "ps1 = ps(re_device r \<mapsto> p\<lparr>po_used := us\<rparr>)"
    have step: "release_replicas (r # rs) ps = release_replicas rs ps1"
      using b p us by (simp add: ps1_def)
    have "owned_sum d rs \<le> unat (po_used q)" if "ps1 d = Some q" for d q
    proof (cases "d = re_device r")
      case True
      with that le uus show ?thesis by (auto simp: ps1_def)
    next
      case False
      with that have "ps d = Some q" by (simp add: ps1_def)
      with Cons.prems(2) have "owned_sum d (r # rs) \<le> unat (po_used q)" by blast
      then show ?thesis by simp
    qed
    then obtain ps' where ps': "release_replicas rs ps1 = Some ps'" "dom ps' = dom ps1"
      "\<forall>d p p'. ps1 d = Some p \<longrightarrow> ps' d = Some p' \<longrightarrow> released (owned_sum d rs) p p'"
      using Cons.IH[of ps1] Cons.prems(1) by auto
    have "released (owned_sum d (r # rs)) q q'" if "ps d = Some q" "ps' d = Some q'" for d q q'
    proof (cases "d = re_device r")
      case True
      with that p ps'(3) have "released (owned_sum d rs) (p\<lparr>po_used := us\<rparr>) q'" "q = p"
        by (auto simp: ps1_def)
      with True own size uus show ?thesis by (simp add: released_def)
    next
      case False
      with that ps'(3) own show ?thesis by (auto simp: ps1_def)
    qed
    with step ps' p show ?thesis by (auto simp: ps1_def)
  qed
qed

lemma owned_sum_object: "owned_sum d (concat (map sl_replicas (ob_slots obj))) = obj_owned d obj"
proof -
  have "owned_sum d (concat (map sl_replicas ss)) = sum_list (map (slot_owned d) ss)" for ss
    by (induction ss) (simp_all add: slot_owned_def owned_sum_def)
  then show ?thesis by (simp add: obj_owned_def)
qed

lemma object_ok_replicas:
  assumes "object_ok D obj" "r \<in> set (concat (map sl_replicas (ob_slots obj)))"
  shows "\<exists>spec. replica_ok D spec r"
proof -
  from assms(2) obtain s where "s \<in> set (ob_slots obj)" "r \<in> set (sl_replicas s)"
    by auto
  then obtain i where "i < length (ob_slots obj)" "r \<in> set (sl_replicas (ob_slots obj ! i))"
    by (metis in_set_conv_nth)
  with object_ok_nth[OF assms(1), of i] show ?thesis
    unfolding slot_ok_def by blast
qed

text \<open>Removing one key, present or not: it is gone, its bytes are returned, nothing else changes.\<close>

definition drained :: "pool option \<Rightarrow> pool option \<Rightarrow> bool" where
  "drained x y \<longleftrightarrow> (case x of
      None \<Rightarrow> y = None
    | Some p \<Rightarrow> (\<exists>p'. y = Some p' \<and> po_capacity p' = po_capacity p \<and> po_fifo p' = po_fifo p \<and>
        unat (po_used p') \<le> unat (po_used p)))"

definition removed :: "key set \<Rightarrow> mem_state \<Rightarrow> mem_state \<Rightarrow> bool" where
  "removed K st st' \<longleftrightarrow>
     (\<forall>k. bt_get (st_objects st') k = (if k \<in> K then None else bt_get (st_objects st) k)) \<and>
     (\<forall>d. drained (st_pools st d) (st_pools st' d))"

lemma drained_refl: "drained x x"
  by (auto simp: drained_def split: option.splits)

lemma drained_trans: "drained x y \<Longrightarrow> drained y z \<Longrightarrow> drained x z"
  by (cases x) (auto simp: drained_def)

lemma removed_refl: "(\<And>k. k \<in> K \<Longrightarrow> bt_get (st_objects st) k = None) \<Longrightarrow> removed K st st"
  by (auto simp: removed_def drained_refl)

lemma removed_trans: "removed K a b \<Longrightarrow> removed K' b c \<Longrightarrow> removed (K \<union> K') a c"
  unfolding removed_def using drained_trans by (metis Un_iff)

lemma dom_eq_Some: "dom f = dom g \<Longrightarrow> f x = Some y \<Longrightarrow> \<exists>z. g x = Some z"
  by (metis domD domI)

lemma dom_eq_None: "dom f = dom g \<Longrightarrow> f x = None \<Longrightarrow> g x = None"
  by (metis domIff)

lemma remove_one_spec:
  assumes "mem_inv st"
  shows "\<exists>st'. remove_one st k = Some st' \<and> mem_inv st' \<and> removed {k} st st'"
proof (cases "bt_get (st_objects st) k")
  case None
  with assms removed_refl[of "{k}" st] show ?thesis by (simp add: remove_one_def)
next
  case (Some obj)
  let ?rs = "concat (map sl_replicas (ob_slots obj))"
  let ?objs = "bt_remove (st_objects st) k"
  have ok: "objects_ok (dom (st_pools st)) (st_objects st)"
    using assms by (simp add: mem_inv_def)
  with Some have obj: "object_ok (dom (st_pools st)) obj"
    by (simp add: objects_ok_def)
  have sum: "owned_bytes d ?objs + obj_owned d obj = owned_bytes d (st_objects st)" for d
    using bt_sum_remove[of "obj_owned d" "st_objects st" k] Some by simp
  have get: "bt_get ?objs = (bt_get (st_objects st))(k := None)"
    using ok by (simp add: objects_ok_def bt_get_remove)
  have "\<forall>d p. st_pools st d = Some p \<longrightarrow> owned_sum d ?rs \<le> unat (po_used p)"
    using assms bt_sum_get_le[OF Some] by (simp add: mem_inv_def pool_inv_def owned_sum_object)
  then obtain ps' where ps': "release_replicas ?rs (st_pools st) = Some ps'" "dom ps' = dom (st_pools st)"
    "\<forall>d p p'. st_pools st d = Some p \<longrightarrow> ps' d = Some p' \<longrightarrow> released (obj_owned d obj) p p'"
    using release_replicas_spec[of ?rs "dom (st_pools st)" "st_pools st"] object_ok_replicas[OF obj]
    by (auto simp: owned_sum_object)
  let ?st = "st\<lparr>st_objects := ?objs, st_pools := ps'\<rparr>"
  have drained: "drained (st_pools st d) (ps' d)" for d
  proof (cases "st_pools st d")
    case None
    then have "ps' d = None" by (rule dom_eq_None[OF ps'(2)[symmetric]])
    with None show ?thesis by (simp add: drained_def)
  next
    case (Some p)
    then obtain p' where p': "ps' d = Some p'"
      using dom_eq_Some[OF ps'(2)[symmetric]] by blast
    with Some ps'(3) have "released (obj_owned d obj) p p'" by blast
    with Some p' show ?thesis by (simp add: drained_def released_def)
  qed
  have "pool_inv d ?objs p'" if p': "ps' d = Some p'" for d p'
  proof -
    from p' obtain p where p: "st_pools st d = Some p"
      using dom_eq_Some[OF ps'(2)] by blast
    with ps'(3) p' have rel: "released (obj_owned d obj) p p'" by blast
    have "queued d ?objs (set (po_fifo p'))"
      using mem_inv_pool[OF assms p] rel get unfolding pool_inv_def queued_def released_def by auto
    with rel mem_inv_pool[OF assms p] sum[of d] show ?thesis
      by (simp add: pool_inv_def released_def)
  qed
  moreover have "objects_ok (dom ps') ?objs"
    using ok get ps'(2) by (simp add: objects_ok_def)
  ultimately have "mem_inv ?st"
    by (simp add: mem_inv_def)
  moreover have "removed {k} st ?st"
    using get drained by (simp add: removed_def)
  moreover have "remove_one st k = Some ?st"
    using Some ps'(1) by (simp add: remove_one_def release_object_def)
  ultimately show ?thesis by blast
qed

lemma remove_loop_spec:
  "mem_inv st \<Longrightarrow> \<exists>st'. remove_loop ks st = Some st' \<and> mem_inv st' \<and> removed (set ks) st st'"
proof (induction ks arbitrary: st)
  case Nil
  then show ?case using removed_refl[of "{}" st] by simp
next
  case (Cons k ks)
  obtain st1 where st1: "remove_one st k = Some st1" "mem_inv st1" "removed {k} st st1"
    using remove_one_spec[OF Cons.prems] by blast
  obtain st2 where st2: "remove_loop ks st1 = Some st2" "mem_inv st2" "removed (set ks) st1 st2"
    using Cons.IH[OF st1(2)] by blast
  with st1 removed_trans[OF st1(3) st2(3)] show ?case by simp
qed

lemma removed_bytes:
  assumes "mem_inv st'" "st_pools st' d = Some p'"
  shows "unat (po_used p') = owned_bytes d (st_objects st')"
  using mem_inv_pool[OF assms] by (simp add: pool_inv_def)

section \<open>get\<close>

text \<open>The bytes a replica holds: its own, or those its segments point at now.\<close>

definition content :: "host_mem \<Rightarrow> replica_data \<Rightarrow> bytes" where
  "content m rd = (case rd of Owned b \<Rightarrow> b | Ext segs _ \<Rightarrow> map m (seg_span segs))"

lemma read_segs_spec:
  assumes "unat skip + unat want \<le> seg_total segs" "\<forall>x \<in> set segs. unat (fst x) + unat (snd x) \<le> 2 ^ 64"
  shows "read_segs m segs skip want = Some (take (unat want) (drop (unat skip) (map m (seg_span segs))))"
  using assms
proof (induction segs arbitrary: skip want)
  case Nil
  then show ?case by simp
next
  case (Cons x segs)
  obtain a l where x: "x = (a, l)" by (cases x)
  show ?case
  proof (cases "want = 0")
    case True
    then show ?thesis by (simp add: x)
  next
    case want: False
    show ?thesis
    proof (cases "skip \<ge> l")
      case True
      then have skip: "unat (skip - l) = unat skip - unat l" "unat l \<le> unat skip"
        by (simp_all add: unat_sub word_le_nat_alt)
      with Cons.prems x have "read_segs m segs (skip - l) want =
          Some (take (unat want) (drop (unat (skip - l)) (map m (seg_span segs))))"
        by (intro Cons.IH) auto
      with True want x skip show ?thesis by simp
    next
      case False
      then have lt: "unat skip < unat l" by (simp add: word_le_nat_alt)
      define n where "n = min (l - skip) want"
      have "unat (l - skip) = unat l - unat skip"
        using False by (simp add: unat_sub)
      then have n: "unat n = min (unat l - unat skip) (unat want)"
        by (simp add: n_def min_def word_le_nat_alt)
      then have wn: "unat (want - n) = unat want - unat n"
        by (simp add: unat_sub word_le_nat_alt)
      have fits: "unat a + unat l \<le> 2 ^ 64" using Cons.prems(2) x by simp
      then have "checked_add a skip = Some (a + skip)"
        using lt by (simp add: checked_add_def)
      moreover have "read_segs m segs 0 (want - n) =
          Some (take (unat (want - n)) (drop (unat (0 :: u64)) (map m (seg_span segs))))"
        using Cons.prems x n wn lt by (intro Cons.IH) auto
      moreover have "read_bytes m (a + skip) (unat n) = take (unat n) (drop (unat skip) (map m (span a (unat l))))"
      proof -
        have "span (a + word_of_nat (unat skip)) (unat n) = take (unat n) (drop (unat skip) (span a (unat l)))"
          using n lt by (intro span_slice[symmetric]) simp
        then show ?thesis
          by (simp add: read_bytes_span drop_map take_map)
      qed
      ultimately have "read_segs m (x # segs) skip want = Some
          (take (unat n) (drop (unat skip) (map m (span a (unat l)))) @
           take (unat want - unat n) (map m (seg_span segs)))"
        using False want x wn by (simp add: Let_def n_def)
      moreover have "take (unat want) (drop (unat skip) (map m (span a (unat l)) @ map m (seg_span segs))) =
          take (unat n) (drop (unat skip) (map m (span a (unat l)))) @
          take (unat want - unat n) (map m (seg_span segs))"
        using n lt by (cases "unat want \<le> unat l - unat skip") (simp_all add: min_def)
      ultimately show ?thesis by (simp add: x)
    qed
  qed
qed

lemma length_content:
  "replica_ok D spec r \<Longrightarrow> length (content m (re_data r)) = unat (ss_len spec)"
  by (auto simp: replica_ok_def content_def split: replica_data.splits)

lemma data_len_ok: "replica_ok D spec r \<Longrightarrow> data_len (re_data r) = Some (ss_len spec)"
proof (cases "re_data r")
  case (Owned b)
  assume "replica_ok D spec r"
  with Owned show ?thesis by (simp add: data_len_def replica_ok_def)
next
  case (Ext segs rid)
  assume "replica_ok D spec r"
  with Ext show ?thesis
    by (simp add: data_len_def replica_ok_def checked_sum_Some seg_total_def comp_def)
qed

lemma data_read_ok:
  assumes "replica_ok D spec r" "unat off + unat len \<le> unat (ss_len spec)"
  shows "data_read m (re_data r) off len = Some (take (unat len) (drop (unat off) (content m (re_data r))))"
proof (cases "re_data r")
  case (Owned b)
  with assms have "unat off + unat len \<le> length b" by (simp add: replica_ok_def)
  moreover have "checked_add off len = Some (off + len)" "unat (off + len) = unat off + unat len"
    using assms(2) unat_bound[of "ss_len spec"] by (simp_all add: checked_add_def unat_add_fits)
  ultimately show ?thesis
    using Owned by (simp add: data_read_def content_def)
next
  case (Ext segs rid)
  with assms show ?thesis
    by (simp add: data_read_def content_def replica_ok_def read_segs_spec)
qed

end
