(* ===== verification/Pega_Memory_Get.thy ===== *)
theory Pega_Memory_Get
  imports Pega_Memory_Ops
begin

text \<open>
  \<open>get\<close> of the reference backend: the exact outcome on every branch, the bytes it delivers,
  and the round trip with \<open>put\<close>.
\<close>

lemma nearest_None: "nearest inner d s = None \<longleftrightarrow> sl_replicas s = []"
  by (simp add: nearest_def)

lemma nearest_in: "nearest inner d s = Some r \<Longrightarrow> r \<in> set (sl_replicas s)"
  unfolding nearest_def by (rule min_by_key_in)

definition slot_at :: "mem_state \<Rightarrow> key \<Rightarrow> nat \<Rightarrow> slot" where
  "slot_at st k j = \<lparr>sl_replicas = replicas_at st k j\<rparr>"

lemma slot_at_get:
  "bt_get (st_objects st) k = Some obj \<Longrightarrow> j < length (ob_slots obj) \<Longrightarrow> slot_at st k j = ob_slots obj ! j"
  by (simp add: slot_at_def replicas_at_def)

text \<open>
  The branches of \<open>get\<close>, in the order the code takes them. The last one needs the
  invariant: the replica has the declared length, so neither the assertion nor a slice can
  fail.
\<close>

lemma mem_get_cases:
  assumes "mem_inv st"
  obtains (invalid) e where "op_get_validate op = Inl e" "mem_get inner m st k op = Some (m, Inl e)"
  | (not_found) d n where "op_get_validate op = Inr (d, n)" "bt_get (st_objects st) k = None"
      "mem_get inner m st k op = Some (m, Inl (not_found k))"
  | (no_slot) d n obj where "op_get_validate op = Inr (d, n)" "bt_get (st_objects st) k = Some obj"
      "length (ob_slots obj) \<le> unat (og_slot op)"
      "mem_get inner m st k op = Some (m, Inl (slot_out_of_range (unat (og_slot op))))"
  | (range) d n obj e where "op_get_validate op = Inr (d, n)" "bt_get (st_objects st) k = Some obj"
      "unat (og_slot op) < length (ob_slots obj)"
      "unat (ss_len (os_slots (ob_spec obj) ! unat (og_slot op))) < unat (og_src_offset op) + unat n"
      "mem_get inner m st k op = Some (m, Inl e)" "err_kind e = InvalidInput" "default_err e"
  | (evicted) d n obj e where "op_get_validate op = Inr (d, n)" "bt_get (st_objects st) k = Some obj"
      "unat (og_slot op) < length (ob_slots obj)"
      "unat (og_src_offset op) + unat n \<le> unat (ss_len (os_slots (ob_spec obj) ! unat (og_slot op)))"
      "replicas_at st k (unat (og_slot op)) = []"
      "mem_get inner m st k op = Some (m, Inl e)" "err_kind e = Evicted" "default_err e"
  | (served) d n obj r m' where "op_get_validate op = Inr (d, n)" "bt_get (st_objects st) k = Some obj"
      "unat (og_slot op) < length (ob_slots obj)"
      "unat (og_src_offset op) + unat n \<le> unat (ss_len (os_slots (ob_spec obj) ! unat (og_slot op)))"
      "nearest inner d (slot_at st k (unat (og_slot op))) = Some r"
      "replica_ok (dom (st_pools st)) (os_slots (ob_spec obj) ! unat (og_slot op)) r"
      "scatter m (take (unat n) (drop (unat (og_src_offset op)) (content m (re_data r)))) 0 (og_dst op) = Some m'"
      "mem_get inner m st k op = Some (m', Inr \<lparr>rg_from = mem_location inner (re_device r) (re_tier r)\<rparr>)"
proof (cases "op_get_validate op")
  case (Inl e)
  then show thesis
    by (intro invalid) (simp_all add: mem_get_def)
next
  case (Inr dn)
  then obtain d n where valid: "op_get_validate op = Inr (d, n)" by (cases dn) auto
  then have tot: "iov_total (og_dst op) = unat n"
    unfolding op_get_validate_def validate_iovs_Inr by simp
  let ?i = "unat (og_slot op)"
  show thesis
  proof (cases "bt_get (st_objects st) k")
    case None
    with valid show thesis by (intro not_found) (simp_all add: mem_get_def)
  next
    case (Some obj)
    have ok: "object_ok (dom (st_pools st)) obj"
      using assms Some by (simp add: mem_inv_def objects_ok_def)
    note len = object_ok_length[OF ok]
    let ?len = "ss_len (os_slots (ob_spec obj) ! ?i)"
    have sum: "(case checked_add (og_src_offset op) n of None \<Rightarrow> True | Some e \<Rightarrow> \<not> e \<le> ?len) \<longleftrightarrow>
        unat ?len < unat (og_src_offset op) + unat n"
      using unat_bound[of ?len]
      by (auto simp: checked_add_def word_le_nat_alt unat_add_fits split: option.splits)
    show thesis
    proof (cases "?i < length (ob_slots obj)")
      case False
      with valid Some len show thesis
        by (intro no_slot[OF valid Some]) (simp_all add: mem_get_def nth_opt_def)
    next
      case i: True
      show thesis
      proof (cases "unat ?len < unat (og_src_offset op) + unat n")
        case True
        with valid Some len i sum show thesis
          by (intro range[OF valid Some i True], simp add: mem_get_def nth_opt_def Let_def) simp_all
      next
        case False
        then have le: "unat (og_src_offset op) + unat n \<le> unat ?len"
          by linarith
        show thesis
        proof (cases "nearest inner d (ob_slots obj ! ?i)")
          case None
          then have none: "replicas_at st k ?i = []"
            using Some i by (simp add: nearest_None replicas_at_def)
          show thesis
            using None valid Some len i sum False
            by (intro evicted[OF valid Some i le none],
                simp add: mem_get_def nth_opt_def Let_def index_def) simp_all
        next
          case (Some r)
          note obj = \<open>bt_get (st_objects st) k = Some obj\<close>
          have r: "replica_ok (dom (st_pools st)) (os_slots (ob_spec obj) ! ?i) r"
            using nearest_in[OF Some] object_ok_nth(2)[OF ok i] by (simp add: slot_ok_def)
          let ?bs = "take (unat n) (drop (unat (og_src_offset op)) (content m (re_data r)))"
          have "length ?bs = unat n"
            using length_content[OF r, of m] le by simp
          then have "scatter m ?bs 0 (og_dst op) \<noteq> None"
            using tot by (simp add: scatter_panic_iff)
          then obtain m' where m': "scatter m ?bs 0 (og_dst op) = Some m'" by blast
          have "data_read m (re_data r) (og_src_offset op) n = Some ?bs"
            using r le by (rule data_read_ok)
          with valid obj i False Some r m' len sum show thesis
            by (intro served[OF valid obj i le _ r m'])
               (simp_all add: slot_at_get mem_get_def nth_opt_def Let_def index_def data_len_ok)
        qed
      qed
    qed
  qed
qed

end
