(* ===== verification/Pega_Memory_Total.thy ===== *)
theory Pega_Memory_Total
  imports Pega_Memory_Put
begin

text \<open>
  When \<open>put\<close> of the reference backend returns, and when it keeps the pools within their
  capacity. Two conditions on the request matter: a key that is written again after a
  removal must not have fewer slots than a queue entry left behind by its former life
  (\<open>no_stale\<close>), and the devices of an \<open>Each\<close> placement must be distinct. Neither is checked by
  the code.
\<close>

section \<open>Demand\<close>

definition slot_demand :: "put_slot \<Rightarrow> nat" where
  "slot_demand ps = unat (ss_len (ps_spec ps)) *
     (case ss_placement (ps_spec ps) of Each ds \<Rightarrow> max 1 (length ds) | _ \<Rightarrow> 1)"

definition put_demand :: "op_put \<Rightarrow> nat" where
  "put_demand op = sum_list (map slot_demand (op_slots op))"

definition no_stale :: "mem_state \<Rightarrow> key \<Rightarrow> nat \<Rightarrow> bool" where
  "no_stale st k n \<longleftrightarrow> (bt_get (st_objects st) k = None \<longrightarrow>
     (\<forall>d p i. st_pools st d = Some p \<longrightarrow> (k, i) \<in> set (po_fifo p) \<longrightarrow> unat i < n))"

definition each_distinct :: "op_put \<Rightarrow> bool" where
  "each_distinct op \<longleftrightarrow> (\<forall>ps \<in> set (op_slots op). \<forall>ds. ss_placement (ps_spec ps) = Each ds \<longrightarrow> distinct ds)"

lemma placed_demand:
  assumes "placed (is_each (ss_placement (ps_spec ps))) len (candidates order (ss_placement (ps_spec ps))) ts pls"
  shows "length ts * unat (ss_len (ps_spec ps)) \<le> slot_demand ps"
proof -
  have "length ts \<le> (case ss_placement (ps_spec ps) of Each ds \<Rightarrow> max 1 (length ds) | _ \<Rightarrow> 1)"
    using assms by (auto simp: placed_def is_each_def candidates_def split: placement.splits)
  then show ?thesis
    by (simp add: slot_demand_def mult.commute)
qed

lemma demand_ge: "unat (ss_len (ps_spec ps)) \<le> slot_demand ps"
  by (auto simp: slot_demand_def split: placement.splits)

lemma headroom_mono: "headroom n st \<Longrightarrow> n' \<le> n \<Longrightarrow> headroom n' st"
  unfolding headroom_def by (meson add_le_cancel_left le_less_trans)

section \<open>Storing\<close>

lemma within_capacity_room_made:
  assumes "room_made D k st st'" "within_capacity st"
  shows "within_capacity st'"
  unfolding within_capacity_def
proof (intro allI impI)
  fix d p' cap
  assume p': "st_pools st' d = Some p'" "po_capacity p' = Some cap"
  from assms(1) have sh: "pools_shrunk D (st_pools st) (st_pools st')"
    by (simp add: room_made_def)
  with p' obtain p where "st_pools st d = Some p" "pool_shrunk p p'"
    using pools_shrunkD[OF sh, of d] by (cases "st_pools st d") auto
  with assms(2) p' show "po_used p' \<le> cap"
    unfolding within_capacity_def pool_shrunk_def word_le_nat_alt by fastforce
qed

lemma store_slot_pool:
  assumes "store_slot kb i len bs ts st = Some st'" "st_pools st' d = Some p'"
  obtains p where "st_pools st d = Some p" "charged (tcount d ts) len (kb, word_of_nat i) p p'"
  using assms
proof (cases rule: store_slot_cases)
  case (1 obj ps)
  with assms(2) have "ps d = Some p'" by simp
  with charge_all_spec[OF 1(3), of d] show ?thesis
    using that by (cases "st_pools st d") auto
qed

lemma store_slot_fifo_ok:
  assumes "store_slot kb i len bs ts st = Some st'" "fifo_ok st" "mem_inv st"
  shows "fifo_ok st'"
  unfolding fifo_ok_def
proof (intro allI impI)
  fix d p'
  assume "st_pools st' d = Some p'"
  with assms(1) obtain p where p: "st_pools st d = Some p" "charged (tcount d ts) len (kb, word_of_nat i) p p'"
    by (rule store_slot_pool)
  with assms(2) have old: "in_range (st_objects st) (set (po_fifo p))"
    by (simp add: fifo_ok_def)
  from assms(1) obtain obj where obj: "bt_get (st_objects st) kb = Some obj" "i < length (ob_slots obj)"
    "st_objects st' = bt_insert (st_objects st) kb (filled i ts bs obj)"
    by (auto elim: store_slot_cases)
  have "object_ok (dom (st_pools st)) obj"
    using assms(3) obj(1) by (simp add: mem_inv_def objects_ok_def)
  then have "i < 2 ^ 32"
    using obj(2) by (simp add: object_ok_def)
  then have "unat (word_of_nat i :: u32) = i"
    by (rule unat_of_nat32)
  with obj old p(2) show "in_range (st_objects st') (set (po_fifo p'))"
    unfolding in_range_def charged_def by (auto split: if_splits)
qed

lemma store_slot_headroom:
  assumes "store_slot kb i len bs ts st = Some st'" "headroom (length ts * unat len + n) st"
  shows "headroom n st'"
  unfolding headroom_def
proof (intro allI impI)
  fix d p'
  assume "st_pools st' d = Some p'"
  with assms(1) obtain p where p: "st_pools st d = Some p" "charged (tcount d ts) len (kb, word_of_nat i) p p'"
    by (rule store_slot_pool)
  have "tcount d ts * unat len \<le> length ts * unat len"
    by (simp add: tcount_le_length)
  moreover have "unat (po_used p) + (length ts * unat len + n) < 2 ^ 64"
    using assms(2) p(1) unfolding headroom_def by blast
  ultimately show "unat (po_used p') + n < 2 ^ 64"
    using p(2) unfolding charged_def by linarith
qed

lemma store_slot_capacity:
  assumes "store_slot kb i len bs ts st = Some st'" "within_capacity st"
    and "distinct (map fst ts)" "\<forall>t \<in> set ts. fits (fst t) len (st_pools st)"
  shows "within_capacity st'"
  unfolding within_capacity_def
proof (intro allI impI)
  fix d p' cap
  assume p': "st_pools st' d = Some p'" "po_capacity p' = Some cap"
  from assms(1) p'(1) obtain p where p: "st_pools st d = Some p" "charged (tcount d ts) len (kb, word_of_nat i) p p'"
    by (rule store_slot_pool)
  have cap: "po_capacity p = Some cap"
    using p(2) p'(2) by (simp add: charged_def)
  show "po_used p' \<le> cap"
  proof (cases "d \<in> fst ` set ts")
    case True
    with assms(4) p(1) cap have "unat (po_used p) + unat len \<le> unat cap"
      unfolding fits_def by blast
    moreover have "tcount d ts = 1"
      using True tcount_pos[of d ts] tcount_distinct[OF assms(3), of d] by simp
    ultimately show ?thesis
      using p(2) by (simp add: charged_def word_le_nat_alt)
  next
    case False
    then have "tcount d ts = 0"
      using tcount_pos[of d ts] by simp
    with p(2) assms(2) p(1) cap show ?thesis
      unfolding charged_def within_capacity_def word_le_nat_alt by fastforce
  qed
qed

section \<open>One slot\<close>

lemma candidates_distinct:
  "(\<And>ds. pl = Each ds \<Longrightarrow> distinct ds) \<Longrightarrow> placed (is_each pl) len (candidates order pl) ts pls \<Longrightarrow>
   distinct (map fst ts)"
proof (cases "\<exists>ds. pl = Each ds")
  case True
  assume "\<And>ds. pl = Each ds \<Longrightarrow> distinct ds" "placed (is_each pl) len (candidates order pl) ts pls"
  with True show ?thesis
    by (auto simp: placed_def candidates_def comp_def)
next
  case False
  assume "placed (is_each pl) len (candidates order pl) ts pls"
  with False have "length ts \<le> 1"
    by (cases pl) (simp_all add: placed_def is_each_def)
  then show ?thesis
    by (cases ts) auto
qed

lemma mem_put_slot_keeps:
  assumes "mem_put_slot inner m kb i ps st = Some (st', r)" "mem_inv st"
  shows "fifo_ok st \<Longrightarrow> fifo_ok st'"
    and "headroom (slot_demand ps + n) st \<Longrightarrow> headroom n st'"
    and "within_capacity st \<Longrightarrow> (\<And>ds. ss_placement (ps_spec ps) = Each ds \<Longrightarrow> distinct ds) \<Longrightarrow> within_capacity st'"
proof -
  from assms(1) have "(fifo_ok st \<longrightarrow> fifo_ok st') \<and> (headroom (slot_demand ps + n) st \<longrightarrow> headroom n st') \<and>
    (within_capacity st \<longrightarrow> (\<forall>ds. ss_placement (ps_spec ps) = Each ds \<longrightarrow> distinct ds) \<longrightarrow> within_capacity st')"
  proof (cases rule: mem_put_slot_cases)
    case (failed ts e)
    then have made: "room_made (fst ` set (candidates (in_device_order inner) (ss_placement (ps_spec ps)))) kb st st'"
      using place_loop_inv[OF failed(1) assms(2)] by blast
    show ?thesis
      using room_made_fifo_ok[OF made] headroom_room_made[OF made] within_capacity_room_made[OF made]
        headroom_mono[of "slot_demand ps + n" st' n] by auto
  next
    case (stored st1 ts e)
    from place_loop_inv[OF stored(1) assms(2)] have inv1: "mem_inv st1"
      and made: "room_made (fst ` set (candidates (in_device_order inner) (ss_placement (ps_spec ps)))) kb st st1"
      and ts: "placed (is_each (ss_placement (ps_spec ps))) (ss_len (ps_spec ps))
        (candidates (in_device_order inner) (ss_placement (ps_spec ps))) ts (st_pools st1)" by auto
    have "fifo_ok st'" if "fifo_ok st"
      using store_slot_fifo_ok[OF stored(4) room_made_fifo_ok[OF made that] inv1] .
    moreover have "headroom n st'" if "headroom (slot_demand ps + n) st"
      using headroom_mono[OF headroom_room_made[OF made that]] placed_demand[OF ts]
      by (intro store_slot_headroom[OF stored(4)]) simp
    moreover have "within_capacity st'"
      if "within_capacity st" "\<forall>ds. ss_placement (ps_spec ps) = Each ds \<longrightarrow> distinct ds"
      using within_capacity_room_made[OF made that(1)] candidates_distinct[OF _ ts] that(2) ts
      by (intro store_slot_capacity[OF stored(4)]) (simp_all add: placed_def)
    ultimately show ?thesis by blast
  qed
  then show "fifo_ok st \<Longrightarrow> fifo_ok st'"
    and "headroom (slot_demand ps + n) st \<Longrightarrow> headroom n st'"
    and "within_capacity st \<Longrightarrow> (\<And>ds. ss_placement (ps_spec ps) = Each ds \<Longrightarrow> distinct ds) \<Longrightarrow> within_capacity st'"
    by blast+
qed

lemma mem_put_slot_total:
  assumes "mem_inv st" "fifo_ok st" "headroom (slot_demand ps) st"
    and "bt_get (st_objects st) kb = Some obj" "i < length (ob_slots obj)"
  shows "\<exists>st' r. mem_put_slot inner m kb i ps st = Some (st', r)"
proof -
  let ?len = "ss_len (ps_spec ps)" and ?pl = "ss_placement (ps_spec ps)"
  let ?cs = "candidates (in_device_order inner) ?pl"
  have "headroom (unat ?len) st"
    using assms(3) demand_ge by (rule headroom_mono)
  then obtain st1 ts e where pl: "place_loop (is_each ?pl) ?len kb ?cs [] None st = Some (st1, ts, e)"
    using place_loop_total[OF assms(1,2), of ?len "is_each ?pl" kb ?cs "[]" None] by auto
  from place_loop_inv[OF pl assms(1)] have made: "room_made (fst ` set ?cs) kb st st1"
    and ts: "placed (is_each ?pl) ?len ?cs ts (st_pools st1)" by auto
  have obj: "bt_get (st_objects st1) kb = Some obj"
    using room_made_protect[OF made] assms(4) by simp
  have "headroom (length ts * unat ?len) st1"
    using headroom_mono[OF headroom_room_made[OF made assms(3)] placed_demand[OF ts]] .
  then obtain pls where "charge_all ts kb (word_of_nat i) ?len (st_pools st1) = Some pls"
    using charge_all_total[of ts "st_pools st1" ?len kb "word_of_nat i"] ts
    by (auto simp: placed_def headroom_def)
  then have "\<exists>st2. store_slot kb i ?len (gather m (ps_src ps)) ts st1 = Some st2"
    using obj assms(5) by (simp add: store_slot_def index_def)
  with pl show ?thesis
    by (auto simp: mem_put_slot_def Let_def)
qed

section \<open>All slots\<close>

lemma put_loop_keeps:
  assumes "put_loop inner m kb writable i pss st = Some (st', rs)" "mem_inv st"
    and "bt_get (st_objects st) kb = Some obj" "drop i (os_slots (ob_spec obj)) = map ps_spec pss"
    and "\<forall>ps \<in> set pss. iov_total (ps_src ps) = unat (ss_len (ps_spec ps))"
    and "I st"
    and "\<And>i ps st st' r. ps \<in> set pss \<Longrightarrow> mem_put_slot inner m kb i ps st = Some (st', r) \<Longrightarrow>
      mem_inv st \<Longrightarrow> I st \<Longrightarrow> I st'"
  shows "I st'"
  using assms
proof (induction pss arbitrary: i st obj rs)
  case (Cons ps pss)
  from Cons.prems(1) obtain w st1 r rs' where
    step: "(if \<not> w then Some (st, Inl (with_context ''slot'' (CtxNum i) (error_new AlreadyExists ''slot already written'')))
      else mem_put_slot inner m kb i ps st) = Some (st1, r)"
    and rest: "put_loop inner m kb writable (Suc i) pss st1 = Some (st', rs')"
    by (fastforce simp: bind_eq_Some_conv simp del: index_Some split del: if_split)
  from Cons.prems(4) have drop: "drop i (os_slots (ob_spec obj)) = ps_spec ps # map ps_spec pss"
    by simp
  have tl: "drop (Suc i) (os_slots (ob_spec obj)) = tl (drop i (os_slots (ob_spec obj)))"
    by (simp add: drop_Suc tl_drop)
  have spec: "drop (Suc i) (os_slots (ob_spec obj)) = map ps_spec pss" "os_slots (ob_spec obj) ! i = ps_spec ps"
    using drop unfolding tl by (auto dest: nth_via_drop)
  have tot: "\<forall>ps \<in> set pss. iov_total (ps_src ps) = unat (ss_len (ps_spec ps))"
    using Cons.prems(5) by simp
  have keep: "I st2" if "ps' \<in> set pss" "mem_put_slot inner m kb j ps' st1 = Some (st2, r')" "mem_inv st1" "I st1"
    for j ps' st1 st2 r'
    using that by (intro Cons.prems(7)[of ps' j st1 st2 r']) simp_all
  show ?case
  proof (cases w)
    case False
    with step have "st1 = st" by simp
    from Cons.IH[OF rest[unfolded this] Cons.prems(2,3) spec(1) tot Cons.prems(6) keep] show ?thesis .
  next
    case True
    with step have put: "mem_put_slot inner m kb i ps st = Some (st1, r)" by simp
    have len: "iov_total (ps_src ps) = unat (ss_len (ps_spec ps))"
      using Cons.prems(5) by simp
    obtain obj1 where "mem_inv st1" "bt_get (st_objects st1) kb = Some obj1"
      "slot_effect (in_device_order inner) m i ps r obj obj1"
      using mem_put_slot_effect[OF put Cons.prems(2,3) spec(2) len] by metis
    moreover from this(3) have "ob_spec obj1 = ob_spec obj"
      by (auto simp: slot_effect_def split: sum.splits)
    moreover have "I st1"
      using Cons.prems(7)[OF _ put Cons.prems(2,6)] by simp
    ultimately show ?thesis
      using Cons.IH[OF rest, of obj1, OF _ _ _ tot _ keep] spec(1) by simp
  qed
qed simp

lemma put_loop_total:
  assumes "mem_inv st" "fifo_ok st" "headroom (sum_list (map slot_demand pss)) st"
    and "bt_get (st_objects st) kb = Some obj" "drop i (os_slots (ob_spec obj)) = map ps_spec pss"
    and "\<forall>ps \<in> set pss. iov_total (ps_src ps) = unat (ss_len (ps_spec ps))"
    and "i + length pss \<le> length writable"
  shows "\<exists>st' rs. put_loop inner m kb writable i pss st = Some (st', rs)"
  using assms
proof (induction pss arbitrary: i st obj)
  case (Cons ps pss)
  from Cons.prems(5) have drop: "drop i (os_slots (ob_spec obj)) = ps_spec ps # map ps_spec pss"
    by simp
  have tl: "drop (Suc i) (os_slots (ob_spec obj)) = tl (drop i (os_slots (ob_spec obj)))"
    by (simp add: drop_Suc tl_drop)
  have spec: "drop (Suc i) (os_slots (ob_spec obj)) = map ps_spec pss" "os_slots (ob_spec obj) ! i = ps_spec ps"
    using drop unfolding tl by (auto dest: nth_via_drop)
  have "i < length (os_slots (ob_spec obj))"
    using drop by (metis drop_all linorder_not_less list.distinct(1))
  then have i: "i < length (ob_slots obj)"
    using Cons.prems(1,4) object_ok_length[of "dom (st_pools st)" obj] by (simp add: mem_inv_def objects_ok_def)
  have tot: "\<forall>ps \<in> set pss. iov_total (ps_src ps) = unat (ss_len (ps_spec ps))"
    and len: "iov_total (ps_src ps) = unat (ss_len (ps_spec ps))"
    and w: "Suc i + length pss \<le> length writable" "i < length writable"
    and room: "headroom (slot_demand ps + sum_list (map slot_demand pss)) st"
    using Cons.prems(3,6,7) by simp_all
  show ?case
  proof (cases "writable ! i")
    case False
    obtain st' rs where "put_loop inner m kb writable (Suc i) pss st = Some (st', rs)"
      using Cons.IH[OF Cons.prems(1,2) headroom_mono[OF room] Cons.prems(4) spec(1) tot w(1)] by auto
    with False w(2) show ?thesis by (simp add: index_def)
  next
    case True
    obtain st1 r where put: "mem_put_slot inner m kb i ps st = Some (st1, r)"
      using mem_put_slot_total[OF Cons.prems(1,2) headroom_mono[OF room, of "slot_demand ps"] Cons.prems(4) i,
          of inner m] by auto
    obtain obj1 where obj1: "mem_inv st1" "bt_get (st_objects st1) kb = Some obj1"
      "slot_effect (in_device_order inner) m i ps r obj obj1"
      using mem_put_slot_effect[OF put Cons.prems(1,4) spec(2) len] by metis
    then have "ob_spec obj1 = ob_spec obj"
      by (auto simp: slot_effect_def split: sum.splits)
    then obtain st' rs where "put_loop inner m kb writable (Suc i) pss st1 = Some (st', rs)"
      using Cons.IH[OF obj1(1) _ _ obj1(2) _ tot w(1)] spec(1)
        mem_put_slot_keeps(1)[OF put Cons.prems(1,2)] mem_put_slot_keeps(2)[OF put Cons.prems(1) room] by auto
    with True w(2) put show ?thesis by (simp add: index_def)
  qed
qed simp

section \<open>The operation\<close>

lemma fifo_ok_reserve:
  assumes "fifo_ok st" "no_stale st k (length (os_slots spec))" "reserve k spec st = Inr (st1, writable)"
  shows "fifo_ok st1"
proof (cases "bt_get (st_objects st) k")
  case None
  then have st1: "st1 = st\<lparr>st_objects := bt_insert (st_objects st) k (fresh_object spec)\<rparr>"
    using assms(3) by (auto simp: reserve_def fresh_object_def Let_def)
  show ?thesis
    using assms(1,2) None
    by (auto simp: fifo_ok_def in_range_def st1 no_stale_def fresh_object_def split: if_splits)
next
  case (Some obj)
  with assms(1,3) show ?thesis
    by (auto simp: reserve_def split: if_splits)
qed

lemma mem_put_total:
  assumes "mem_inv st" "fifo_ok st" "no_stale st k (length (op_slots op))" "headroom (put_demand op) st"
    and "length (op_slots op) \<le> 2 ^ 32"
  shows "\<exists>st' r. mem_put inner m st k op = Some (st', r) \<and> fifo_ok st'"
proof -
  consider (invalid) e where "op_put_validate op = Inl e"
    | (mismatch) e where "op_put_validate op = Inr ()" "reserve k (op_put_spec op) st = Inl e"
    | (ok) st1 writable where "op_put_validate op = Inr ()" "reserve k (op_put_spec op) st = Inr (st1, writable)"
    by (cases "op_put_validate op"; cases "reserve k (op_put_spec op) st") auto
  then show ?thesis
  proof cases
    case ok
    have n: "length (os_slots (op_put_spec op)) = length (op_slots op)"
      by (simp add: op_put_spec_def)
    with ok(2) assms(1,5) obtain obj where obj: "bt_get (st_objects st1) k = Some obj" "ob_spec obj = op_put_spec op"
      "mem_inv st1" "writable = map (\<lambda>s. sl_replicas s = []) (ob_slots obj)" "st_pools st1 = st_pools st"
      by (metis reserve_Inr)
    have fifo1: "fifo_ok st1"
      using fifo_ok_reserve[OF assms(2) _ ok(2)] assms(3) n by simp
    have len: "length writable = length (op_slots op)"
      using obj(1-4) object_ok_length[of "dom (st_pools st1)" obj] n
      by (simp add: mem_inv_def objects_ok_def)
    have drop: "drop 0 (os_slots (ob_spec obj)) = map ps_spec (op_slots op)"
      using obj(2) by (simp add: op_put_spec_def)
    have tot: "\<forall>ps \<in> set (op_slots op). iov_total (ps_src ps) = unat (ss_len (ps_spec ps))"
      using ok(1) unfolding op_put_validate_Inr by blast
    have "headroom (put_demand op) st1"
      using assms(4) obj(5) by (simp add: headroom_def)
    then obtain st' rs where loop: "put_loop inner m k writable 0 (op_slots op) st1 = Some (st', rs)"
      using put_loop_total[OF obj(3) fifo1 _ obj(1) drop tot, of writable inner m] len
      by (auto simp: put_demand_def)
    have "fifo_ok st'"
      using put_loop_keeps[OF loop obj(3,1) drop tot, of fifo_ok] fifo1 mem_put_slot_keeps(1) by blast
    with ok loop show ?thesis
      by (simp add: mem_put_def)
  qed (use assms(2) in \<open>simp_all add: mem_put_def\<close>)
qed

lemma mem_put_capacity:
  assumes "mem_put inner m st k op = Some (st', r)" "mem_inv st" "length (op_slots op) \<le> 2 ^ 32"
    and "within_capacity st" "each_distinct op"
  shows "within_capacity st'"
proof (cases r)
  case (Inl e)
  with assms(1,4) show ?thesis
    by (auto simp: mem_put_def bind_eq_Some_conv split: sum.splits)
next
  case (Inr rp)
  with assms(1) obtain st1 writable rs where valid: "op_put_validate op = Inr ()"
    and res: "reserve k (op_put_spec op) st = Inr (st1, writable)"
    and loop: "put_loop inner m k writable 0 (op_slots op) st1 = Some (st', rs)"
    by (auto simp: mem_put_def bind_eq_Some_conv split: sum.splits)
  with assms(2,3) obtain obj where obj: "bt_get (st_objects st1) k = Some obj" "ob_spec obj = op_put_spec op"
    "mem_inv st1" "st_pools st1 = st_pools st"
    by (metis reserve_Inr length_map object_spec.select_convs(2) op_put_spec_def)
  have drop: "drop 0 (os_slots (ob_spec obj)) = map ps_spec (op_slots op)"
    using obj(2) by (simp add: op_put_spec_def)
  have tot: "\<forall>ps \<in> set (op_slots op). iov_total (ps_src ps) = unat (ss_len (ps_spec ps))"
    using valid unfolding op_put_validate_Inr by blast
  have "within_capacity st1"
    using assms(4) obj(4) by (simp add: within_capacity_def)
  then show ?thesis
    using put_loop_keeps[OF loop obj(3,1) drop tot, of within_capacity] mem_put_slot_keeps(3) assms(5)
    unfolding each_distinct_def by blast
qed

end
