(* ===== verification/Pega_Memory_Spec.thy ===== *)
theory Pega_Memory_Spec
  imports Pega_Memory_Get Pega_Memory_Total
begin

text \<open>
  The reference backend as a state machine: every sequence of operations from a freshly
  built backend, with the arguments the operations were given. The file header of
  \<open>services/memory.rs\<close> calls the backend an oracle; the abstract machine at the end is the
  part of that promise that concerns bytes: a lossy write-once store.
\<close>

section \<open>Steps\<close>

text \<open>
  A label is an operation with its arguments and, for \<open>put\<close>, the process memory it read from.
  \<open>get\<close> and \<open>stat\<close> do not change the state of the backend. Requests have at most \<open>2 ^ 32\<close>
  slots (the queue stores \<open>i as u32\<close>), and published regions obey the contract of
  \<open>register\<close>.
\<close>

datatype label =
    LPut host_mem key op_put "rp_put res"
  | LPublish key op_publish
  | LRetire u64
  | LRemove "key list"
  | LRemovePrefix bytes

inductive mem_step :: "mem_inner \<Rightarrow> mem_state \<Rightarrow> label \<Rightarrow> mem_state \<Rightarrow> bool" for inner where
  step_put: "mem_put inner m st k op = Some (st', r) \<Longrightarrow> length (op_slots op) \<le> 2 ^ 32 \<Longrightarrow>
    mem_step inner st (LPut m k op r) st'"
| step_publish: "mem_publish st k op = Some (st', r) \<Longrightarrow> \<forall>i \<in> set (pub_src op). region_fits (iov_region i) \<Longrightarrow>
    mem_step inner st (LPublish k op) st'"
| step_retire: "mem_step inner st (LRetire rid) (retire_region rid st)"
| step_remove: "mem_remove st ks = Some (st', r) \<Longrightarrow> mem_step inner st (LRemove ks) st'"
| step_remove_prefix: "mem_remove_prefix st p = Some (st', r) \<Longrightarrow> mem_step inner st (LRemovePrefix p) st'"

inductive_cases mem_step_putE: "mem_step inner st (LPut m k op r) st'"

inductive mem_run :: "mem_inner \<Rightarrow> mem_state \<Rightarrow> label list \<Rightarrow> mem_state \<Rightarrow> bool" for inner where
  run_nil: "mem_run inner st [] st"
| run_snoc: "mem_run inner st ls st' \<Longrightarrow> mem_step inner st' l st'' \<Longrightarrow> mem_run inner st (ls @ [l]) st''"

section \<open>The initial state\<close>

definition pool_fresh :: "pool \<Rightarrow> bool" where
  "pool_fresh p \<longleftrightarrow> po_used p = 0 \<and> po_fifo p = []"

lemma collect_pools_fresh:
  "\<forall>p \<in> ran ps. pool_fresh p \<Longrightarrow> \<forall>p \<in> ran (collect_pools ps ds). pool_fresh p"
proof (induction ps ds rule: collect_pools.induct)
  case (2 ps d cap ds)
  have "\<forall>p \<in> ran (ps(d \<mapsto> \<lparr>po_capacity = cap, po_used = 0, po_fifo = []\<rparr>)). pool_fresh p"
  proof
    fix p
    assume "p \<in> ran (ps(d \<mapsto> \<lparr>po_capacity = cap, po_used = 0, po_fifo = []\<rparr>))"
    then obtain d' where "(ps(d \<mapsto> \<lparr>po_capacity = cap, po_used = 0, po_fifo = []\<rparr>)) d' = Some p"
      by (auto simp: ran_def)
    with "2.prems" show "pool_fresh p"
      by (cases "d' = d") (auto simp: pool_fresh_def intro: ranI)
  qed
  from "2.IH"[OF this] show ?case unfolding collect_pools.simps .
qed simp

lemma build_fresh:
  "st_objects (snd (build b)) = []"
  "st_pools (snd (build b)) d = Some p \<Longrightarrow> po_used p = 0 \<and> po_fifo p = []"
proof -
  show "st_objects (snd (build b)) = []"
    by (simp add: build_def Let_def)
  show "po_used p = 0 \<and> po_fifo p = []" if "st_pools (snd (build b)) d = Some p"
    using that collect_pools_fresh[of Map.empty] ranI[of "st_pools (snd (build b))" d p]
    unfolding pool_fresh_def by (simp add: build_def Let_def)
qed

lemma build_inv: "mem_inv (snd (build b))"
proof -
  have "pool_inv d (st_objects (snd (build b))) p" if "st_pools (snd (build b)) d = Some p" for d p
    using build_fresh(2)[OF that] by (simp add: build_fresh(1) pool_inv_def queued_def)
  then show ?thesis
    by (simp add: mem_inv_def objects_ok_def build_fresh(1))
qed

lemma build_capacity: "within_capacity (snd (build b))"
  unfolding within_capacity_def by (auto dest: build_fresh(2))

lemma build_fifo_ok: "fifo_ok (snd (build b))"
  unfolding fifo_ok_def in_range_def by (simp add: build_fresh(1))

section \<open>Reachable states\<close>

lemma mem_put_inv:
  assumes "mem_put inner m st k op = Some (st', r)" "length (op_slots op) \<le> 2 ^ 32" "mem_inv st"
  shows "mem_inv st'"
proof (cases r)
  case (Inl e)
  with assms(1,3) show ?thesis
    by (auto simp: mem_put_def bind_eq_Some_conv split: sum.splits)
next
  case (Inr rp)
  with mem_put_accepted(1)[of inner m st k op st' rp] assms show ?thesis by simp
qed

lemma mem_remove_spec:
  assumes "mem_inv st"
  shows "\<exists>st'. mem_remove st ks = Some (st', Inr ()) \<and> mem_inv st' \<and> removed (set ks) st st'"
  using remove_loop_spec[OF assms, of ks] by (auto simp: mem_remove_def)

lemma mem_remove_prefix_spec:
  assumes "mem_inv st"
  shows "\<exists>st'. mem_remove_prefix st p = Some (st', Inr (word_of_nat (length (filter (\<lambda>k. starts_with k p) (map fst (st_objects st)))))) \<and>
    mem_inv st' \<and> removed {k. starts_with k p} st st'"
proof -
  have inv: "bt_inv (st_objects st)"
    using assms by (simp add: mem_inv_def objects_ok_def)
  note scan = bt_scan_prefix_filter[OF inv, of p]
  obtain st' where st': "remove_loop (bt_scan_prefix (st_objects st) p) st = Some st'" "mem_inv st'"
    "removed (set (bt_scan_prefix (st_objects st) p)) st st'"
    using remove_loop_spec[OF assms] by blast
  have dom: "bt_get (st_objects st) k = None" if "k \<notin> fst ` set (st_objects st)" for k
    using that by (simp add: bt_get_map_of map_of_eq_None_iff)
  have "removed {k. starts_with k p} st st'"
    using st'(3) dom unfolding removed_def scan by auto
  with st' scan show ?thesis
    by (simp add: mem_remove_prefix_def Let_def)
qed

lemma mem_remove_Some:
  assumes "mem_remove st ks = Some (st', r)" "mem_inv st"
  shows "mem_inv st'" "removed (set ks) st st'" "r = Inr ()"
  using mem_remove_spec[OF assms(2), of ks] assms(1) by simp_all

lemma mem_remove_prefix_Some:
  assumes "mem_remove_prefix st p = Some (st', r)" "mem_inv st"
  shows "mem_inv st'" "removed {k. starts_with k p} st st'"
    "r = Inr (word_of_nat (length (filter (\<lambda>k. starts_with k p) (map fst (st_objects st)))))"
  using mem_remove_prefix_spec[OF assms(2), of p] assms(1) by simp_all

lemma mem_step_inv:
  assumes "mem_step inner st l st'" "mem_inv st"
  shows "mem_inv st'"
  using assms(1)
proof cases
  case (step_put m k op r)
  show ?thesis using mem_put_inv[OF step_put(2,3) assms(2)] .
next
  case (step_publish k op r)
  show ?thesis using mem_publish_inv[OF step_publish(2) assms(2) step_publish(3)] .
next
  case (step_retire rid)
  then show ?thesis using assms(2) retire_region_inv by simp
next
  case (step_remove ks r)
  show ?thesis using mem_remove_Some(1)[OF step_remove(2) assms(2)] .
next
  case (step_remove_prefix p r)
  show ?thesis using mem_remove_prefix_Some(1)[OF step_remove_prefix(2) assms(2)] .
qed

lemma mem_run_inv: "mem_run inner st ls st' \<Longrightarrow> mem_inv st \<Longrightarrow> mem_inv st'"
proof (induction rule: mem_run.induct)
  case (run_snoc st ls st' l st'')
  then show ?case using mem_step_inv[of inner st' l st''] by simp
qed

text \<open>Every \<open>Each\<close> placement of the run lists distinct devices.\<close>

definition label_distinct :: "label \<Rightarrow> bool" where
  "label_distinct l = (case l of LPut m k op r \<Rightarrow> each_distinct op | _ \<Rightarrow> True)"

lemma within_capacity_drained:
  assumes "within_capacity st" "\<And>d. drained (st_pools st d) (st_pools st' d)"
  shows "within_capacity st'"
  unfolding within_capacity_def
proof (intro allI impI)
  fix d p' cap
  assume p': "st_pools st' d = Some p'" "po_capacity p' = Some cap"
  from assms(2)[of d] p'(1) obtain p where "st_pools st d = Some p" "po_capacity p' = po_capacity p"
    "unat (po_used p') \<le> unat (po_used p)"
    by (cases "st_pools st d") (auto simp: drained_def)
  with assms(1) p'(2) show "po_used p' \<le> cap"
    unfolding within_capacity_def word_le_nat_alt by fastforce
qed

lemma mem_step_capacity:
  assumes "mem_step inner st l st'" "mem_inv st" "within_capacity st" "label_distinct l"
  shows "within_capacity st'"
  using assms(1)
proof cases
  case (step_put m k op r)
  with assms(4) have "each_distinct op" by (simp add: label_distinct_def)
  from mem_put_capacity[OF step_put(2) assms(2) step_put(3) assms(3) this] show ?thesis .
next
  case (step_publish k op r)
  from assms(2) have "st_pools st' = st_pools st"
    by (cases rule: mem_publish_cases[where k = k and op = op]) (use step_publish(2) in auto)
  with assms(3) show ?thesis by (simp add: within_capacity_def)
next
  case (step_retire rid)
  with assms(3) show ?thesis by (simp add: within_capacity_def retire_region_def)
next
  case (step_remove ks r)
  from mem_remove_Some(2)[OF step_remove(2) assms(2)] show ?thesis
    using within_capacity_drained[OF assms(3)] by (simp add: removed_def)
next
  case (step_remove_prefix p r)
  from mem_remove_prefix_Some(2)[OF step_remove_prefix(2) assms(2)] show ?thesis
    using within_capacity_drained[OF assms(3)] by (simp add: removed_def)
qed

lemma mem_run_capacity:
  "mem_run inner st ls st' \<Longrightarrow> mem_inv st \<Longrightarrow> within_capacity st \<Longrightarrow> \<forall>l \<in> set ls. label_distinct l \<Longrightarrow> within_capacity st'"
proof (induction rule: mem_run.induct)
  case (run_snoc st ls st' l st'')
  then show ?case
    using mem_step_capacity[of inner st' l st''] mem_run_inv[of inner st ls st'] by simp
qed simp

section \<open>A lossy write-once store\<close>

text \<open>
  The abstract machine: each slot of each key holds at most one byte string. A \<open>put\<close> may
  lose bytes of other keys and may write slots of its own key, but only slots that hold
  nothing; every other operation can only lose bytes.
\<close>

type_synonym abs_store = "key \<times> nat \<Rightarrow> bytes option"

definition loses :: "abs_store \<Rightarrow> abs_store \<Rightarrow> bool" where
  "loses a a' \<longleftrightarrow> (\<forall>x. a' x = None \<or> a' x = a x)"

inductive abs_step :: "abs_store \<Rightarrow> label \<Rightarrow> abs_store \<Rightarrow> bool" where
  abs_put: "loses a a1 \<Longrightarrow> (\<forall>j. a1 (k, j) = a (k, j)) \<Longrightarrow>
    (\<forall>x. a' x = a1 x \<or> (\<exists>j < length (op_slots op). x = (k, j) \<and> a x = None \<and>
       a' x = Some (gather m (ps_src (op_slots op ! j))))) \<Longrightarrow>
    abs_step a (LPut m k op r) a'"
| abs_lose: "loses a a' \<Longrightarrow> (\<forall>m k op r. l \<noteq> LPut m k op r) \<Longrightarrow> abs_step a l a'"

text \<open>The bytes a slot holds in the backend: those of its first owned replica.\<close>

definition owned_bytes_of :: "replica_entry list \<Rightarrow> bytes list" where
  "owned_bytes_of rs = concat (map (\<lambda>r. case re_data r of Owned b \<Rightarrow> [b] | Ext _ _ \<Rightarrow> []) rs)"

definition mem_abs :: "mem_state \<Rightarrow> abs_store" where
  "mem_abs st = (\<lambda>(k, j). case owned_bytes_of (replicas_at st k j) of [] \<Rightarrow> None | b # _ \<Rightarrow> Some b)"

text \<open>All owned replicas of a slot hold the same bytes.\<close>

definition agree :: "mem_state \<Rightarrow> bool" where
  "agree st \<longleftrightarrow> (\<forall>k j b b'. b \<in> set (owned_bytes_of (replicas_at st k j)) \<longrightarrow>
     b' \<in> set (owned_bytes_of (replicas_at st k j)) \<longrightarrow> b = b')"

lemma owned_bytes_of_simps [simp]:
  "owned_bytes_of [] = []"
  "owned_bytes_of (rs @ rs') = owned_bytes_of rs @ owned_bytes_of rs'"
  "owned_bytes_of (new_replicas ts bs) = map (\<lambda>_. bs) ts"
  by (simp_all add: owned_bytes_of_def new_replicas_def comp_def case_prod_unfold)

lemma owned_bytes_of_filter: "set (owned_bytes_of (filter P rs)) \<subseteq> set (owned_bytes_of rs)"
  by (auto simp: owned_bytes_of_def)

lemma mem_abs_Some:
  assumes "agree st"
  shows "mem_abs st (k, j) = Some b \<longleftrightarrow> b \<in> set (owned_bytes_of (replicas_at st k j))"
proof
  assume "mem_abs st (k, j) = Some b"
  then show "b \<in> set (owned_bytes_of (replicas_at st k j))"
    by (auto simp: mem_abs_def split: list.splits)
next
  assume b: "b \<in> set (owned_bytes_of (replicas_at st k j))"
  then obtain b' bs where eq: "owned_bytes_of (replicas_at st k j) = b' # bs"
    by (cases "owned_bytes_of (replicas_at st k j)") auto
  then have "b' = b"
    using assms b unfolding agree_def by (metis list.set_intros(1))
  with eq show "mem_abs st (k, j) = Some b" by (simp add: mem_abs_def)
qed

lemma mem_abs_None: "mem_abs st (k, j) = None \<longleftrightarrow> owned_bytes_of (replicas_at st k j) = []"
  by (auto simp: mem_abs_def split: list.splits)

text \<open>Dropping replicas of a slot (or the slot) can only lose its bytes.\<close>

lemma kept_replicas:
  assumes "kept D (bt_get (st_objects st) k) (bt_get (st_objects st') k)"
  shows "\<exists>P. replicas_at st' k j = filter P (replicas_at st k j) \<and>
    (\<forall>r. (\<forall>d. \<not> owned_on d r) \<longrightarrow> P r)"
proof (cases "bt_get (st_objects st') k")
  case None
  show ?thesis
  proof (cases "bt_get (st_objects st) k")
    case (Some obj)
    with assms None have "shrunk_to D obj None"
      by (simp add: kept_def split: if_splits)
    then obtain obj' where obj': "obj_shrunk D obj obj'" "no_replicas obj'"
      by (auto simp: shrunk_to_def)
    have "\<exists>d. owned_on d r" if "r \<in> set (replicas_at st k j)" for r
    proof -
      from that Some have j: "j < length (ob_slots obj)" "r \<in> set (sl_replicas (ob_slots obj ! j))"
        by (auto simp: replicas_at_def split: if_splits)
      then obtain P where P: "sl_replicas (ob_slots obj' ! j) = filter P (sl_replicas (ob_slots obj ! j))"
        "\<forall>r. (\<forall>d \<in> D. \<not> owned_on d r) \<longrightarrow> P r"
        using obj_shrunk_nth(3)[OF obj'(1)] unfolding slot_shrunk_def by blast
      have "sl_replicas (ob_slots obj' ! j) = []"
        using obj'(2) j obj_shrunk_nth(1)[OF obj'(1)] by (simp add: no_replicas_def list_all_length)
      with P(1) j(2) have "\<not> P r" by (metis filter_empty_conv)
      with P(2) show ?thesis by blast
    qed
    with None show ?thesis
      by (intro exI[of _ "\<lambda>r. \<forall>d. \<not> owned_on d r"])
         (auto simp: replicas_at_def[of st'] filter_empty_conv)
  qed (use None in \<open>auto simp: replicas_at_def\<close>)
next
  case (Some obj')
  with assms obtain obj where obj: "bt_get (st_objects st) k = Some obj" "obj_shrunk D obj obj'"
    by (auto elim: kept_Some)
  show ?thesis
  proof (cases "j < length (ob_slots obj)")
    case True
    with obj_shrunk_nth(3)[OF obj(2) True] obtain P where
      "sl_replicas (ob_slots obj' ! j) = filter P (sl_replicas (ob_slots obj ! j))"
      "\<forall>r. (\<forall>d \<in> D. \<not> owned_on d r) \<longrightarrow> P r"
      unfolding slot_shrunk_def by blast
    with True obj Some obj_shrunk_nth(1)[OF obj(2)] show ?thesis
      by (intro exI[of _ P]) (simp add: replicas_at_def)
  next
    case False
    with obj Some obj_shrunk_nth(1)[OF obj(2)] show ?thesis
      by (intro exI[of _ "\<lambda>_. True"]) (simp add: replicas_at_def)
  qed
qed

lemma filtered_abs:
  assumes "agree st" "\<And>k j. \<exists>P. replicas_at st' k j = filter P (replicas_at st k j) \<or>
      replicas_at st' k j = replicas_at st k j @ filter P rs" "owned_bytes_of rs = []"
  shows "loses (mem_abs st) (mem_abs st')" "agree st'"
proof -
  have "owned_bytes_of (filter P rs) = []" for P
    using owned_bytes_of_filter[of P rs] assms(3) by simp
  then have sub: "set (owned_bytes_of (replicas_at st' k j)) \<subseteq> set (owned_bytes_of (replicas_at st k j))" for k j
    using assms(2)[of k j] owned_bytes_of_filter by fastforce
  then show agree: "agree st'"
    using assms(1) unfolding agree_def by blast
  show "loses (mem_abs st) (mem_abs st')"
    unfolding loses_def
  proof
    fix x :: "key \<times> nat"
    obtain k j where x: "x = (k, j)" by (cases x)
    show "mem_abs st' x = None \<or> mem_abs st' x = mem_abs st x"
    proof (cases "mem_abs st' x")
      case (Some b)
      with x agree sub[of k j] have "mem_abs st x = Some b"
        using mem_abs_Some[OF assms(1)] mem_abs_Some[OF agree] by blast
      with Some show ?thesis by simp
    qed simp
  qed
qed

lemma removed_replicas:
  "removed K st st' \<Longrightarrow> replicas_at st' k j = (if k \<in> K then [] else replicas_at st k j)"
  by (simp add: removed_def replicas_at_def)

lemma replicas_at_insert:
  "replicas_at (st\<lparr>st_objects := bt_insert (st_objects st) k obj\<rparr>) k' j =
     (if k' = k then (if j < length (ob_slots obj) then sl_replicas (ob_slots obj ! j) else [])
      else replicas_at st k' j)"
  by (simp add: replicas_at_def)

lemma publish_replicas:
  assumes "mem_publish st k op = Some (st', r)" "mem_inv st"
  shows "\<exists>rs. owned_bytes_of rs = [] \<and> (\<forall>k' j. replicas_at st' k' j = replicas_at st k' j @
    (if (k', j) = (k, unat (pub_slot op)) then rs else []))"
  using assms(2)
proof (cases rule: mem_publish_cases[where k = k and op = op])
  case (rejected e)
  with assms(1) show ?thesis by (intro exI[of _ "[]"]) simp
next
  case (accepted obj d)
  then have st': "st' = st\<lparr>st_objects := bt_insert (st_objects st) k
      (add_replica (unat (pub_slot op)) (published op d) obj)\<rparr>"
    using assms(1) by simp
  have "owned_bytes_of [published op d] = []"
    by (simp add: owned_bytes_of_def published_def)
  moreover have "replicas_at st' k' j = replicas_at st k' j @
      (if (k', j) = (k, unat (pub_slot op)) then [published op d] else [])" for k' j
    using accepted(2,3) unfolding st' replicas_at_insert by (simp add: replicas_at_def)
  ultimately show ?thesis by blast
qed

lemma put_rejected: "mem_put inner m st k op = Some (st', Inl e) \<Longrightarrow> st' = st"
  by (auto simp: mem_put_def bind_eq_Some_conv split: sum.splits)

text \<open>What \<open>put\<close> leaves in any slot: bytes that were there, or the bytes it was given for an empty slot.\<close>

lemma put_accepted_bytes:
  assumes "mem_put inner m st k op = Some (st', Inr rp)" "mem_inv st" "length (op_slots op) \<le> 2 ^ 32"
  shows "k' \<noteq> k \<Longrightarrow> set (owned_bytes_of (replicas_at st' k' j)) \<subseteq> set (owned_bytes_of (replicas_at st k' j))"
    and "replicas_at st' k j = replicas_at st k j \<or> j < length (op_slots op) \<and> replicas_at st k j = [] \<and>
      set (owned_bytes_of (replicas_at st' k j)) = {gather m (ps_src (op_slots op ! j))}"
proof -
  note acc = mem_put_accepted[OF assms]
  show "set (owned_bytes_of (replicas_at st' k' j)) \<subseteq> set (owned_bytes_of (replicas_at st k' j))" if "k' \<noteq> k"
  proof -
    have "kept UNIV (bt_get (st_objects st) k') (bt_get (st_objects st') k')"
      using acc(5) that by (simp add: others_kept_def)
    from kept_replicas[OF this, of j] show ?thesis
      using owned_bytes_of_filter by metis
  qed
  show "replicas_at st' k j = replicas_at st k j \<or> j < length (op_slots op) \<and> replicas_at st k j = [] \<and>
      set (owned_bytes_of (replicas_at st' k j)) = {gather m (ps_src (op_slots op ! j))}"
  proof (cases "j < length (op_slots op)")
    case True
    from acc(4)[OF True] True show ?thesis
      by (cases "replicas_at st k j = []"; cases "rp_slots rp ! j") (auto simp: put_slot_ok_def image_constant_conv)
  next
    case False
    have len: "length (ob_slots obj) = length (op_slots op)"
      if "bt_get (st_objects s) k = Some obj" "mem_inv s" "ob_spec obj = op_put_spec op" for s obj
      using that object_ok_length[of "dom (st_pools s)" obj]
      by (simp add: mem_inv_def objects_ok_def op_put_spec_def)
    have "replicas_at st' k j = []"
      using acc(1,3) len[of st'] False by (auto simp: replicas_at_def split: option.splits)
    moreover have "replicas_at st k j = []"
      using assms(2) acc(8) len[of st] False by (auto simp: replicas_at_def split: option.splits)
    ultimately show ?thesis by simp
  qed
qed

lemma put_accepted_agree:
  assumes "mem_put inner m st k op = Some (st', Inr rp)" "mem_inv st" "length (op_slots op) \<le> 2 ^ 32" "agree st"
  shows "agree st'"
  unfolding agree_def
proof (intro allI impI)
  fix k' j b b'
  assume b: "b \<in> set (owned_bytes_of (replicas_at st' k' j))" "b' \<in> set (owned_bytes_of (replicas_at st' k' j))"
  note bytes = put_accepted_bytes[OF assms(1-3)]
  show "b = b'"
  proof (cases "k' = k")
    case True
    with b bytes(2)[of j] assms(4) show ?thesis
      unfolding agree_def by fastforce
  next
    case False
    with b bytes(1)[of k' j] assms(4) show ?thesis
      unfolding agree_def by blast
  qed
qed

lemma put_accepted_abs:
  assumes "mem_put inner m st k op = Some (st', Inr rp)" "mem_inv st" "length (op_slots op) \<le> 2 ^ 32" "agree st"
  shows "abs_step (mem_abs st) (LPut m k op (Inr rp)) (mem_abs st')"
proof -
  note bytes = put_accepted_bytes[OF assms(1-3)]
  have agree': "agree st'"
    using assms by (rule put_accepted_agree)
  define a1 where "a1 = (\<lambda>x. if fst x = k then mem_abs st x else mem_abs st' x)"
  have "a1 x = None \<or> a1 x = mem_abs st x" for x
  proof (cases "fst x = k")
    case False
    obtain k' j where x: "x = (k', j)" by (cases x)
    show ?thesis
    proof (cases "mem_abs st' x")
      case (Some b)
      then have "b \<in> set (owned_bytes_of (replicas_at st' k' j))"
        using mem_abs_Some[OF agree'] x by blast
      then have "mem_abs st x = Some b"
        using bytes(1)[of k' j] False x mem_abs_Some[OF assms(4)] by auto
      with Some False show ?thesis by (simp add: a1_def)
    qed (simp add: a1_def False)
  qed (simp add: a1_def)
  moreover have "mem_abs st' x = a1 x \<or> (\<exists>j < length (op_slots op). x = (k, j) \<and> mem_abs st x = None \<and>
       mem_abs st' x = Some (gather m (ps_src (op_slots op ! j))))" for x
  proof (cases "fst x = k")
    case True
    then obtain j where x: "x = (k, j)" by (cases x) simp
    from bytes(2)[of j] show ?thesis
    proof
      assume "replicas_at st' k j = replicas_at st k j"
      then show ?thesis by (simp add: a1_def x mem_abs_def)
    next
      assume *: "j < length (op_slots op) \<and> replicas_at st k j = [] \<and>
        set (owned_bytes_of (replicas_at st' k j)) = {gather m (ps_src (op_slots op ! j))}"
      then have "mem_abs st' x = Some (gather m (ps_src (op_slots op ! j)))"
        using mem_abs_Some[OF agree'] x by simp
      moreover have "mem_abs st x = None"
        using * x by (simp add: mem_abs_None)
      ultimately show ?thesis using * x by blast
    qed
  qed (simp add: a1_def)
  ultimately show ?thesis
    by (intro abs_put[where ?a1.0 = a1]) (auto simp: loses_def a1_def)
qed

lemma loses_refl [simp]: "loses a a"
  by (simp add: loses_def)

lemma mem_step_abs:
  assumes "mem_step inner st l st'" "mem_inv st" "agree st"
  shows "agree st' \<and> abs_step (mem_abs st) l (mem_abs st')"
  using assms(1)
proof cases
  case (step_put m k op r)
  show ?thesis
  proof (cases r)
    case (Inl e)
    with step_put have "st' = st" using put_rejected by blast
    then show ?thesis
      using assms(3) step_put(1) by (auto intro: abs_put[where ?a1.0 = "mem_abs st"])
  next
    case (Inr rp)
    with step_put assms show ?thesis
      using put_accepted_agree put_accepted_abs by blast
  qed
next
  case (step_publish k op r)
  obtain rs where rs: "owned_bytes_of rs = []" "\<forall>k' j. replicas_at st' k' j = replicas_at st k' j @
      (if (k', j) = (k, unat (pub_slot op)) then rs else [])"
    using publish_replicas[OF step_publish(2) assms(2)] by blast
  then have "\<exists>P. replicas_at st' k' j = filter P (replicas_at st k' j) \<or>
      replicas_at st' k' j = replicas_at st k' j @ filter P rs" for k' j
    by (intro exI[of _ "\<lambda>_. (k', j) = (k, unat (pub_slot op))"]) auto
  from filtered_abs[OF assms(3) this rs(1)] step_publish(1) show ?thesis
    by (auto intro: abs_lose)
next
  case (step_retire rid)
  have "\<exists>P. replicas_at st' k' j = filter P (replicas_at st k' j) \<or>
      replicas_at st' k' j = replicas_at st k' j @ filter P []" for k' j
    using step_retire(2) replicas_at_retire by blast
  from filtered_abs[OF assms(3) this] step_retire(1) show ?thesis
    by (auto intro: abs_lose)
next
  case (step_remove ks r)
  have "\<exists>P. replicas_at st' k' j = filter P (replicas_at st k' j) \<or>
      replicas_at st' k' j = replicas_at st k' j @ filter P []" for k' j
    using removed_replicas[OF mem_remove_Some(2)[OF step_remove(2) assms(2)], of k' j]
    by (intro exI[of _ "\<lambda>_. False"]) auto
  from filtered_abs[OF assms(3) this] step_remove(1) show ?thesis
    by (auto intro: abs_lose)
next
  case (step_remove_prefix p r)
  have "\<exists>P. replicas_at st' k' j = filter P (replicas_at st k' j) \<or>
      replicas_at st' k' j = replicas_at st k' j @ filter P []" for k' j
    using removed_replicas[OF mem_remove_prefix_Some(2)[OF step_remove_prefix(2) assms(2)], of k' j]
    by (intro exI[of _ "\<lambda>_. False"]) auto
  from filtered_abs[OF assms(3) this] step_remove_prefix(1) show ?thesis
    by (auto intro: abs_lose)
qed

lemma build_agree: "agree (snd (build b))"
  by (simp add: agree_def replicas_at_def build_fresh(1))

lemma mem_run_agree: "mem_run inner st ls st' \<Longrightarrow> mem_inv st \<Longrightarrow> agree st \<Longrightarrow> agree st'"
proof (induction rule: mem_run.induct)
  case (run_snoc st ls st' l st'')
  then show ?case
    using mem_step_abs[of inner st' l st''] mem_run_inv[of inner st ls st'] by simp
qed

end
