(* ===== verification/Pega_Memory_Examples.thy ===== *)
theory Pega_Memory_Examples
  imports Pega_Memory_Spec
begin

text \<open>
  Small concrete executions of the reference backend: two host devices of eight bytes each,
  one registered region, and requests of a few bytes. They serve as witnesses for the
  properties and as reproductions of three corner cases of the code. The collection
  \<open>mem_eval\<close> makes the simplifier run the model.
\<close>

named_theorems mem_eval \<open>definitions to execute the reference backend\<close>

lemmas [mem_eval] =
  builder_new_def builder_device_with_capacity_def builder_device_def build_def mem_put_def op_put_new_def
  op_put_with_retention_def
  op_put_validate_def validate_iovs_def in_bounds_def iov_device_def region_iov_def with_id_def
  checked_add_def checked_sub_def reserve_def op_put_spec_def mem_put_slot_def candidates_def
  is_each_def make_room_def store_slot_def index_def new_replicas_def gather_def read_bytes_def
  charge_def used_def Let_def evict_entry_def owned_on_def owned_len_def mem_remove_def remove_one_def
  release_object_def mem_publish_def op_publish_validate_def op_publish_new_def nth_opt_def
  mem_get_def op_get_validate_def op_get_new_def nearest_def distance_def data_len_def data_read_def
  write_bytes_def iov_as_ptr_def replicas_at_def retire_region_def bt_map_values_def retire_slot_def
  external_of_def mem_remove_prefix_def bt_scan_prefix_def bt_range_from_def starts_with_def
  unknown_device_def mem_location_def mem_stat_def mem_object_info_def mem_slot_info_def

definition ex_region :: mem_region where
  "ex_region = with_id 1 4096 64 (Cpu 0)"

definition ex_src :: "u64 \<Rightarrow> iov list" where
  "ex_src n = [region_iov ex_region 0 n]"

definition ex_host :: host_mem where
  "ex_host a = ucast a + 3"

definition ex_builder :: mem_builder where
  "ex_builder = builder_device_with_capacity (Cpu 1) 8
     (builder_device_with_capacity (Cpu 0) 8 builder_new)"

definition ex_inner :: mem_inner where
  "ex_inner = fst (build ex_builder)"

definition ex_init :: mem_state where
  "ex_init = snd (build ex_builder)"

definition ex_slot :: "u64 \<Rightarrow> placement \<Rightarrow> put_slot" where
  "ex_slot n pl = \<lparr>ps_spec = \<lparr>ss_len = n, ss_placement = pl\<rparr>, ps_src = ex_src n\<rparr>"

definition ex_put :: "mem_state \<Rightarrow> key \<Rightarrow> put_slot list \<Rightarrow> (mem_state \<times> rp_put res) outcome" where
  "ex_put st k slots = mem_put ex_inner ex_host st k (op_put_new slots)"

lemmas ex_eval [mem_eval] =
  ex_region_def ex_src_def ex_host_def ex_builder_def ex_inner_def ex_init_def ex_slot_def ex_put_def

text \<open>One object of one slot, placed on the first device.\<close>

definition ex_op :: op_put where
  "ex_op = op_put_new [ex_slot 4 (Strict (Cpu 0))]"

lemma ex_init_facts: "mem_inv ex_init" "fifo_ok ex_init" "within_capacity ex_init" "agree ex_init"
  by (simp_all add: ex_init_def build_inv build_fifo_ok build_capacity build_agree)

text \<open>An operation returned a success, and what it returned satisfies \<open>P\<close>.\<close>

definition runs :: "('s \<times> ('e + 'a)) outcome \<Rightarrow> ('s \<Rightarrow> 'a \<Rightarrow> bool) \<Rightarrow> bool" where
  "runs x P = (case x of Some (st, Inr rp) \<Rightarrow> P st rp | _ \<Rightarrow> False)"

lemma runsE:
  assumes "runs x P"
  obtains st rp where "x = Some (st, Inr rp)" "P st rp"
  using assms by (cases x) (auto simp: runs_def split: sum.splits)

lemmas [mem_eval] = runs_def

lemma ex_put_runs:
  obtains st rp where "mem_put ex_inner ex_host ex_init [1] ex_op = Some (st, Inr rp)" "rp_slots rp = [Inr ()]"
proof -
  have "runs (mem_put ex_inner ex_host ex_init [1] ex_op) (\<lambda>st rp.
      rp_slots rp = [Inr ()])"
    by (simp add: mem_eval ex_op_def)
  then show thesis
    by (rule runsE) (rule that)
qed

section \<open>A stale queue entry\<close>

text \<open>
  \<open>remove\<close> leaves the queue entries of the removed object behind. Object \<open>[1]\<close> has two slots,
  the second on device 0; it is removed and written again with a single slot. When a later
  \<open>put\<close> needs room on device 0, the loop pops the entry for the second slot, finds the new
  object, and indexes a slot that it does not have.
\<close>

definition stale_setup :: "(mem_state \<times> rp_put res) outcome" where
  "stale_setup = do {
     (st1, _) \<leftarrow> ex_put ex_init [1] [ex_slot 4 (Strict (Cpu 1)), ex_slot 4 (Strict (Cpu 0))];
     (st2, _) \<leftarrow> mem_remove st1 [[1]];
     ex_put st2 [1] [ex_slot 4 (Strict (Cpu 0))]
   }"

section \<open>The same device twice\<close>

text \<open>
  \<open>Each\<close> with a device listed twice: room is made once per mention, before anything is
  charged, so eight bytes go to a pool of capacity eight twice.
\<close>

definition twice_put :: "(mem_state \<times> rp_put res) outcome" where
  "twice_put = ex_put ex_init [1] [ex_slot 8 (Each [Cpu 0, Cpu 0])]"

section \<open>Segments of two regions\<close>

text \<open>
  \<open>publish\<close> accepts segments of several regions of one device but remembers the id of the
  first one only. After the second region is retired the replica is still there, and it
  still points into that region.
\<close>

definition ex_region2 :: mem_region where
  "ex_region2 = with_id 2 8192 64 (Cpu 0)"

definition two_regions :: op_publish where
  "two_regions = op_publish_new 0 [region_iov ex_region 0 2, region_iov ex_region2 0 2]"

definition two_regions_setup :: "(mem_state \<times> unit res) outcome" where
  "two_regions_setup = do {
     (st1, _) \<leftarrow> mem_put ex_inner ex_host ex_init [1] ex_op;
     mem_publish st1 [1] two_regions
   }"

lemma stale_runs:
  obtains st rp where "stale_setup = Some (st, Inr rp)" "rp_slots rp = [Inr ()]"
    "ex_put st [2] [ex_slot 8 (Strict (Cpu 0))] = panic"
proof -
  have "runs (stale_setup) (\<lambda>st rp.
      rp_slots rp = [Inr ()] \<and> ex_put st [2] [ex_slot 8 (Strict (Cpu 0))] = panic)"
    by (simp add: mem_eval stale_setup_def)
  then show thesis
    by (rule runsE) (use that in blast)
qed

lemma twice_runs:
  obtains st rp where "twice_put = Some (st, Inr rp)" "rp_slots rp = [Inr ()]" "used st (Cpu 0) = 16"
proof -
  have "runs (twice_put) (\<lambda>st rp.
      rp_slots rp = [Inr ()] \<and> used st (Cpu 0) = 16)"
    by (simp add: mem_eval twice_put_def)
  then show thesis
    by (rule runsE) (use that in blast)
qed

lemma two_regions_runs:
  obtains st where "two_regions_setup = Some (st, Inr ())"
    "re_data (replicas_at (retire_region 2 st) [1] 0 ! 1) = Ext [(4096, 2), (8192, 2)] 1"
proof -
  have "runs (two_regions_setup) (\<lambda>st _.
      re_data (replicas_at (retire_region 2 st) [1] 0 ! 1) = Ext [(4096, 2), (8192, 2)] 1)"
    by (simp add: mem_eval two_regions_setup_def ex_op_def two_regions_def ex_region2_def)
  then show thesis
    by (rule runsE) (use that in auto)
qed

end
