(* ===== verification/Pega_Memory_Props.thy ===== *)
theory Pega_Memory_Props
  imports Pega_Memory_Examples
begin

text \<open>
  The properties of the reference backend (\<open>services/memory.rs\<close>), stated over the operations
  of \<open>Pega_Memory\<close>, each with a concrete execution where its hypotheses hold.
\<close>

lemma ex_run:
  obtains st rp where "mem_put ex_inner ex_host ex_init [1] ex_op = Some (st, Inr rp)" "rp_slots rp = [Inr ()]"
    "mem_run (fst (build ex_builder)) (snd (build ex_builder)) [LPut ex_host [1] ex_op (Inr rp)] st"
proof (rule ex_put_runs)
  fix st rp
  assume put: "mem_put ex_inner ex_host ex_init [1] ex_op = Some (st, Inr rp)" "rp_slots rp = [Inr ()]"
  have "length (op_slots ex_op) \<le> 2 ^ 32"
    by (simp add: ex_op_def op_put_new_def)
  with put(1) have "mem_step (fst (build ex_builder)) (snd (build ex_builder)) (LPut ex_host [1] ex_op (Inr rp)) st"
    unfolding ex_inner_def ex_init_def by (rule step_put)
  from run_snoc[OF run_nil this] show thesis
    using put that by simp
qed

lemma ex_label_distinct: "label_distinct (LPut ex_host [1] ex_op r)"
  by (simp add: label_distinct_def each_distinct_def ex_op_def op_put_new_def ex_slot_def)

section \<open>Reachable states\<close>

text \<open>
  C1. In every state reached from a freshly built backend, whatever the operations, the
  \<open>used\<close> counter of each pool is exactly the number of bytes of the owned replicas on its
  device, every owned replica of a \<open>Cache\<close> object is in the eviction queue of its device, and
  every replica has the length that its slot declares.
\<close>

theorem reachable_inv:
  assumes "mem_run (fst (build b)) (snd (build b)) ls st"
  shows "mem_inv st"
  using mem_run_inv[OF assms build_inv] .

theorem reachable_inv_witness:
  "\<exists>ls st. ls \<noteq> [] \<and> mem_run (fst (build ex_builder)) (snd (build ex_builder)) ls st \<and> mem_inv st"
proof (rule ex_run)
  fix st rp
  assume "mem_run (fst (build ex_builder)) (snd (build ex_builder)) [LPut ex_host [1] ex_op (Inr rp)] st"
  with reachable_inv[OF this] show ?thesis by blast
qed



text \<open>
  C2. Refinement: from a reachable state, every operation is a step of the lossy write-once
  store. The owned replicas of a slot always agree on their bytes; a \<open>put\<close> writes only slots
  of its own key that hold no bytes, with exactly the bytes it was given, and keeps every
  byte its own key already had; no other operation invents or changes bytes.
\<close>

theorem refines_write_once:
  assumes "mem_run (fst (build b)) (snd (build b)) ls st" "mem_step (fst (build b)) st l st'"
  shows "agree st \<and> agree st' \<and> abs_step (mem_abs st) l (mem_abs st')"
  using mem_step_abs[OF assms(2) mem_run_inv[OF assms(1) build_inv]]
    mem_run_agree[OF assms(1) build_inv build_agree] by blast

theorem refines_write_once_witness:
  "\<exists>rp st. abs_step (mem_abs ex_init) (LPut ex_host [1] ex_op (Inr rp)) (mem_abs st) \<and>
     mem_abs st ([1], 0) = Some [3, 4, 5, 6]"
proof -
  have "runs (mem_put ex_inner ex_host ex_init [1] ex_op) (\<lambda>st rp. mem_abs st ([1], 0) = Some [3, 4, 5, 6])"
    by (simp add: mem_eval ex_op_def mem_abs_def owned_bytes_of_def upt_rec)
  then obtain st rp where st: "mem_put ex_inner ex_host ex_init [1] ex_op = Some (st, Inr rp)"
    "mem_abs st ([1], 0) = Some [3, 4, 5, 6]"
    by (rule runsE) blast
  have "mem_step (fst (build ex_builder)) (snd (build ex_builder)) (LPut ex_host [1] ex_op (Inr rp)) st"
    using st(1) unfolding ex_inner_def ex_init_def by (rule step_put) (simp add: ex_op_def op_put_new_def)
  from refines_write_once[OF run_nil this] st(2) show ?thesis
    unfolding ex_init_def by blast
qed

section \<open>put\<close>

text \<open>
  C8. An accepted \<open>put\<close>, slot by slot: a slot that already has a replica keeps exactly its
  replicas and reports \<open>AlreadyExists\<close>; an empty slot either stays empty and reports
  \<open>NoSpace\<close> or \<open>InvalidInput\<close>, or reports success and then has one replica with exactly the
  gathered bytes on one of the candidate devices of its placement, and on every listed
  device for \<open>Each\<close>. The object has the requested specification afterwards.
\<close>

theorem put_slots:
  assumes "mem_inv st" "length (op_slots op) \<le> 2 ^ 32" "mem_put inner m st k op = Some (st', Inr rp)"
  shows "length (rp_slots rp) = length (op_slots op) \<and>
    (\<exists>obj. bt_get (st_objects st') k = Some obj \<and> ob_spec obj = op_put_spec op) \<and>
    (\<forall>j < length (op_slots op). put_slot_ok (in_device_order inner) m (op_slots op ! j) (rp_slots rp ! j)
       (replicas_at st k j) (replicas_at st' k j))"
  using mem_put_accepted[OF assms(3,1,2)] by blast

theorem put_slots_witness:
  "\<exists>st rp. mem_put ex_inner ex_host ex_init [1] ex_op = Some (st, Inr rp) \<and>
     put_slot_ok (in_device_order ex_inner) ex_host (ex_slot 4 (Strict (Cpu 0))) (rp_slots rp ! 0)
       (replicas_at ex_init [1] 0) (replicas_at st [1] 0)"
proof (rule ex_put_runs)
  fix st rp
  assume put: "mem_put ex_inner ex_host ex_init [1] ex_op = Some (st, Inr rp)"
  have n: "op_slots ex_op = [ex_slot 4 (Strict (Cpu 0))]"
    by (simp add: ex_op_def op_put_new_def)
  from put_slots[OF ex_init_facts(1) _ put] n put show ?thesis by auto
qed

text \<open>
  C15. What an accepted \<open>put\<close> may do to other objects: an \<open>Explicit\<close> object is untouched; of any
  other object, replicas published from caller memory stay, and only owned replicas may go
  (the surviving ones keep their order); an object never changes its specification, and it
  disappears only when it has no replica left.
\<close>

theorem put_spares_others:
  assumes "mem_inv st" "length (op_slots op) \<le> 2 ^ 32" "mem_put inner m st k op = Some (st', r)" "k' \<noteq> k"
  shows "(\<exists>P. replicas_at st' k' j = filter P (replicas_at st k' j) \<and>
       (\<forall>x. (\<forall>d. \<not> owned_on d x) \<longrightarrow> P x)) \<and>
    (\<forall>obj. bt_get (st_objects st) k' = Some obj \<longrightarrow>
       (os_retention (ob_spec obj) = Explicit \<longrightarrow> bt_get (st_objects st') k' = Some obj) \<and>
       (\<forall>obj'. bt_get (st_objects st') k' = Some obj' \<longrightarrow> ob_spec obj' = ob_spec obj)) \<and>
    (bt_get (st_objects st) k' = None \<longrightarrow> bt_get (st_objects st') k' = None)"
proof -
  have "kept UNIV (bt_get (st_objects st) k') (bt_get (st_objects st') k')"
  proof (cases r)
    case (Inl e)
    with assms(3) show ?thesis using put_rejected by fastforce
  next
    case (Inr rp)
    with mem_put_accepted(5)[of inner m st k op st' rp] assms show ?thesis
      by (simp add: others_kept_def)
  qed
  with kept_replicas[OF this, of j] show ?thesis
    by (auto simp: kept_def split: option.splits if_splits dest: shrunk_to_retention)
qed

text \<open>Two objects fill the first device; the third pushes the older \<open>Cache\<close> one out.\<close>

definition ex_explicit :: op_put where
  "ex_explicit = op_put_with_retention ex_op Explicit"

theorem put_spares_others_witness:
  "\<exists>st1 st2 st3. mem_inv st2 \<and> replicas_at st1 [1] 0 \<noteq> [] \<and> replicas_at st3 [1] 0 = [] \<and>
     replicas_at st2 [2] 0 \<noteq> [] \<and> bt_get (st_objects st3) [2] = bt_get (st_objects st2) [2]"
proof -
  have "runs (mem_put ex_inner ex_host ex_init [1] ex_op) (\<lambda>st1 _. replicas_at st1 [1] 0 \<noteq> [] \<and>
      runs (mem_put ex_inner ex_host st1 [2] ex_explicit) (\<lambda>st2 _. replicas_at st2 [2] 0 \<noteq> [] \<and>
        map_option (\<lambda>obj. os_retention (ob_spec obj)) (bt_get (st_objects st2) [2]) = Some Explicit \<and>
        runs (mem_put ex_inner ex_host st2 [3] ex_op) (\<lambda>st3 _. replicas_at st3 [1] 0 = [])))"
    by (simp add: mem_eval ex_op_def ex_explicit_def)
  then obtain st1 rp1 st2 rp2 st3 rp3 where
    put: "mem_put ex_inner ex_host ex_init [1] ex_op = Some (st1, Inr rp1)"
      "mem_put ex_inner ex_host st1 [2] ex_explicit = Some (st2, Inr rp2)"
      "mem_put ex_inner ex_host st2 [3] ex_op = Some (st3, Inr rp3)"
    and reps: "replicas_at st1 [1] 0 \<noteq> []" "replicas_at st2 [2] 0 \<noteq> []" "replicas_at st3 [1] 0 = []"
    and ret: "map_option (\<lambda>obj. os_retention (ob_spec obj)) (bt_get (st_objects st2) [2]) = Some Explicit"
    by (elim runsE conjE) blast
  have small: "length (op_slots ex_op) \<le> 2 ^ 32" "length (op_slots ex_explicit) \<le> 2 ^ 32"
    by (simp_all add: ex_op_def ex_explicit_def op_put_new_def op_put_with_retention_def)
  have inv: "mem_inv st2"
    using mem_put_inv[OF put(2) small(2) mem_put_inv[OF put(1) small(1) ex_init_facts(1)]] .
  from ret obtain obj where obj: "bt_get (st_objects st2) [2] = Some obj" "os_retention (ob_spec obj) = Explicit"
    by auto
  have "[2] \<noteq> ([3] :: key)" by simp
  from put_spares_others[OF inv small(1) put(3) this] obj have "bt_get (st_objects st3) [2] = Some obj"
    by blast
  with inv reps obj show ?thesis by metis
qed

text \<open>
  C20. A refusal to make room is honest, and so is a promise. When \<open>make_room\<close> answers no, the
  request is larger than the pool, or it still does not fit although every byte left on the
  device belongs to an \<open>Explicit\<close> object or to the object being written; when it answers yes
  on a pool with a capacity, the bytes fit. The invariant holds afterwards in both cases.
\<close>

theorem make_room_honest:
  assumes "mem_inv st" "st_pools st d = Some p" "make_room d need protect st = Some (st', room)"
  shows "mem_inv st' \<and> (\<exists>p'. st_pools st' d = Some p' \<and> po_capacity p' = po_capacity p \<and>
    (room \<longrightarrow> (\<forall>cap. po_capacity p = Some cap \<longrightarrow> unat (po_used p') + unat need \<le> unat cap)) \<and>
    (\<not> room \<longrightarrow> (\<exists>cap. po_capacity p = Some cap \<and>
       (unat cap < unat need \<or>
        unat cap < unat (po_used p') + unat need \<and> exhausted d protect (st_objects st')))))"
proof -
  note inv = make_room_inv[OF assms(3,1,2)]
  have "pools_shrunk {d} (st_pools st) (st_pools st')"
    using inv(2) by (simp add: room_made_def)
  from pools_shrunkD(2)[OF this assms(2)] obtain p' where p': "st_pools st' d = Some p'" "pool_shrunk p p'"
    by blast
  then have cap: "po_capacity p' = po_capacity p" by (simp add: pool_shrunk_def)
  have "unat (po_used p') + unat need \<le> unat c" if room "po_capacity p = Some c" for c
    using make_room_fits[of d need protect st st' p' p c] assms(2,3) p'(1) cap that by simp
  moreover have "\<exists>c. po_capacity p = Some c \<and> (unat c < unat need \<or>
      unat c < unat (po_used p') + unat need \<and> exhausted d protect (st_objects st'))" if "\<not> room"
  proof -
    have "make_room d need protect st = Some (st', False)" using assms(3) that by simp
    from make_room_refuses[OF this assms(1,2)] p'(1) cap show ?thesis by (metis option.sel)
  qed
  ultimately show ?thesis
    using inv(1) p'(1) cap by blast
qed

theorem make_room_honest_witness:
  "\<exists>st. make_room (Cpu 0) 9 [1] ex_init = Some (st, False) \<and> mem_inv st"
proof -
  have "case make_room (Cpu 0) 9 [1] ex_init of Some (st, room) \<Rightarrow> \<not> room | _ \<Rightarrow> False"
    by (simp add: mem_eval)
  then obtain st where st: "make_room (Cpu 0) 9 [1] ex_init = Some (st, False)"
    by (auto split: option.splits)
  have "\<exists>p. st_pools ex_init (Cpu 0) = Some p"
    by (simp add: mem_eval)
  then obtain p where "st_pools ex_init (Cpu 0) = Some p" by blast
  from make_room_honest[OF ex_init_facts(1) this st] st show ?thesis by blast
qed





section \<open>get\<close>

text \<open>
  C16. Round trip: after a \<open>put\<close> that reported success for slot \<open>j\<close>, a \<open>get\<close> of any range of
  that slot into segments that do not overlap succeeds, is served from DRAM, leaves exactly
  the requested range of the bytes the \<open>put\<close> gathered in the destination, and changes no
  other byte of memory, even though the source buffer may have changed in between.
\<close>

theorem put_get_roundtrip:
  assumes "mem_inv st" "length (op_slots op) \<le> 2 ^ 32" "mem_put inner m st k op = Some (st', Inr rp)"
    and "j < length (op_slots op)" "replicas_at st k j = []" "rp_slots rp ! j = Inr ()"
    and "unat (og_slot g) = j" "op_get_validate g = Inr (d, n)"
    and "unat (og_src_offset g) + unat n \<le> unat (ss_len (ps_spec (op_slots op ! j)))"
    and "distinct (iov_span (og_dst g))"
  shows "\<exists>m'' rg. mem_get inner m' st' k g = Some (m'', Inr rg) \<and> loc_tier (rg_from rg) = Dram \<and>
    map m'' (iov_span (og_dst g)) =
      take (unat n) (drop (unat (og_src_offset g)) (gather m (ps_src (op_slots op ! j)))) \<and>
    (\<forall>x. x \<notin> set (iov_span (og_dst g)) \<longrightarrow> m'' x = m' x)"
proof -
  note acc = mem_put_accepted[OF assms(3,1,2)]
  from acc(4)[OF assms(4)] assms(5,6) obtain ts where ts: "ts \<noteq> []"
    "replicas_at st' k j = new_replicas ts (gather m (ps_src (op_slots op ! j)))"
    by (auto simp: put_slot_ok_def)
  from acc(3) obtain obj where obj: "bt_get (st_objects st') k = Some obj" "ob_spec obj = op_put_spec op"
    by blast
  have len: "length (ob_slots obj) = length (op_slots op)"
    using obj acc(1) object_ok_length[of "dom (st_pools st')" obj]
    by (simp add: mem_inv_def objects_ok_def op_put_spec_def)
  have spec: "os_slots (ob_spec obj) ! j = ps_spec (op_slots op ! j)"
    using obj(2) assms(4) by (simp add: op_put_spec_def)
  from acc(1) show ?thesis
  proof (cases rule: mem_get_cases[where op = g and inner = inner and m = m' and k = k])
    case (served d' n' obj' r m'')
    from served(5) have "r \<in> set (replicas_at st' k j)"
      using nearest_in[of inner d' "slot_at st' k j" r] assms(7) by (simp add: slot_at_def)
    then have r: "re_tier r = Dram" "re_data r = Owned (gather m (ps_src (op_slots op ! j)))"
      using ts(2) by (auto simp: new_replicas_def)
    have n: "n' = n" "iov_total (og_dst g) = unat n"
      using served(1) assms(8) assms(8)[unfolded op_get_validate_def validate_iovs_Inr] by auto
    let ?bs = "take (unat n) (drop (unat (og_src_offset g)) (gather m (ps_src (op_slots op ! j))))"
    have total: "iov_total (ps_src (op_slots op ! j)) = unat (ss_len (ps_spec (op_slots op ! j)))"
      using acc(7) assms(4) unfolding op_put_validate_Inr by auto
    then have "length ?bs = unat n" using assms(9) by simp
    then obtain m1 where m1: "scatter m' ?bs 0 (og_dst g) = Some m1"
      "map m1 (iov_span (og_dst g)) = ?bs" "\<forall>x. x \<notin> set (iov_span (og_dst g)) \<longrightarrow> m1 x = m' x"
      using scatter_ok[of 0 "og_dst g" ?bs m'] assms(10) n(2) by auto
    have "m1 = m''"
      using served(7) m1(1) r(2) n(1) by (simp add: content_def)
    with served(8) m1 r(1) show ?thesis
      by (auto simp: mem_location_def)
  qed (use assms(4,7-9) obj len spec ts in \<open>auto simp: new_replicas_def\<close>)
qed

text \<open>Reading back three of the four bytes, from offset one, into the end of the region.\<close>

definition ex_get :: op_get where
  "ex_get = with_src_offset (op_get_new 0 [region_iov ex_region 32 3]) 1"

theorem put_get_roundtrip_witness:
  "\<exists>st rp m' rg. mem_put ex_inner ex_host ex_init [1] ex_op = Some (st, Inr rp) \<and>
     mem_get ex_inner ex_host st [1] ex_get = Some (m', Inr rg) \<and>
     map m' (iov_span (og_dst ex_get)) = [4, 5, 6]"
proof (rule ex_put_runs)
  fix st rp
  assume put: "mem_put ex_inner ex_host ex_init [1] ex_op = Some (st, Inr rp)" "rp_slots rp = [Inr ()]"
  have ev: "op_get_validate ex_get = Inr (Cpu 0, 3)" "replicas_at ex_init [1] 0 = []"
    "gather ex_host (ex_src 4) = [3, 4, 5, 6]" "distinct (iov_span (og_dst ex_get))"
    by (simp_all add: mem_eval ex_get_def with_src_offset_def iov_span_def span_def upt_rec)
  have sl: "op_slots ex_op = [ex_slot 4 (Strict (Cpu 0))]" "ps_src (ex_slot 4 (Strict (Cpu 0))) = ex_src 4"
    "unat (og_slot ex_get) = 0" "og_src_offset ex_get = 1" "ss_len (ps_spec (ex_slot 4 (Strict (Cpu 0)))) = 4"
    by (simp_all add: ex_op_def op_put_new_def ex_slot_def ex_get_def with_src_offset_def op_get_new_def)
  from put_get_roundtrip[OF ex_init_facts(1) _ put(1), of 0 ex_get "Cpu 0" 3 ex_host]
  obtain m' rg where "mem_get ex_inner ex_host st [1] ex_get = Some (m', Inr rg)"
    "map m' (iov_span (og_dst ex_get)) = take 3 (drop 1 [3, 4, 5, 6])"
    using ev sl put(2) by auto
  with put(1) show ?thesis by auto
qed

text \<open>
  C22. \<open>get\<close> never panics on a state with the invariant, and its errors are exact: the list
  of segments is malformed; the key is missing (\<open>NotFound\<close>); the slot index or the range is
  outside the object (\<open>InvalidInput\<close>); or the range is fine and the slot has no replica
  (\<open>Evicted\<close>). A failed \<open>get\<close> writes no memory, and in every other case \<open>get\<close> succeeds.
\<close>

definition get_in_range :: "object \<Rightarrow> op_get \<Rightarrow> u64 \<Rightarrow> bool" where
  "get_in_range obj op n \<longleftrightarrow> unat (og_slot op) < length (ob_slots obj) \<and>
     unat (og_src_offset op) + unat n \<le> unat (ss_len (os_slots (ob_spec obj) ! unat (og_slot op)))"

theorem get_errors:
  assumes "mem_inv st"
  shows "\<exists>m' r. mem_get inner m st k op = Some (m', r) \<and> (\<forall>e. r = Inl e \<longrightarrow> m' = m \<and> \<not> is_temporary e) \<and>
    (case op_get_validate op of
       Inl e \<Rightarrow> r = Inl e
     | Inr (d, n) \<Rightarrow> (case bt_get (st_objects st) k of
         None \<Rightarrow> (\<exists>e. r = Inl e \<and> err_kind e = NotFound)
       | Some obj \<Rightarrow>
           if \<not> get_in_range obj op n then \<exists>e. r = Inl e \<and> err_kind e = InvalidInput
           else if replicas_at st k (unat (og_slot op)) = [] then \<exists>e. r = Inl e \<and> err_kind e = Evicted
           else is_ok r))"
  using assms
proof (cases rule: mem_get_cases[where op = op and inner = inner and m = m and k = k])
  case (invalid e)
  then have "\<not> is_temporary e"
    using validate_iovs_Inl[of "og_dst op" None e] by (auto simp: op_get_validate_def default_err_temporary)
  with invalid show ?thesis by simp
next
  case (not_found d n)
  then show ?thesis by (simp add: not_found_def)
next
  case (no_slot d n obj)
  then show ?thesis by (simp add: slot_out_of_range_def get_in_range_def)
next
  case (range d n obj e)
  then show ?thesis by (simp add: get_in_range_def default_err_temporary)
next
  case (evicted d n obj e)
  then show ?thesis by (simp add: get_in_range_def default_err_temporary)
next
  case (served d n obj r m')
  then have "replicas_at st k (unat (og_slot op)) \<noteq> []"
    using nearest_in by (fastforce simp: slot_at_def)
  with served show ?thesis by (simp add: get_in_range_def)
qed

theorem get_errors_witness:
  "\<exists>e. mem_get ex_inner ex_host ex_init [9] ex_get = Some (ex_host, Inl e) \<and> err_kind e = NotFound \<and>
     \<not> is_temporary e"
proof -
  have "op_get_validate ex_get = Inr (Cpu 0, 3)" "bt_get (st_objects ex_init) [9] = None"
    by (simp_all add: mem_eval ex_get_def with_src_offset_def)
  with get_errors[OF ex_init_facts(1), of ex_inner ex_host "[9]" ex_get] show ?thesis by auto
qed

text \<open>
  C21. A successful \<open>get\<close> is served by the replica that is nearest to the destination device,
  the tier breaking ties; it delivers exactly the requested range of that replica's bytes,
  changes no other memory, and names the replica's place.
\<close>

theorem get_serves_nearest:
  assumes "mem_inv st" "mem_get inner m st k op = Some (m', Inr rg)" "distinct (iov_span (og_dst op))"
  shows "\<exists>d n r. op_get_validate op = Inr (d, n) \<and> r \<in> set (replicas_at st k (unat (og_slot op))) \<and>
    (\<forall>r' \<in> set (replicas_at st k (unat (og_slot op))).
       (distance inner d (re_device r), tier_rank (re_tier r)) \<le> (distance inner d (re_device r'), tier_rank (re_tier r'))) \<and>
    rg_from rg = mem_location inner (re_device r) (re_tier r) \<and>
    map m' (iov_span (og_dst op)) = take (unat n) (drop (unat (og_src_offset op)) (content m (re_data r))) \<and>
    (\<forall>x. x \<notin> set (iov_span (og_dst op)) \<longrightarrow> m' x = m x)"
  using assms(1)
proof (cases rule: mem_get_cases[where op = op and inner = inner and m = m and k = k])
  case (served d n obj r m1)
  let ?bs = "take (unat n) (drop (unat (og_src_offset op)) (content m (re_data r)))"
  have eq: "m1 = m'" "rg = \<lparr>rg_from = mem_location inner (re_device r) (re_tier r)\<rparr>"
    using assms(2) served(8) by simp_all
  have near: "min_by_key (\<lambda>r. (distance inner d (re_device r), tier_rank (re_tier r)))
      (replicas_at st k (unat (og_slot op))) = Some r"
    using served(5) by (simp add: nearest_def slot_at_def)
  have "iov_total (og_dst op) = unat n"
    using served(1) unfolding op_get_validate_def validate_iovs_Inr by simp
  moreover have "length ?bs = unat n"
    using length_content[OF served(6), of m] served(4) by simp
  ultimately have "map m' (iov_span (og_dst op)) = ?bs \<and> (\<forall>x. x \<notin> set (iov_span (og_dst op)) \<longrightarrow> m' x = m x)"
    using scatter_ok[of 0 "og_dst op" ?bs m] assms(3) served(7) eq(1) by simp
  with min_by_key_in[OF near] min_by_key_le[OF near] served(1) eq show ?thesis
    by (intro exI[of _ d] exI[of _ n] exI[of _ r]) simp
qed (use assms(2) in simp_all)

theorem get_serves_nearest_witness:
  "\<exists>st m' rg. mem_get ex_inner ex_host st [1] ex_get = Some (m', Inr rg) \<and> loc_device (rg_from rg) = Cpu 0 \<and>
     map m' (iov_span (og_dst ex_get)) = [4, 5, 6]"
proof -
  have "runs (mem_put ex_inner ex_host ex_init [1] ex_op) (\<lambda>st _.
      replicas_at st [1] 0 = new_replicas [(Cpu 0, False)] [3, 4, 5, 6] \<and>
      runs (mem_get ex_inner ex_host st [1] ex_get) (\<lambda>_ _. True))"
    by (simp add: mem_eval ex_op_def ex_get_def with_src_offset_def upt_rec)
  then obtain st rp m' rg where put: "mem_put ex_inner ex_host ex_init [1] ex_op = Some (st, Inr rp)"
    and reps: "replicas_at st [1] 0 = new_replicas [(Cpu 0, False)] [3, 4, 5, 6]"
    and get: "mem_get ex_inner ex_host st [1] ex_get = Some (m', Inr rg)"
    by (elim runsE conjE) blast
  have inv: "mem_inv st"
    using mem_put_inv[OF put _ ex_init_facts(1)] by (simp add: ex_op_def op_put_new_def)
  have ev: "distinct (iov_span (og_dst ex_get))" "unat (og_slot ex_get) = 0" "og_src_offset ex_get = 1"
    "op_get_validate ex_get = Inr (Cpu 0, 3)"
    by (simp_all add: mem_eval ex_get_def with_src_offset_def iov_span_def span_def upt_rec)
  from get_serves_nearest[OF inv get ev(1)] reps ev(2-4)
  have "loc_device (rg_from rg) = Cpu 0 \<and> map m' (iov_span (og_dst ex_get)) = [4, 5, 6]"
    by (auto simp: new_replicas_def content_def mem_location_def)
  with get show ?thesis
    by (intro exI[of _ st] exI[of _ m'] exI[of _ rg]) simp
qed

text \<open>
  The distance order decides as intended: a reader with a replica on its own device is
  served from there, and a GPU that has a replica on any GPU is served by a GPU.
\<close>

theorem get_prefers_own_device:
  assumes "mem_inv st" "mem_get inner m st k op = Some (m', Inr rg)" "distinct (iov_span (og_dst op))"
    and "op_get_validate op = Inr (d, n)" "r' \<in> set (replicas_at st k (unat (og_slot op)))"
  shows "(re_device r' = d \<longrightarrow> loc_device (rg_from rg) = d) \<and>
    (is_gpu d \<longrightarrow> is_gpu (re_device r') \<longrightarrow> is_gpu (loc_device (rg_from rg)))"
  using assms(1)
proof (cases rule: mem_get_cases[where op = op and inner = inner and m = m and k = k])
  case (served d1 n1 obj r m1)
  with assms(2,4) have eq: "d1 = d" "loc_device (rg_from rg) = re_device r"
    by (auto simp: mem_location_def)
  have near: "min_by_key (\<lambda>r. (distance inner d (re_device r), tier_rank (re_tier r)))
      (replicas_at st k (unat (og_slot op))) = Some r"
    using served(5) eq(1) by (simp add: nearest_def slot_at_def)
  have "re_device r = d" if "re_device r' = d"
    using mem_dist.own_device_first[OF near assms(5) that] .
  moreover have "is_gpu (re_device r)" if gpu: "is_gpu d" "is_gpu (re_device r')"
  proof -
    from gpu obtain i i' where i: "d = Gpu i" "re_device r' = Gpu i'"
      by (cases d; cases "re_device r'") (simp_all add: is_gpu_def)
    show ?thesis
      using mem_dist.peer_gpu_first[OF near[unfolded i(1)] assms(5) i(2)] .
  qed
  ultimately show ?thesis using eq by simp
qed (use assms(2) in simp_all)

theorem get_prefers_own_device_witness:
  "\<exists>st m' rg. mem_get ex_inner ex_host st [1] ex_get = Some (m', Inr rg) \<and> loc_device (rg_from rg) = Cpu 0"
proof -
  have "runs (mem_put ex_inner ex_host ex_init [1] (op_put_new [ex_slot 4 (Each [Cpu 1, Cpu 0])])) (\<lambda>st _.
      length (replicas_at st [1] 0) = 2 \<and> re_device (replicas_at st [1] 0 ! 1) = Cpu 0 \<and>
      runs (mem_get ex_inner ex_host st [1] ex_get) (\<lambda>_ _. True))"
    by (simp add: mem_eval ex_get_def with_src_offset_def upt_rec)
  then obtain st rp m' rg where
    put: "mem_put ex_inner ex_host ex_init [1] (op_put_new [ex_slot 4 (Each [Cpu 1, Cpu 0])]) = Some (st, Inr rp)"
    and r: "length (replicas_at st [1] 0) = 2" "re_device (replicas_at st [1] 0 ! 1) = Cpu 0"
    and get: "mem_get ex_inner ex_host st [1] ex_get = Some (m', Inr rg)"
    by (elim runsE conjE) blast
  have inv: "mem_inv st"
    using mem_put_inv[OF put _ ex_init_facts(1)] by (simp add: op_put_new_def)
  have ev: "distinct (iov_span (og_dst ex_get))" "op_get_validate ex_get = Inr (Cpu 0, 3)" "unat (og_slot ex_get) = 0"
    by (simp_all add: mem_eval ex_get_def with_src_offset_def iov_span_def span_def upt_rec)
  from r(1) have "replicas_at st [1] 0 ! 1 \<in> set (replicas_at st [1] (unat (og_slot ex_get)))"
    unfolding ev(3) by (intro nth_mem) simp
  from get_prefers_own_device[OF inv get ev(1,2) this] r(2) have "loc_device (rg_from rg) = Cpu 0"
    by simp
  with get show ?thesis
    by (intro exI[of _ st] exI[of _ m'] exI[of _ rg]) simp
qed

end
