(* ===== verification/Pega_Memory_Lifecycle.thy ===== *)
theory Pega_Memory_Lifecycle
  imports Pega_Memory_Props
begin

text \<open>
  The properties of the remaining operations of the reference backend (\<open>publish\<close>, region
  retirement, \<open>remove\<close>, \<open>remove_prefix\<close>, \<open>stat\<close>) and three corner cases in which the code does
  not do what it means to.
\<close>

section \<open>Metadata and lifecycle\<close>

text \<open>
  C26. \<open>remove_prefix\<close> removes exactly the keys that start with the prefix, reports how many
  there were, returns their bytes to the pools (the invariant's accounting holds again), and
  touches no other object.
\<close>

theorem remove_prefix_exact:
  assumes "mem_inv st" "length (st_objects st) < 2 ^ 64"
  shows "\<exists>st' n. mem_remove_prefix st p = Some (st', Inr n) \<and> mem_inv st' \<and>
    unat n = card {k. starts_with k p \<and> bt_get (st_objects st) k \<noteq> None} \<and>
    (\<forall>k. bt_get (st_objects st') k = (if starts_with k p then None else bt_get (st_objects st) k))"
proof -
  let ?ks = "filter (\<lambda>k. starts_with k p) (map fst (st_objects st))"
  have inv: "bt_inv (st_objects st)"
    using assms(1) by (simp add: mem_inv_def objects_ok_def)
  obtain st' where st': "mem_remove_prefix st p = Some (st', Inr (word_of_nat (length ?ks)))"
    "mem_inv st'" "removed {k. starts_with k p} st st'"
    using mem_remove_prefix_spec[OF assms(1)] by blast
  have "distinct (map fst (st_objects st))"
    using inv strict_sorted_iff unfolding bt_inv_def by blast
  then have "distinct ?ks"
    by (rule distinct_filter)
  then have card: "card (set ?ks) = length ?ks"
    by (rule distinct_card)
  have set: "set ?ks = {k. starts_with k p \<and> bt_get (st_objects st) k \<noteq> None}"
    unfolding bt_get_map_of map_of_eq_None_iff by auto
  have "length ?ks < 2 ^ 64"
    using assms(2) length_filter_le[of "\<lambda>k. starts_with k p" "map fst (st_objects st)"]
    unfolding length_map by linarith
  then have "unat (word_of_nat (length ?ks) :: u64) = length ?ks"
    by (rule unat_of_nat_small)
  then have "unat (word_of_nat (length ?ks) :: u64) = card {k. starts_with k p \<and> bt_get (st_objects st) k \<noteq> None}"
    unfolding set[symmetric] card .
  with st' show ?thesis
    by (intro exI[of _ st'] exI[of _ "word_of_nat (length ?ks)"]) (simp add: removed_def)
qed

theorem remove_prefix_exact_witness:
  "\<exists>st' n. mem_remove_prefix ex_init [7] = Some (st', Inr n) \<and> mem_inv st' \<and> unat n = 0"
proof -
  have init: "st_objects ex_init = []"
    by (simp add: ex_init_def build_fresh(1))
  from remove_prefix_exact[OF ex_init_facts(1), of "[7]"] init show ?thesis by auto
qed

text \<open>
  \<open>remove\<close> always succeeds: afterwards exactly the named keys are gone, and every counter
  is again the number of bytes of the owned replicas that are left.
\<close>

theorem remove_exact:
  assumes "mem_inv st"
  shows "\<exists>st'. mem_remove st ks = Some (st', Inr ()) \<and> mem_inv st' \<and>
    (\<forall>k. bt_get (st_objects st') k = (if k \<in> set ks then None else bt_get (st_objects st) k)) \<and>
    (\<forall>d p. st_pools st' d = Some p \<longrightarrow> unat (used st' d) = owned_bytes d (st_objects st'))"
proof -
  obtain st' where st': "mem_remove st ks = Some (st', Inr ())" "mem_inv st'" "removed (set ks) st st'"
    using mem_remove_spec[OF assms] by blast
  have "unat (used st' d) = owned_bytes d (st_objects st')" if "st_pools st' d = Some p" for d p
    using removed_bytes[OF st'(2) that] that by (simp add: used_def)
  with st' show ?thesis by (intro exI[of _ st']) (simp add: removed_def)
qed

theorem remove_exact_witness:
  "\<exists>st st'. bt_get (st_objects st) [1] \<noteq> None \<and> mem_remove st [[1]] = Some (st', Inr ()) \<and>
     bt_get (st_objects st') [1] = None \<and> mem_inv st'"
proof (rule ex_put_runs)
  fix st rp
  assume put: "mem_put ex_inner ex_host ex_init [1] ex_op = Some (st, Inr rp)"
  have small: "length (op_slots ex_op) \<le> 2 ^ 32"
    by (simp add: ex_op_def op_put_new_def)
  note inv = mem_put_inv[OF put small ex_init_facts(1)]
  have "bt_get (st_objects st) [1] \<noteq> None"
    using mem_put_accepted(3)[OF put ex_init_facts(1) small] by auto
  moreover obtain st' where "mem_remove st [[1]] = Some (st', Inr ())" "mem_inv st'"
    "\<forall>k. bt_get (st_objects st') k = (if k \<in> set [[1]] then None else bt_get (st_objects st) k)"
    using remove_exact[OF inv, of "[[1]]"] by blast
  ultimately show ?thesis
    by (intro exI[of _ st] exI[of _ st']) simp
qed

text \<open>
  C27. \<open>publish\<close> changes nothing unless it succeeds; when it succeeds, the named slot has one
  more replica, on the device of the segments, in the external tier, whose bytes are those
  the segments point at; no other slot and no pool changes.
\<close>

theorem publish_exact:
  assumes "mem_inv st" "mem_publish st k op = Some (st', r)"
  shows "st_pools st' = st_pools st \<and> (r \<noteq> Inr () \<longrightarrow> st' = st) \<and>
    (r = Inr () \<longrightarrow> (\<exists>d x. good_iovs d (pub_src op) \<and> re_device x = d \<and> re_tier x = External \<and>
       (\<forall>m. content m (re_data x) = gather m (pub_src op)) \<and>
       (\<forall>k' j. replicas_at st' k' j = replicas_at st k' j @
          (if k' = k \<and> j = unat (pub_slot op) then [x] else []))))"
  using assms(1)
proof (cases rule: mem_publish_cases[where k = k and op = op])
  case (rejected e)
  with assms(2) show ?thesis by auto
next
  case (accepted obj d)
  with assms(2) have st': "st' = st\<lparr>st_objects := bt_insert (st_objects st) k
      (add_replica (unat (pub_slot op)) (published op d) obj)\<rparr>" "r = Inr ()" by simp_all
  have "seg_span (map (\<lambda>i. (iov_as_ptr i, iov_len i)) xs) = iov_span xs" for xs
    by (induction xs) (simp_all add: iov_span_def)
  then have "content m (re_data (published op d)) = gather m (pub_src op)" for m
    by (simp add: content_def published_def gather_span)
  moreover have "replicas_at st' k' j = replicas_at st k' j @
      (if k' = k \<and> j = unat (pub_slot op) then [published op d] else [])" for k' j
    using accepted(2,3) unfolding st'(1) replicas_at_insert by (simp add: replicas_at_def)
  ultimately show ?thesis
    using accepted(1) st'
    by (auto simp: published_def intro!: exI[of _ "published op d"])
qed

theorem publish_exact_witness:
  "\<exists>st st'. mem_publish st [1] (op_publish_new 0 (ex_src 4)) = Some (st', Inr ()) \<and>
     length (replicas_at st' [1] 0) = Suc (length (replicas_at st [1] 0)) \<and> st_pools st' = st_pools st"
proof -
  have "runs (mem_put ex_inner ex_host ex_init [1] ex_op) (\<lambda>st _.
      runs (mem_publish st [1] (op_publish_new 0 (ex_src 4))) (\<lambda>_ _. True))"
    by (simp add: mem_eval ex_op_def)
  then obtain st rp st' u where put: "mem_put ex_inner ex_host ex_init [1] ex_op = Some (st, Inr rp)"
    and pub: "mem_publish st [1] (op_publish_new 0 (ex_src 4)) = Some (st', Inr u)"
    by (elim runsE conjE) blast
  have inv: "mem_inv st"
    using mem_put_inv[OF put _ ex_init_facts(1)] by (simp add: ex_op_def op_put_new_def)
  from publish_exact[OF inv pub] have "length (replicas_at st' [1] 0) = Suc (length (replicas_at st [1] 0)) \<and>
      st_pools st' = st_pools st"
    by (auto simp: op_publish_new_def)
  with pub show ?thesis by (intro exI[of _ st] exI[of _ st']) simp
qed





section \<open>Corner cases\<close>

text \<open>
  C30. The hypothesis of C7 is needed: there is a sequence of requests, all of them valid and
  all of them accepted, after which a valid \<open>put\<close> panics (while it holds the lock of the
  backend). The queue entry that the loop pops was left behind by a removed object.
\<close>

theorem stale_entry_panics:
  "\<exists>st rp. stale_setup = Some (st, Inr rp) \<and> all_ok rp \<and> mem_inv st \<and>
     op_put_validate (op_put_new [ex_slot 8 (Strict (Cpu 0))]) = Inr () \<and>
     mem_put ex_inner ex_host st [2] (op_put_new [ex_slot 8 (Strict (Cpu 0))]) = panic"
proof (rule stale_runs)
  fix st rp
  assume s: "stale_setup = Some (st, Inr rp)" "rp_slots rp = [Inr ()]"
    "ex_put st [2] [ex_slot 8 (Strict (Cpu 0))] = panic"
  from s(1) obtain st1 r1 st2 r2 where
    "ex_put ex_init [1] [ex_slot 4 (Strict (Cpu 1)), ex_slot 4 (Strict (Cpu 0))] = Some (st1, r1)"
    "mem_remove st1 [[1]] = Some (st2, r2)" "ex_put st2 [1] [ex_slot 4 (Strict (Cpu 0))] = Some (st, Inr rp)"
    by (auto simp: stale_setup_def bind_eq_Some_conv)
  then have "mem_inv st"
    unfolding ex_put_def
    using mem_put_inv[of ex_inner ex_host ex_init "[1]" _ st1 r1] ex_init_facts(1)
      mem_remove_Some(1)[of st1 "[[1]]" st2 r2] mem_put_inv[of ex_inner ex_host st2 "[1]" _ st "Inr rp"]
    by (simp add: op_put_new_def)
  moreover have "op_put_validate (op_put_new [ex_slot 8 (Strict (Cpu 0))]) = Inr ()"
    by (simp add: mem_eval)
  ultimately show ?thesis
    using s by (intro exI[of _ st] exI[of _ rp]) (simp add: all_ok_def ex_put_def)
qed

text \<open>
  The hypothesis of C2 is needed: an \<open>Each\<close> placement that lists a device twice is
  accepted and leaves the pool above its capacity.
\<close>

theorem each_twice_exceeds_capacity:
  "\<exists>st rp. twice_put = Some (st, Inr rp) \<and> all_ok rp \<and> \<not> within_capacity st"
proof (rule twice_runs)
  fix st rp
  assume t: "twice_put = Some (st, Inr rp)" "rp_slots rp = [Inr ()]" "used st (Cpu 0) = 16"
  have "runs twice_put (\<lambda>st _. map_option po_capacity (st_pools st (Cpu 0)) = Some (Some 8))"
    by (simp add: mem_eval twice_put_def)
  then obtain st' rp' where st': "twice_put = Some (st', Inr rp')"
    "map_option po_capacity (st_pools st' (Cpu 0)) = Some (Some 8)"
    by (rule runsE)
  have "st' = st"
    using t(1) st'(1) by (metis Pair_inject option.inject)
  with st'(2) obtain p where "st_pools st (Cpu 0) = Some p" "po_capacity p = Some 8"
    by auto
  with t(3) have "\<not> within_capacity st"
    unfolding within_capacity_def used_def by (auto intro!: exI[of _ "Cpu 0"])
  with t show ?thesis by (intro exI[of _ st] exI[of _ rp]) (simp add: all_ok_def)
qed

text \<open>
  A replica published from segments of two regions survives the retirement of the second
  one and still points into it.
\<close>

theorem second_region_dangles:
  "\<exists>st. two_regions_setup = Some (st, Inr ()) \<and> mr_id ex_region2 = 2 \<and>
     re_data (replicas_at (retire_region 2 st) [1] 0 ! 1) = Ext [(4096, 2), (mr_addr ex_region2, 2)] 1"
proof (rule two_regions_runs)
  fix st
  assume "two_regions_setup = Some (st, Inr ())"
    "re_data (replicas_at (retire_region 2 st) [1] 0 ! 1) = Ext [(4096, 2), (8192, 2)] 1"
  then show ?thesis
    by (intro exI[of _ st]) (simp add: ex_region2_def with_id_def)
qed

end
