(* ===== verification/Pega_Store.thy ===== *)
theory Pega_Store
  imports Pega_Ops
begin

text \<open>
  The user-facing handle (\<open>store.rs\<close>) and the backend interface it holds (\<open>access.rs\<close>,
  \<open>layer.rs\<close>). A servicer is a record of its methods; each method maps the world (the
  backend's state together with the process memory) to a new world and a result. The locale
  \<open>access_backend\<close> is the contract of \<open>Access\<close> that a store relies on.
\<close>

section \<open>The backend interface\<close>

type_synonym ('w, 'r) handler = "'w \<Rightarrow> ('w \<times> 'r res) outcome"

record 'w access =
  ac_info :: access_info
  ac_register :: "u64 \<Rightarrow> u64 \<Rightarrow> device \<Rightarrow> ('w, mem_region) handler"
  ac_put :: "key \<Rightarrow> op_put \<Rightarrow> ('w, rp_put) handler"
  ac_publish :: "key \<Rightarrow> op_publish \<Rightarrow> ('w, unit) handler"
  ac_stat :: "key list \<Rightarrow> ('w, object_info option list) handler"
  ac_get :: "key \<Rightarrow> op_get \<Rightarrow> ('w, rp_get) handler"
  ac_remove :: "key list \<Rightarrow> ('w, unit) handler"
  ac_remove_prefix :: "bytes \<Rightarrow> ('w, u64) handler"

type_synonym 'w layer = "'w access \<Rightarrow> 'w access"

section \<open>The store\<close>

record 'w store =
  so_srv :: "'w access"
  so_info :: access_info

definition from_servicer :: "'w access \<Rightarrow> 'w store" where
  "from_servicer srv = \<lparr>so_srv = srv, so_info = ac_info srv\<rparr>"

definition store_layer :: "'w store \<Rightarrow> 'w layer \<Rightarrow> 'w store" where
  "store_layer s l = from_servicer (l (so_srv s))"

abbreviation so_cap :: "'w store \<Rightarrow> capability" where
  "so_cap s \<equiv> ai_capability (so_info s)"

definition unsupported :: "string \<Rightarrow> error" where
  "unsupported what = error_new Unsupported (''backend does not support '' @ what)"

text \<open>\<open>result.map_err(|e| e.with_operation(name))\<close> on what a method returns.\<close>

definition tagged :: "string \<Rightarrow> ('w \<times> 'r res) outcome \<Rightarrow> ('w \<times> 'r res) outcome" where
  "tagged name = map_option (\<lambda>(w, r). (w, map_err (with_operation name) r))"

definition refused :: "string \<Rightarrow> error \<Rightarrow> ('w, 'r) handler" where
  "refused name e w = Some (w, Inl (with_operation name e))"

definition store_register :: "'w store \<Rightarrow> u64 \<Rightarrow> u64 \<Rightarrow> device \<Rightarrow> ('w, mem_region) handler" where
  "store_register s addr len device w =
     (if is_gpu device \<and> \<not> cap_gpu_memory (so_cap s)
      then refused ''register'' (unsupported ''gpu memory'') w
      else ac_register (so_srv s) addr len device w)"

subsection \<open>put\<close>

definition check_iov_count :: "'w store \<Rightarrow> nat \<Rightarrow> unit res" where
  "check_iov_count s n = (case cap_max_iov (so_cap s) of
      Some mx \<Rightarrow> if n > unat mx
        then Inl (with_context ''max_iov'' (CtxNum (unat mx)) (unsupported ''too many iov segments''))
        else Inr ()
    | None \<Rightarrow> Inr ())"

definition check_placement :: "capability \<Rightarrow> nat \<Rightarrow> placement \<Rightarrow> unit res" where
  "check_placement cap i pl = (case pl of
      Strict _ \<Rightarrow> if \<not> cap_placement_strict cap
        then Inl (with_context ''slot'' (CtxNum i) (unsupported ''placement strict'')) else Inr ()
    | Each _ \<Rightarrow> if \<not> cap_placement_each cap
        then Inl (with_context ''slot'' (CtxNum i) (unsupported ''placement each'')) else Inr ()
    | _ \<Rightarrow> Inr ())"

definition check_slot_len :: "capability \<Rightarrow> nat \<Rightarrow> u64 \<Rightarrow> unit res" where
  "check_slot_len cap i len = (case cap_max_slot_len cap of
      Some mx \<Rightarrow> if len > mx
        then Inl (with_context ''max_slot_len'' (CtxNum (unat mx))
               (with_context ''slot'' (CtxNum i) (unsupported ''slot too large'')))
        else Inr ()
    | None \<Rightarrow> Inr ())"

fun check_put_slots :: "'w store \<Rightarrow> nat \<Rightarrow> put_slot list \<Rightarrow> unit res" where
  "check_put_slots s i [] = Inr ()"
| "check_put_slots s i (slot # slots) =
     and_then (check_placement (so_cap s) i (ss_placement (ps_spec slot))) (\<lambda>_.
     and_then (check_slot_len (so_cap s) i (ss_len (ps_spec slot))) (\<lambda>_.
     and_then (check_iov_count s (length (ps_src slot))) (\<lambda>_.
     check_put_slots s (Suc i) slots)))"

definition check_put :: "'w store \<Rightarrow> op_put \<Rightarrow> unit res" where
  "check_put s op = and_then (op_put_validate op) (\<lambda>_.
     if op_retention op = Explicit \<and> \<not> cap_retention_explicit (so_cap s)
     then Inl (unsupported ''retention explicit'')
     else case cap_max_slots (so_cap s) of
         Some mx \<Rightarrow> if length (op_slots op) > unat mx
           then Inl (with_context ''max_slots'' (CtxNum (unat mx)) (unsupported ''too many slots''))
           else check_put_slots s 0 (op_slots op)
       | None \<Rightarrow> check_put_slots s 0 (op_slots op))"

definition put_options :: "'w store \<Rightarrow> key \<Rightarrow> op_put \<Rightarrow> ('w, rp_put) handler" where
  "put_options s k op w = (case check_put s op of
      Inl e \<Rightarrow> refused ''put'' e w
    | Inr _ \<Rightarrow> tagged ''put'' (ac_put (so_srv s) k op w))"

definition store_put :: "'w store \<Rightarrow> key \<Rightarrow> put_slot list \<Rightarrow> ('w, rp_put) handler" where
  "store_put s k slots = put_options s k (op_put_new slots)"

text \<open>The builder form: \<open>store.put_with(key, slots).retention(r).await\<close>.\<close>

record 'w future_put =
  fp_store :: "'w store"
  fp_key :: key
  fp_op :: op_put

definition put_with :: "'w store \<Rightarrow> key \<Rightarrow> put_slot list \<Rightarrow> 'w future_put" where
  "put_with s k slots = \<lparr>fp_store = s, fp_key = k, fp_op = op_put_new slots\<rparr>"

definition fp_retention :: "retention \<Rightarrow> 'w future_put \<Rightarrow> 'w future_put" where
  "fp_retention r f = f\<lparr>fp_op := (fp_op f)\<lparr>op_retention := r\<rparr>\<rparr>"

definition fp_await :: "'w future_put \<Rightarrow> ('w, rp_put) handler" where
  "fp_await f = put_options (fp_store f) (fp_key f) (fp_op f)"

subsection \<open>get\<close>

definition get_options :: "'w store \<Rightarrow> key \<Rightarrow> op_get \<Rightarrow> ('w, rp_get) handler" where
  "get_options s k op w = (case op_get_validate op of
      Inl e \<Rightarrow> refused ''get'' e w
    | Inr _ \<Rightarrow> (case check_iov_count s (length (og_dst op)) of
        Inl e \<Rightarrow> refused ''get'' e w
      | Inr _ \<Rightarrow> tagged ''get'' (ac_get (so_srv s) k op w)))"

definition store_get :: "'w store \<Rightarrow> key \<Rightarrow> slot_idx \<Rightarrow> iov list \<Rightarrow> ('w, rp_get) handler" where
  "store_get s k slot dst = get_options s k (op_get_new slot dst)"

record 'w future_get =
  fg_store :: "'w store"
  fg_key :: key
  fg_op :: op_get

definition get_with :: "'w store \<Rightarrow> key \<Rightarrow> slot_idx \<Rightarrow> iov list \<Rightarrow> 'w future_get" where
  "get_with s k slot dst = \<lparr>fg_store = s, fg_key = k, fg_op = op_get_new slot dst\<rparr>"

definition fg_src_offset :: "u64 \<Rightarrow> 'w future_get \<Rightarrow> 'w future_get" where
  "fg_src_offset off f = f\<lparr>fg_op := (fg_op f)\<lparr>og_src_offset := off\<rparr>\<rparr>"

definition fg_await :: "'w future_get \<Rightarrow> ('w, rp_get) handler" where
  "fg_await f = get_options (fg_store f) (fg_key f) (fg_op f)"

text \<open>
  \<open>get_many\<close> yields \<open>(index, result)\<close> in completion order. The order is the executor's
  choice, here the argument \<open>order\<close>: the futures complete, one after the other, in that order.
\<close>

fun get_in_order :: "'w store \<Rightarrow> (key \<times> op_get) list \<Rightarrow> nat list \<Rightarrow> 'w \<Rightarrow> ('w \<times> (nat \<times> rp_get res) list) outcome" where
  "get_in_order s reqs [] w = Some (w, [])"
| "get_in_order s reqs (i # order) w = do {
     (w1, r) \<leftarrow> get_options s (fst (reqs ! i)) (snd (reqs ! i)) w;
     (w2, rs) \<leftarrow> get_in_order s reqs order w1;
     Some (w2, (i, r) # rs)
   }"

definition completion_order :: "(key \<times> op_get) list \<Rightarrow> nat list \<Rightarrow> bool" where
  "completion_order reqs order \<longleftrightarrow> distinct order \<and> set order = {..<length reqs}"

subsection \<open>publish, stat, remove\<close>

definition store_publish :: "'w store \<Rightarrow> key \<Rightarrow> slot_idx \<Rightarrow> iov list \<Rightarrow> ('w, unit) handler" where
  "store_publish s k slot src w =
     (if \<not> cap_publish (so_cap s) then refused ''publish'' (unsupported ''publish'') w
      else let op = op_publish_new slot src in
        case op_publish_validate op of
          Inl e \<Rightarrow> refused ''publish'' e w
        | Inr _ \<Rightarrow> (case check_iov_count s (length src) of
            Inl e \<Rightarrow> refused ''publish'' e w
          | Inr _ \<Rightarrow> tagged ''publish'' (ac_publish (so_srv s) k op w)))"

definition store_stat :: "'w store \<Rightarrow> key list \<Rightarrow> ('w, object_info option list) handler" where
  "store_stat s ks w = (case cap_max_stat_batch (so_cap s) of
      Some mx \<Rightarrow> if length ks > unat mx
        then refused ''stat'' (with_context ''max_stat_batch'' (CtxNum (unat mx))
               (unsupported ''stat batch too large'')) w
        else tagged ''stat'' (ac_stat (so_srv s) ks w)
    | None \<Rightarrow> tagged ''stat'' (ac_stat (so_srv s) ks w))"

definition store_remove :: "'w store \<Rightarrow> key list \<Rightarrow> ('w, unit) handler" where
  "store_remove s ks w = tagged ''remove'' (ac_remove (so_srv s) ks w)"

definition store_remove_prefix :: "'w store \<Rightarrow> bytes \<Rightarrow> ('w, u64) handler" where
  "store_remove_prefix s prefix w =
     (if \<not> cap_remove_prefix (so_cap s)
      then refused ''remove_prefix'' (unsupported ''remove_prefix'') w
      else tagged ''remove_prefix'' (ac_remove_prefix (so_srv s) prefix w))"

text \<open>What a client can do through a handle.\<close>

inductive store_step :: "'w store \<Rightarrow> 'w \<Rightarrow> 'w \<Rightarrow> bool" for s where
  do_register: "store_register s a n d w = Some (w', r) \<Longrightarrow> store_step s w w'"
| do_put: "put_options s k op w = Some (w', r) \<Longrightarrow> length (op_slots op) \<le> 2 ^ 32 \<Longrightarrow> store_step s w w'"
| do_get: "get_options s k op w = Some (w', r) \<Longrightarrow> store_step s w w'"
| do_publish: "store_publish s k i src w = Some (w', r) \<Longrightarrow>
    \<forall>x \<in> set src. region_fits (iov_region x) \<Longrightarrow> store_step s w w'"
| do_stat: "store_stat s ks w = Some (w', r) \<Longrightarrow> store_step s w w'"
| do_remove: "store_remove s ks w = Some (w', r) \<Longrightarrow> store_step s w w'"
| do_remove_prefix: "store_remove_prefix s p w = Some (w', r) \<Longrightarrow> store_step s w w'"

abbreviation store_run :: "'w store \<Rightarrow> 'w \<Rightarrow> 'w \<Rightarrow> bool" where
  "store_run s \<equiv> (store_step s)\<^sup>*\<^sup>*"

text \<open>What the capability allows of an object, and of the segments of a request.\<close>

definition spec_admitted :: "capability \<Rightarrow> object_spec \<Rightarrow> bool" where
  "spec_admitted cap sp \<longleftrightarrow>
     (os_retention sp = Explicit \<longrightarrow> cap_retention_explicit cap) \<and>
     (\<forall>mx. cap_max_slots cap = Some mx \<longrightarrow> length (os_slots sp) \<le> unat mx) \<and>
     (\<forall>x \<in> set (os_slots sp).
        (\<forall>d. ss_placement x = Strict d \<longrightarrow> cap_placement_strict cap) \<and>
        (\<forall>ds. ss_placement x = Each ds \<longrightarrow> cap_placement_each cap) \<and>
        (\<forall>mx. cap_max_slot_len cap = Some mx \<longrightarrow> ss_len x \<le> mx))"

definition iovs_admitted :: "capability \<Rightarrow> iov list \<Rightarrow> bool" where
  "iovs_admitted cap iovs \<longleftrightarrow> (\<forall>mx. cap_max_iov cap = Some mx \<longrightarrow> length iovs \<le> unat mx)"

section \<open>The gate\<close>

lemma check_iov_count_Inr: "check_iov_count s (length iovs) = Inr () \<longleftrightarrow> iovs_admitted (so_cap s) iovs"
  by (auto simp: check_iov_count_def iovs_admitted_def split: option.splits)

lemma check_put_slots_Inr:
  "check_put_slots s i slots = Inr () \<longleftrightarrow> (\<forall>p \<in> set slots.
     (\<forall>d. ss_placement (ps_spec p) = Strict d \<longrightarrow> cap_placement_strict (so_cap s)) \<and>
     (\<forall>ds. ss_placement (ps_spec p) = Each ds \<longrightarrow> cap_placement_each (so_cap s)) \<and>
     (\<forall>mx. cap_max_slot_len (so_cap s) = Some mx \<longrightarrow> ss_len (ps_spec p) \<le> mx) \<and>
     iovs_admitted (so_cap s) (ps_src p))"
proof (induction s i slots rule: check_put_slots.induct)
  case (2 s i slot slots)
  have "check_placement (so_cap s) i (ss_placement (ps_spec slot)) = Inr () \<longleftrightarrow>
      (\<forall>d. ss_placement (ps_spec slot) = Strict d \<longrightarrow> cap_placement_strict (so_cap s)) \<and>
      (\<forall>ds. ss_placement (ps_spec slot) = Each ds \<longrightarrow> cap_placement_each (so_cap s))"
    by (simp add: check_placement_def split: placement.splits)
  moreover have "check_slot_len (so_cap s) i (ss_len (ps_spec slot)) = Inr () \<longleftrightarrow>
      (\<forall>mx. cap_max_slot_len (so_cap s) = Some mx \<longrightarrow> ss_len (ps_spec slot) \<le> mx)"
    by (cases "cap_max_slot_len (so_cap s)") (auto simp: check_slot_len_def)
  ultimately show ?case
    using 2 by (auto simp: check_iov_count_Inr)
qed simp

definition gate_ok :: "capability \<Rightarrow> op_put \<Rightarrow> bool" where
  "gate_ok cap op \<longleftrightarrow> op_put_validate op = Inr () \<and> spec_admitted cap (op_put_spec op) \<and>
     (\<forall>p \<in> set (op_slots op). iovs_admitted cap (ps_src p))"

lemma check_put_Inr: "check_put s op = Inr () \<longleftrightarrow> gate_ok (so_cap s) op"
  by (cases "cap_max_slots (so_cap s)")
     (auto simp: check_put_def gate_ok_def spec_admitted_def op_put_spec_def check_put_slots_Inr
       linorder_not_less)

text \<open>An error made by the store itself or by validation: permanent and not yet attributed.\<close>

definition local_err :: "error \<Rightarrow> bool" where
  "local_err e \<longleftrightarrow> err_kind e \<in> {InvalidInput, Unsupported} \<and> default_err e \<and> err_operation e = None"

lemma local_err_simps [simp]:
  "local_err (unsupported what)"
  "local_err (error_new InvalidInput msg)"
  "local_err (with_context c v e) = local_err e"
  by (simp_all add: local_err_def unsupported_def error_new_def with_context_def default_err_def)

lemma local_err_refused:
  assumes "local_err e"
  shows "err_kind (with_operation name e) \<in> {InvalidInput, Unsupported}"
    "\<not> is_temporary (with_operation name e)" "err_operation (with_operation name e) = Some name"
proof -
  show "err_kind (with_operation name e) \<in> {InvalidInput, Unsupported}" "\<not> is_temporary (with_operation name e)"
    using assms by (auto simp: local_err_def default_err_temporary)
  show "err_operation (with_operation name e) = Some name"
    using assms by (simp add: local_err_def with_operation_def)
qed

lemma validate_loop_local: "validate_loop d idx tot iovs = Inl e \<Longrightarrow> local_err e"
  by (induction d idx tot iovs rule: validate_loop.induct) (auto split: if_splits option.splits)

lemma validate_iovs_local: "validate_iovs iovs expect = Inl e \<Longrightarrow> local_err e"
  by (auto simp: validate_iovs_def and_then_def dest: validate_loop_local
      split: list.splits sum.splits option.splits if_splits)

lemma op_put_validate_local: "op_put_validate op = Inl e \<Longrightarrow> local_err e"
proof -
  have "op_put_validate_loop i ss = Inl e \<Longrightarrow> local_err e" for i ss
    by (induction i ss rule: op_put_validate_loop.induct)
       (auto simp: and_then_def map_err_def dest: validate_iovs_local split: sum.splits)
  then show "op_put_validate op = Inl e \<Longrightarrow> local_err e"
    by (auto simp: op_put_validate_def split: if_splits)
qed

lemma check_iov_count_local: "check_iov_count s n = Inl e \<Longrightarrow> local_err e"
  by (auto simp: check_iov_count_def split: option.splits if_splits)

lemma check_put_slots_local: "check_put_slots s i slots = Inl e \<Longrightarrow> local_err e"
  by (induction s i slots rule: check_put_slots.induct)
     (auto simp: and_then_def check_placement_def check_slot_len_def dest: check_iov_count_local
       split: sum.splits placement.splits option.splits if_splits)

lemma check_put_local: "check_put s op = Inl e \<Longrightarrow> local_err e"
  by (auto simp: check_put_def and_then_def dest: op_put_validate_local check_put_slots_local
      split: sum.splits option.splits if_splits)

lemma put_options_cases:
  obtains (refused) e where "\<not> gate_ok (so_cap s) op" "local_err e"
      "put_options s k op w = Some (w, Inl (with_operation ''put'' e))"
  | (delegated) "gate_ok (so_cap s) op"
      "put_options s k op w = tagged ''put'' (ac_put (so_srv s) k op w)"
proof (cases "check_put s op")
  case (Inl e)
  then have "\<not> gate_ok (so_cap s) op" "local_err e"
    using check_put_Inr[of s op] by (auto dest: check_put_local)
  with Inl show thesis
    by (intro refused) (simp_all add: put_options_def refused_def)
next
  case (Inr u)
  then have "check_put s op = Inr ()" by simp
  then show thesis
    by (intro delegated) (simp_all add: put_options_def flip: check_put_Inr)
qed

lemma get_options_cases:
  obtains (refused) e where "local_err e" "get_options s k op w = Some (w, Inl (with_operation ''get'' e))"
      "\<And>w. get_options s k op w = Some (w, Inl (with_operation ''get'' e))"
  | (delegated) "\<And>w. get_options s k op w = tagged ''get'' (ac_get (so_srv s) k op w)"
proof (cases "op_get_validate op")
  case (Inl e)
  then show thesis
    using validate_iovs_local[of "og_dst op" None e]
    by (intro refused[of e]) (simp_all add: get_options_def refused_def op_get_validate_def)
next
  case ok: (Inr dn)
  show thesis
  proof (cases "check_iov_count s (length (og_dst op))")
    case (Inl e)
    with ok check_iov_count_local[OF Inl] show thesis
      by (intro refused[of e]) (simp_all add: get_options_def refused_def)
  next
    case (Inr u)
    with ok show thesis by (intro delegated) (simp add: get_options_def)
  qed
qed

lemma tagged_Some:
  "tagged name x = Some (w, r) \<longleftrightarrow> (\<exists>r'. x = Some (w, r') \<and> r = map_err (with_operation name) r')"
  by (auto simp: tagged_def)

section \<open>The contract of a backend\<close>

text \<open>
  \<open>specs\<close> abstracts a world to the specifications of its objects and \<open>memory\<close> to the
  process memory. Only \<open>put\<close> creates objects, with the specification it was given; a \<open>get\<close>
  always returns, writes only its destination, and does not influence the result of another.
\<close>

locale access_backend =
  fixes srv :: "'w access"
    and inv :: "'w \<Rightarrow> bool"
    and specs :: "'w \<Rightarrow> key \<Rightarrow> object_spec option"
    and memory :: "'w \<Rightarrow> host_mem"
  assumes register_keeps: "inv w \<Longrightarrow> ac_register srv a n d w = Some (w', r1) \<Longrightarrow> inv w' \<and> specs w' \<subseteq>\<^sub>m specs w"
    and put_keeps: "inv w \<Longrightarrow> length (op_slots op) \<le> 2 ^ 32 \<Longrightarrow> ac_put srv k op w = Some (w', r2) \<Longrightarrow>
      inv w' \<and> (specs w' \<subseteq>\<^sub>m specs w \<or> specs w' \<subseteq>\<^sub>m (specs w)(k \<mapsto> op_put_spec op))"
    and publish_keeps: "inv w \<Longrightarrow> \<forall>x \<in> set (pub_src op'). region_fits (iov_region x) \<Longrightarrow>
      ac_publish srv k op' w = Some (w', r3) \<Longrightarrow> inv w' \<and> specs w' \<subseteq>\<^sub>m specs w"
    and stat_keeps: "inv w \<Longrightarrow> ac_stat srv ks w = Some (w', r4) \<Longrightarrow> inv w' \<and> specs w' \<subseteq>\<^sub>m specs w"
    and remove_keeps: "inv w \<Longrightarrow> ac_remove srv ks w = Some (w', r3) \<Longrightarrow> inv w' \<and> specs w' \<subseteq>\<^sub>m specs w"
    and remove_prefix_keeps: "inv w \<Longrightarrow> ac_remove_prefix srv p w = Some (w', r5) \<Longrightarrow> inv w' \<and> specs w' \<subseteq>\<^sub>m specs w"
    and get_returns: "inv w \<Longrightarrow> \<exists>w' r. ac_get srv k og w = Some (w', r)"
    and get_keeps: "inv w \<Longrightarrow> ac_get srv k og w = Some (w', r6) \<Longrightarrow>
      inv w' \<and> specs w' \<subseteq>\<^sub>m specs w \<and> (\<forall>x. x \<notin> set (iov_span (og_dst og)) \<longrightarrow> memory w' x = memory w x)"
    and get_stable: "inv w \<Longrightarrow> ac_get srv k og w = Some (w', r6) \<Longrightarrow> ac_get srv k' og' w = Some (w1, r7) \<Longrightarrow>
      ac_get srv k' og' w' = Some (w2, r8) \<Longrightarrow> r7 = r8"
begin

abbreviation st :: "'w store" where
  "st \<equiv> from_servicer srv"

lemma st_simps [simp]: "so_srv st = srv" "so_info st = ac_info srv"
  by (simp_all add: from_servicer_def)

lemma get_options_keeps:
  assumes "inv w" "get_options st k op w = Some (w', r)"
  shows "inv w' \<and> specs w' \<subseteq>\<^sub>m specs w \<and> (\<forall>x. x \<notin> set (iov_span (og_dst op)) \<longrightarrow> memory w' x = memory w x)"
proof (cases rule: get_options_cases[of st k op w])
  case (refused e)
  with assms show ?thesis by simp
next
  case delegated
  with assms(2) obtain r' where "ac_get srv k op w = Some (w', r')"
    by (auto simp: tagged_Some)
  from get_keeps[OF assms(1) this] show ?thesis .
qed

lemma get_options_returns:
  assumes "inv w"
  shows "\<exists>w' r. get_options st k op w = Some (w', r)"
proof (cases rule: get_options_cases[of st k op w])
  case delegated
  with get_returns[OF assms, of k op] show ?thesis by (auto simp: tagged_def)
qed simp

lemma get_options_stable:
  assumes "inv w" "get_options st k op w = Some (w', r1)"
    "get_options st k' op' w = Some (w1, r2)" "get_options st k' op' w' = Some (w2, r3)"
  shows "r2 = r3"
proof (cases rule: get_options_cases[of st k' op' w])
  case (refused e)
  with assms(3,4) refused(3)[of w'] show ?thesis by simp
next
  case d': delegated
  with assms(3,4) obtain r2' r3' where
    "ac_get srv k' op' w = Some (w1, r2')" "r2 = map_err (with_operation ''get'') r2'"
    "ac_get srv k' op' w' = Some (w2, r3')" "r3 = map_err (with_operation ''get'') r3'"
    by (auto simp: tagged_Some)
  moreover have "w' = w \<or> (\<exists>r. ac_get srv k op w = Some (w', r))"
  proof (cases rule: get_options_cases[of st k op w])
    case (refused e)
    with assms(2) show ?thesis by simp
  next
    case delegated
    with assms(2) show ?thesis by (auto simp: tagged_Some)
  qed
  ultimately show ?thesis
    using get_stable[OF assms(1), of k op w' _ k' op' w1 r2' w2 r3'] by auto
qed

text \<open>Every completion order yields the results that the requests have on their own.\<close>

lemma get_in_order_spec:
  assumes "inv w"
  shows "\<exists>w' rs. get_in_order st reqs order w = Some (w', rs) \<and> map fst rs = order \<and> inv w' \<and>
    (\<forall>(i, r) \<in> set rs. \<exists>w1. get_options st (fst (reqs ! i)) (snd (reqs ! i)) w = Some (w1, r)) \<and>
    (\<forall>x. (\<forall>i \<in> set order. x \<notin> set (iov_span (og_dst (snd (reqs ! i))))) \<longrightarrow> memory w' x = memory w x)"
  using assms
proof (induction order arbitrary: w)
  case (Cons i order)
  obtain w1 r where first: "get_options st (fst (reqs ! i)) (snd (reqs ! i)) w = Some (w1, r)"
    using get_options_returns[OF Cons.prems] by blast
  note keeps = get_options_keeps[OF Cons.prems first]
  then obtain w2 rs where rest: "get_in_order st reqs order w1 = Some (w2, rs)" "map fst rs = order" "inv w2"
    "\<forall>(j, r) \<in> set rs. \<exists>w3. get_options st (fst (reqs ! j)) (snd (reqs ! j)) w1 = Some (w3, r)"
    "\<forall>x. (\<forall>j \<in> set order. x \<notin> set (iov_span (og_dst (snd (reqs ! j))))) \<longrightarrow> memory w2 x = memory w1 x"
    using Cons.IH[of w1] by blast
  have "\<exists>w3. get_options st (fst (reqs ! j)) (snd (reqs ! j)) w = Some (w3, r')" if "(j, r') \<in> set rs" for j r'
  proof -
    from that rest(4) obtain w3 where 3: "get_options st (fst (reqs ! j)) (snd (reqs ! j)) w1 = Some (w3, r')"
      by fast
    obtain w4 r4 where 4: "get_options st (fst (reqs ! j)) (snd (reqs ! j)) w = Some (w4, r4)"
      using get_options_returns[OF Cons.prems] by blast
    from get_options_stable[OF Cons.prems first 4 3] 4 show ?thesis by simp
  qed
  with first rest keeps show ?case by auto
qed simp

lemma put_options_keeps:
  assumes "inv w" "length (op_slots op) \<le> 2 ^ 32" "put_options st k op w = Some (w', r)"
  shows "inv w' \<and> (specs w' \<subseteq>\<^sub>m specs w \<or>
    specs w' \<subseteq>\<^sub>m (specs w)(k \<mapsto> op_put_spec op) \<and> spec_admitted (ai_capability (ac_info srv)) (op_put_spec op))"
proof (cases rule: put_options_cases[of st op k w])
  case (refused e)
  with assms show ?thesis by simp
next
  case delegated
  then have "spec_admitted (ai_capability (ac_info srv)) (op_put_spec op)"
    by (simp add: gate_ok_def)
  moreover have "tagged ''put'' (ac_put srv k op w) = Some (w', r)"
    using delegated(2) assms(3) by simp
  then obtain r' where "ac_put srv k op w = Some (w', r')"
    by (auto simp: tagged_Some)
  ultimately show ?thesis
    using put_keeps[OF assms(1,2)] by blast
qed

definition all_admitted :: "'w \<Rightarrow> bool" where
  "all_admitted w \<longleftrightarrow> (\<forall>k sp. specs w k = Some sp \<longrightarrow> spec_admitted (ai_capability (ac_info srv)) sp)"

lemma all_admitted_le: "all_admitted w \<Longrightarrow> specs w' \<subseteq>\<^sub>m specs w \<Longrightarrow> all_admitted w'"
  unfolding all_admitted_def map_le_def by (metis domI)

lemma all_admitted_upd:
  assumes "all_admitted w" "specs w' \<subseteq>\<^sub>m (specs w)(k \<mapsto> sp)" "spec_admitted (ai_capability (ac_info srv)) sp"
  shows "all_admitted w'"
  unfolding all_admitted_def
proof (intro allI impI)
  fix k' sp'
  assume "specs w' k' = Some sp'"
  with assms(2) have "((specs w)(k \<mapsto> sp)) k' = Some sp'"
    unfolding map_le_def by (metis domI)
  with assms(1,3) show "spec_admitted (ai_capability (ac_info srv)) sp'"
    by (auto simp: all_admitted_def split: if_splits)
qed

lemma store_step_keeps:
  assumes "store_step st w w'" "inv w" "all_admitted w"
  shows "inv w' \<and> all_admitted w'"
proof -
  have "inv w' \<and> (specs w' \<subseteq>\<^sub>m specs w \<or> (\<exists>k sp. specs w' \<subseteq>\<^sub>m (specs w)(k \<mapsto> sp) \<and>
      spec_admitted (ai_capability (ac_info srv)) sp))"
    using assms(1)
  proof cases
    case (do_register a n d r)
    then show ?thesis
      using assms(2) register_keeps[OF assms(2)]
      by (auto simp: store_register_def refused_def split: if_splits)
  next
    case (do_put k op r)
    then show ?thesis using put_options_keeps[OF assms(2)] by blast
  next
    case (do_get k op r)
    then show ?thesis using get_options_keeps[OF assms(2)] by blast
  next
    case (do_publish k i src r)
    then show ?thesis
      using assms(2) publish_keeps[OF assms(2), of "op_publish_new i src" k w']
      by (auto simp: store_publish_def refused_def Let_def op_publish_new_def tagged_Some
          split: if_splits sum.splits)
  next
    case (do_stat ks r)
    then show ?thesis
      using assms(2) stat_keeps[OF assms(2), of ks w']
      by (auto simp: store_stat_def refused_def tagged_Some split: if_splits option.splits)
  next
    case (do_remove ks r)
    then show ?thesis
      using remove_keeps[OF assms(2), of ks w'] by (auto simp: store_remove_def tagged_Some)
  next
    case (do_remove_prefix p r)
    then show ?thesis
      using assms(2) remove_prefix_keeps[OF assms(2), of p w']
      by (auto simp: store_remove_prefix_def refused_def tagged_Some split: if_splits)
  qed
  with assms(3) show ?thesis
    using all_admitted_le all_admitted_upd by blast
qed

lemma store_run_keeps: "store_run st w w' \<Longrightarrow> inv w \<Longrightarrow> all_admitted w \<Longrightarrow> inv w' \<and> all_admitted w'"
  by (induction rule: rtranclp_induct) (use store_step_keeps in blast)+

end

end
