(* ===== verification/Pega_Store_Memory.thy ===== *)
theory Pega_Store_Memory
  imports Pega_Store Pega_Memory_Examples
begin

text \<open>
  The reference backend as a provider of the backend interface, and what a client sees
  through a \<open>Store\<close> on top of it.
\<close>

section \<open>The reference backend as a servicer\<close>

text \<open>The process-wide region counter, the state behind the mutex and the process memory.\<close>

record mem_world =
  mw_counter :: u64
  mw_state :: mem_state
  mw_mem :: host_mem

definition acc_register :: "mem_inner \<Rightarrow> u64 \<Rightarrow> u64 \<Rightarrow> device \<Rightarrow> (mem_world, mem_region) handler" where
  "acc_register inner a n d w =
     (let (c, r) = mem_register inner (mw_counter w) a n d in Some (w\<lparr>mw_counter := c\<rparr>, r))"

definition acc_put :: "mem_inner \<Rightarrow> key \<Rightarrow> op_put \<Rightarrow> (mem_world, rp_put) handler" where
  "acc_put inner k op w = do {
     (st, r) \<leftarrow> mem_put inner (mw_mem w) (mw_state w) k op;
     Some (w\<lparr>mw_state := st\<rparr>, r)
   }"

definition acc_publish :: "key \<Rightarrow> op_publish \<Rightarrow> (mem_world, unit) handler" where
  "acc_publish k op w = do {
     (st, r) \<leftarrow> mem_publish (mw_state w) k op;
     Some (w\<lparr>mw_state := st\<rparr>, r)
   }"

definition acc_get :: "mem_inner \<Rightarrow> key \<Rightarrow> op_get \<Rightarrow> (mem_world, rp_get) handler" where
  "acc_get inner k op w = do {
     (m, r) \<leftarrow> mem_get inner (mw_mem w) (mw_state w) k op;
     Some (w\<lparr>mw_mem := m\<rparr>, r)
   }"

definition acc_remove :: "key list \<Rightarrow> (mem_world, unit) handler" where
  "acc_remove ks w = do {
     (st, r) \<leftarrow> mem_remove (mw_state w) ks;
     Some (w\<lparr>mw_state := st\<rparr>, r)
   }"

definition acc_remove_prefix :: "bytes \<Rightarrow> (mem_world, u64) handler" where
  "acc_remove_prefix p w = do {
     (st, r) \<leftarrow> mem_remove_prefix (mw_state w) p;
     Some (w\<lparr>mw_state := st\<rparr>, r)
   }"

definition mem_access :: "mem_inner \<Rightarrow> mem_world access" where
  "mem_access inner = \<lparr>
     ac_info = in_info inner,
     ac_register = acc_register inner,
     ac_put = acc_put inner,
     ac_publish = acc_publish,
     ac_stat = (\<lambda>ks w. Some (w, mem_stat inner (mw_state w) ks)),
     ac_get = acc_get inner,
     ac_remove = acc_remove,
     ac_remove_prefix = acc_remove_prefix\<rparr>"

text \<open>The specifications of the objects of a world.\<close>

definition mem_specs :: "mem_world \<Rightarrow> key \<Rightarrow> object_spec option" where
  "mem_specs w k = map_option ob_spec (bt_get (st_objects (mw_state w)) k)"

abbreviation world_inv :: "mem_world \<Rightarrow> bool" where
  "world_inv w \<equiv> mem_inv (mw_state w)"

section \<open>The contract holds\<close>

lemma kept_spec: "kept D x y \<Longrightarrow> y = Some obj' \<Longrightarrow> map_option ob_spec x = Some (ob_spec obj')"
  by (cases x) (auto simp: kept_def shrunk_to_def obj_shrunk_def split: if_splits)

lemma map_leI: "(\<And>k v. f k = Some v \<Longrightarrow> g k = Some v) \<Longrightarrow> f \<subseteq>\<^sub>m g"
  by (auto simp: map_le_def dom_def)

lemma mem_put_specs:
  assumes "mem_put inner m st k op = Some (st', r)" "mem_inv st" "length (op_slots op) \<le> 2 ^ 32"
  shows "st' = st \<or> (\<lambda>k'. map_option ob_spec (bt_get (st_objects st') k')) \<subseteq>\<^sub>m
    (\<lambda>k'. map_option ob_spec (bt_get (st_objects st) k'))(k \<mapsto> op_put_spec op)"
proof (cases r)
  case (Inl e)
  then have "st' = st"
    using assms(1) by (auto simp: mem_put_def bind_eq_Some_conv split: sum.splits)
  then show ?thesis ..
next
  case (Inr rp)
  note acc = mem_put_accepted[OF assms(1)[unfolded Inr] assms(2,3)]
  have "((\<lambda>k'. map_option ob_spec (bt_get (st_objects st) k'))(k \<mapsto> op_put_spec op)) k' = Some sp"
    if sp: "map_option ob_spec (bt_get (st_objects st') k') = Some sp" for k' sp
  proof (cases "k' = k")
    case True
    with sp acc(3) show ?thesis by auto
  next
    case False
    from sp obtain obj' where obj': "bt_get (st_objects st') k' = Some obj'" "sp = ob_spec obj'" by auto
    from acc(5) False have "kept UNIV (bt_get (st_objects st) k') (bt_get (st_objects st') k')"
      by (simp add: others_kept_def)
    from kept_spec[OF this obj'(1)] False obj'(2) show ?thesis by simp
  qed
  then have "(\<lambda>k'. map_option ob_spec (bt_get (st_objects st') k')) \<subseteq>\<^sub>m
      (\<lambda>k'. map_option ob_spec (bt_get (st_objects st) k'))(k \<mapsto> op_put_spec op)"
    by (rule map_leI)
  then show ?thesis ..
qed

lemma removed_specs:
  assumes "removed K st st'"
  shows "(\<lambda>k. map_option ob_spec (bt_get (st_objects st') k)) \<subseteq>\<^sub>m (\<lambda>k. map_option ob_spec (bt_get (st_objects st) k))"
  using assms by (intro map_leI) (auto simp: removed_def split: if_splits)

lemma mem_publish_specs:
  assumes "mem_publish st k op = Some (st', r)" "mem_inv st"
  shows "map_option ob_spec (bt_get (st_objects st') k') = map_option ob_spec (bt_get (st_objects st) k')"
  using assms(2)
proof (cases rule: mem_publish_cases[where k = k and op = op])
  case (rejected e)
  with assms(1) show ?thesis by simp
next
  case (accepted obj d)
  moreover have "bt_inv (st_objects st)"
    using assms(2) by (simp add: mem_inv_def objects_ok_def)
  ultimately show ?thesis
    using assms(1) by (auto simp: add_replica_def bt.get_insert)
qed

text \<open>The result of a \<open>get\<close> does not depend on the process memory.\<close>

lemma mem_get_result:
  assumes "mem_inv st" "mem_get inner m st k op = Some (m1, r1)" "mem_get inner m' st k op = Some (m2, r2)"
  shows "r1 = r2"
  using assms(2,3)
  by (auto simp: mem_get_def bind_eq_Some_conv Let_def split: sum.splits option.splits if_splits prod.splits)

lemma scatter_frame:
  "scatter m src off iovs = Some m' \<Longrightarrow> x \<notin> set (iov_span iovs) \<Longrightarrow> m' x = m x"
proof (induction iovs arbitrary: m off)
  case (Cons i iovs)
  let ?n = "unat (iov_len i)" and ?m = "write_bytes m (iov_as_ptr i) (take (unat (iov_len i)) (drop off src))"
  from Cons.prems(1) have fits: "off + ?n \<le> length src" and rest: "scatter ?m src (off + ?n) iovs = Some m'"
    by (simp_all add: Let_def split: if_splits)
  have len: "length (take ?n (drop off src)) = ?n"
    using fits by simp
  have "m' x = ?m x"
    using Cons.IH[OF rest] Cons.prems(2) by (simp add: iov_span_Cons)
  also have "\<dots> = m x"
    using Cons.prems(2) unat_bound[of "iov_len i"]
    by (intro write_bytes_outside) (simp_all only: len iov_span_Cons set_append Un_iff de_Morgan_disj, simp_all)
  finally show ?case .
qed simp

lemma mem_get_frame:
  assumes "mem_inv st" "mem_get inner m st k op = Some (m', r)" "x \<notin> set (iov_span (og_dst op))"
  shows "m' x = m x"
  using assms(1)
proof (cases rule: mem_get_cases[where op = op and inner = inner and m = m and k = k])
  case (served d n obj rep m1)
  then show ?thesis
    using assms(2) scatter_frame[OF served(7) assms(3)] by simp
qed (use assms(2) in simp_all)

lemma mem_access_contract: "access_backend (mem_access inner) world_inv mem_specs mw_mem"
proof
  show "world_inv w' \<and> mem_specs w' \<subseteq>\<^sub>m mem_specs w"
    if "world_inv w" "ac_register (mem_access inner) a n d w = Some (w', r)" for w a n d w' r
    using that by (auto simp: mem_access_def acc_register_def mem_specs_def[abs_def] split: prod.splits)
  show "world_inv w' \<and> (mem_specs w' \<subseteq>\<^sub>m mem_specs w \<or> mem_specs w' \<subseteq>\<^sub>m (mem_specs w)(k \<mapsto> op_put_spec op))"
    if "world_inv w" "length (op_slots op) \<le> 2 ^ 32" "ac_put (mem_access inner) k op w = Some (w', r)" for w op k w' r
  proof -
    from that(3) obtain st where st: "mem_put inner (mw_mem w) (mw_state w) k op = Some (st, r)" "w' = w\<lparr>mw_state := st\<rparr>"
      by (auto simp: mem_access_def acc_put_def bind_eq_Some_conv)
    from mem_put_inv[OF st(1) that(2,1)] mem_put_specs[OF st(1) that(1,2)] st(2) show ?thesis
      by (auto simp: mem_specs_def[abs_def])
  qed
  show "world_inv w' \<and> mem_specs w' \<subseteq>\<^sub>m mem_specs w"
    if "world_inv w" "\<forall>x \<in> set (pub_src op). region_fits (iov_region x)"
      "ac_publish (mem_access inner) k op w = Some (w', r)" for w op k w' r
  proof -
    from that(3) obtain st where st: "mem_publish (mw_state w) k op = Some (st, r)" "w' = w\<lparr>mw_state := st\<rparr>"
      by (auto simp: mem_access_def acc_publish_def bind_eq_Some_conv)
    from mem_publish_inv[OF st(1) that(1,2)] mem_publish_specs[OF st(1) that(1)] st(2) show ?thesis
      by (simp add: mem_specs_def[abs_def])
  qed
  show "world_inv w' \<and> mem_specs w' \<subseteq>\<^sub>m mem_specs w"
    if "world_inv w" "ac_stat (mem_access inner) ks w = Some (w', r)" for w ks w' r
    using that by (simp add: mem_access_def)
  show "world_inv w' \<and> mem_specs w' \<subseteq>\<^sub>m mem_specs w"
    if "world_inv w" "ac_remove (mem_access inner) ks w = Some (w', r)" for w ks w' r
  proof -
    from that(2) obtain st where st: "mem_remove (mw_state w) ks = Some (st, r)" "w' = w\<lparr>mw_state := st\<rparr>"
      by (auto simp: mem_access_def acc_remove_def bind_eq_Some_conv)
    from mem_remove_Some[OF st(1) that(1)] st(2) removed_specs show ?thesis
      by (simp add: mem_specs_def[abs_def])
  qed
  show "world_inv w' \<and> mem_specs w' \<subseteq>\<^sub>m mem_specs w"
    if "world_inv w" "ac_remove_prefix (mem_access inner) p w = Some (w', r)" for w p w' r
  proof -
    from that(2) obtain st where st: "mem_remove_prefix (mw_state w) p = Some (st, r)" "w' = w\<lparr>mw_state := st\<rparr>"
      by (auto simp: mem_access_def acc_remove_prefix_def bind_eq_Some_conv)
    from mem_remove_prefix_Some[OF st(1) that(1)] st(2) removed_specs show ?thesis
      by (simp add: mem_specs_def[abs_def])
  qed
  show "\<exists>w' r. ac_get (mem_access inner) k op w = Some (w', r)" if "world_inv w" for w k op
    using that
    by (cases rule: mem_get_cases[where op = op and inner = inner and m = "mw_mem w" and k = k])
       (simp_all add: mem_access_def acc_get_def)
  show "world_inv w' \<and> mem_specs w' \<subseteq>\<^sub>m mem_specs w \<and>
      (\<forall>x. x \<notin> set (iov_span (og_dst op)) \<longrightarrow> mw_mem w' x = mw_mem w x)"
    if "world_inv w" "ac_get (mem_access inner) k op w = Some (w', r)" for w k op w' r
    using that mem_get_frame[OF that(1), of inner "mw_mem w" k op]
    by (auto simp: mem_access_def acc_get_def bind_eq_Some_conv mem_specs_def[abs_def])
  show "r2 = r3"
    if "world_inv w" "ac_get (mem_access inner) k op w = Some (w', r1)"
      "ac_get (mem_access inner) k' op' w = Some (w1, r2)" "ac_get (mem_access inner) k' op' w' = Some (w2, r3)"
    for w k op w' r1 k' op' w1 r2 w2 r3
    using that mem_get_result[OF that(1), of inner _ k' op']
    by (auto simp: mem_access_def acc_get_def bind_eq_Some_conv)
qed

interpretation ma: access_backend "mem_access inner" world_inv mem_specs mw_mem for inner
  by (rule mem_access_contract)

section \<open>Through the store\<close>

text \<open>
  C33. A \<open>put\<close> through a store reaches the backend exactly when the request is well formed
  and within the backend's capability (retention, number and length of slots, placements,
  number of segments). Otherwise nothing changes, and the caller gets a permanent
  \<open>InvalidInput\<close> or \<open>Unsupported\<close> error attributed to \<open>put\<close>.
\<close>

theorem store_put_gate:
  "if gate_ok (so_cap s) op
   then put_options s k op w = tagged ''put'' (ac_put (so_srv s) k op w)
   else \<exists>e. put_options s k op w = Some (w, Inl e) \<and> err_kind e \<in> {InvalidInput, Unsupported} \<and>
     \<not> is_temporary e \<and> err_operation e = Some ''put''"
proof (cases rule: put_options_cases[of s op k w])
  case (refused e)
  with local_err_refused[OF refused(2), of "''put''"] show ?thesis by simp
next
  case delegated
  then show ?thesis by simp
qed

text \<open>
  C31. Whatever is done through a store over a freshly built reference backend, every object
  it holds respects the capability the backend was built with: no \<open>Explicit\<close> object, no
  \<open>Strict\<close> or \<open>Each\<close> placement, no slot count and no slot length beyond what it declares.
\<close>

definition fresh_world :: "mem_builder \<Rightarrow> host_mem \<Rightarrow> mem_world" where
  "fresh_world b m = \<lparr>mw_counter = 1, mw_state = snd (build b), mw_mem = m\<rparr>"

theorem capability_bounds_objects:
  assumes "store_run (from_servicer (mem_access (fst (build b)))) (fresh_world b m) w"
    and "bt_get (st_objects (mw_state w)) k = Some obj"
  shows "mem_inv (mw_state w) \<and> spec_admitted (mb_capability b) (ob_spec obj)"
proof -
  have "ma.all_admitted (fst (build b)) (fresh_world b m)"
    by (simp add: ma.all_admitted_def mem_specs_def fresh_world_def build_def Let_def)
  then have "mem_inv (mw_state w) \<and> ma.all_admitted (fst (build b)) w"
    using ma.store_run_keeps[OF assms(1)] build_inv by (simp add: fresh_world_def)
  moreover have "ai_capability (ac_info (mem_access (fst (build b)))) = mb_capability b"
    by (simp add: mem_access_def build_def Let_def)
  ultimately show ?thesis
    using assms(2) by (auto simp: ma.all_admitted_def mem_specs_def)
qed

theorem capability_bounds_objects_witness:
  "\<exists>w obj. store_run (from_servicer (mem_access (fst (build ex_builder)))) (fresh_world ex_builder ex_host) w \<and>
     bt_get (st_objects (mw_state w)) [1] = Some obj \<and> spec_admitted (mb_capability ex_builder) (ob_spec obj)"
proof -
  let ?s = "from_servicer (mem_access (fst (build ex_builder)))"
  let ?w = "fresh_world ex_builder ex_host"
  obtain st rp where put: "mem_put ex_inner ex_host ex_init [1] ex_op = Some (st, Inr rp)"
    by (rule ex_put_runs)
  have "put_options ?s [1] ex_op ?w = tagged ''put'' (ac_put (so_srv ?s) [1] ex_op ?w)"
    by (simp add: put_options_def check_put_def mem_eval ex_op_def from_servicer_def mem_access_def
        capability_all_def check_placement_def check_slot_len_def check_iov_count_def)
  then have "put_options ?s [1] ex_op ?w = Some (?w\<lparr>mw_state := st\<rparr>, Inr rp)"
    using put by (simp add: from_servicer_def mem_access_def acc_put_def fresh_world_def tagged_def
        ex_inner_def ex_init_def)
  then have "store_step ?s ?w (?w\<lparr>mw_state := st\<rparr>)"
    by (rule do_put) (simp add: ex_op_def op_put_new_def)
  then have run: "store_run ?s ?w (?w\<lparr>mw_state := st\<rparr>)" by blast
  moreover have "\<exists>obj. bt_get (st_objects st) [1] = Some obj"
    using mem_put_accepted(3)[OF put ex_init_facts(1)] by (auto simp: ex_op_def op_put_new_def)
  then obtain obj where "bt_get (st_objects (mw_state (?w\<lparr>mw_state := st\<rparr>))) [1] = Some obj" by auto
  ultimately show ?thesis
    using capability_bounds_objects[OF run, of "[1]" obj] by blast
qed

text \<open>
  C32. \<open>get_many\<close> may complete its requests in any order: it always yields every index
  exactly once, each with the result the request would have on its own, and writes no memory
  outside the destinations.
\<close>

theorem get_many_any_order:
  assumes "mem_inv (mw_state w)" "completion_order reqs order"
  shows "\<exists>w' rs. get_in_order (from_servicer (mem_access inner)) reqs order w = Some (w', rs) \<and>
    distinct (map fst rs) \<and> fst ` set rs = {..<length reqs} \<and>
    (\<forall>(i, r) \<in> set rs. \<exists>w1. get_options (from_servicer (mem_access inner)) (fst (reqs ! i)) (snd (reqs ! i)) w = Some (w1, r)) \<and>
    (\<forall>x. (\<forall>i < length reqs. x \<notin> set (iov_span (og_dst (snd (reqs ! i))))) \<longrightarrow> mw_mem w' x = mw_mem w x)"
proof -
  obtain w' rs where *: "get_in_order (from_servicer (mem_access inner)) reqs order w = Some (w', rs)" "map fst rs = order"
    "\<forall>(i, r) \<in> set rs. \<exists>w1. get_options (from_servicer (mem_access inner)) (fst (reqs ! i)) (snd (reqs ! i)) w = Some (w1, r)"
    "\<forall>x. (\<forall>i \<in> set order. x \<notin> set (iov_span (og_dst (snd (reqs ! i))))) \<longrightarrow> mw_mem w' x = mw_mem w x"
    using ma.get_in_order_spec[OF assms(1), of inner reqs order] by blast
  have "fst ` set rs = {..<length reqs}" "distinct (map fst rs)"
    using *(2) assms(2) by (auto simp: completion_order_def simp flip: set_map)
  with * assms(2) show ?thesis
    by (intro exI[of _ w'] exI[of _ rs]) (auto simp: completion_order_def)
qed

theorem get_many_any_order_witness:
  "\<exists>w' rs. get_in_order (from_servicer (mem_access ex_inner))
       [([1], op_get_new 0 (ex_src 3)), ([9], op_get_new 0 (ex_src 2))] [1, 0] (fresh_world ex_builder ex_host) =
     Some (w', rs) \<and> fst ` set rs = {0, 1}"
proof -
  have "completion_order [([1], op_get_new 0 (ex_src 3)), ([9], op_get_new 0 (ex_src 2))] [1, 0]"
    by (auto simp: completion_order_def)
  moreover have "mem_inv (mw_state (fresh_world ex_builder ex_host))"
    by (simp add: fresh_world_def build_inv)
  moreover have "{..<Suc (Suc 0)} = {0, 1::nat}" by auto
  ultimately show ?thesis
    using get_many_any_order[of "fresh_world ex_builder ex_host"
      "[([1], op_get_new 0 (ex_src 3)), ([9], op_get_new 0 (ex_src 2))]" "[1, 0]" ex_inner] by auto
qed

end
