(* ===== verification/Pega_Copy.thy ===== *)
theory Pega_Copy
  imports Pega_Ops
begin

text \<open>
  The data path of the CUDA backend (\<open>local.rs\<close>): \<open>zip_copy\<close> walks a source and a destination
  segment list in lockstep, and \<open>copy\<close> picks the engine for a pair of devices. Host and
  device memory share one address space (unified addressing). The driver is the argument
  \<open>cuda_engine\<close>. The main result is that a lockstep copy writes exactly the requested range
  of the source, as the gather and scatter of the reference backend do.
\<close>

type_synonym seg = "u64 \<times> u64"

definition iov_segs :: "iov list \<Rightarrow> seg list" where
  "iov_segs iovs = map (\<lambda>i. (iov_as_ptr i, iov_len i)) iovs"

text \<open>One transfer: source address, destination address, length.\<close>

type_synonym transfer = "u64 \<Rightarrow> u64 \<Rightarrow> u64 \<Rightarrow> host_mem \<Rightarrow> host_mem \<times> unit res"

text \<open>The first loop: an index into the source list is the rest of the list from there.\<close>

fun skip_segs :: "seg list \<Rightarrow> u64 \<Rightarrow> seg list \<times> u64" where
  "skip_segs [] off = ([], off)"
| "skip_segs ((a, l) # ss) off = (if off \<ge> l then skip_segs ss (off - l) else ((a, l) # ss, off))"

text \<open>A cursor that has reached the end of its segment moves on to the next one.\<close>

definition advance :: "seg list \<Rightarrow> u64 \<Rightarrow> seg list \<times> u64" where
  "advance segs off = (case segs of
      (a, l) # rest \<Rightarrow> if off = l then (rest, 0) else (segs, off)
    | [] \<Rightarrow> (segs, off))"

lemma advance_length: "length (fst (advance segs off)) \<le> length segs"
  by (cases segs) (auto simp: advance_def)

lemma advance_end: "segs \<noteq> [] \<Longrightarrow> length (fst (advance segs (snd (hd segs)))) < length segs"
  by (cases segs) (auto simp: advance_def)

function zip_loop :: "transfer \<Rightarrow> seg list \<Rightarrow> u64 \<Rightarrow> seg list \<Rightarrow> u64 \<Rightarrow> u64 \<Rightarrow> host_mem \<Rightarrow> (host_mem \<times> unit res) outcome" where
  "zip_loop f src s_off dst d_off left m =
     (if left = 0 then Some (m, Inr ())
      else if src = [] \<or> dst = [] then Some (m, err InvalidInput ''copy ran past a segment list'')
      else do {
        x \<leftarrow> checked_sub (snd (hd src)) s_off;
        y \<leftarrow> checked_sub (snd (hd dst)) d_off;
        s \<leftarrow> checked_add (fst (hd src)) s_off;
        d \<leftarrow> checked_add (fst (hd dst)) d_off;
        let n = min (min x y) left;
        case f s d n m of
          (m', Inl e) \<Rightarrow> Some (m', Inl e)
        | (m', Inr _) \<Rightarrow>
            zip_loop f (fst (advance src (s_off + n))) (snd (advance src (s_off + n)))
              (fst (advance dst (d_off + n))) (snd (advance dst (d_off + n))) (left - n) m'
      })"
  by auto

termination
proof (relation "measure (\<lambda>(f, src, s_off, dst, d_off, left, m). length src + length dst + (if left = 0 then 0 else 1))",
    goal_cases)
  case (2 f src s_off dst d_off left m x y s d n r m' u)
  then have x: "x = snd (hd src) - s_off" and y: "y = snd (hd dst) - d_off"
    by (simp_all add: checked_sub_def split: if_splits)
  have n: "n = x \<or> n = y \<or> n = left" using 2 by (auto simp: min_def)
  have "length (fst (advance src (s_off + n))) < length src" if "n = x"
    using advance_end[of src] 2(2) that x by simp
  moreover have "length (fst (advance dst (d_off + n))) < length dst" if "n = y"
    using advance_end[of dst] 2(2) that y by simp
  ultimately show ?case
    using n advance_length[of src "s_off + n"] advance_length[of dst "d_off + n"] 2(1) by auto
qed simp

declare zip_loop.simps [simp del]

definition zip_copy :: "seg list \<Rightarrow> u64 \<Rightarrow> seg list \<Rightarrow> u64 \<Rightarrow> transfer \<Rightarrow> host_mem \<Rightarrow> (host_mem \<times> unit res) outcome" where
  "zip_copy src src_offset dst tot f m =
     (let (src', s_off) = skip_segs src src_offset in zip_loop f src' s_off dst 0 tot m)"

section \<open>Engines\<close>

text \<open>
  \<open>copy_nonoverlapping\<close>; the asynchronous copies of the driver with the GPU whose stream they
  use, and the synchronisation of that stream. A transfer is complete when it is enqueued, in
  the sense that nothing reads the destination before the synchronisation.
\<close>

definition host_copy :: transfer where
  "host_copy s d n m = (write_bytes m d (read_bytes m s (unat n)), Inr ())"

record cuda_engine =
  cu_h2d :: "u16 \<Rightarrow> transfer"
  cu_d2h :: "u16 \<Rightarrow> transfer"
  cu_peer :: "u16 \<Rightarrow> u16 \<Rightarrow> transfer"
  cu_sync :: "u16 \<Rightarrow> host_mem \<Rightarrow> host_mem \<times> unit res"

text \<open>\<open>Inner::gpu\<close> over the indices of the opened GPUs.\<close>

definition gpu_served :: "u16 list \<Rightarrow> u16 \<Rightarrow> unit res" where
  "gpu_served gpus g = (if g \<in> set gpus then Inr ()
     else Inl (with_context ''gpu'' (CtxNum (unat g)) (error_new InvalidInput ''gpu not served'')))"

definition then_sync :: "cuda_engine \<Rightarrow> u16 \<Rightarrow> (host_mem \<times> unit res) outcome \<Rightarrow> (host_mem \<times> unit res) outcome" where
  "then_sync eng g x = do {
     (m, r) \<leftarrow> x;
     case r of Inl e \<Rightarrow> Some (m, Inl e) | Inr _ \<Rightarrow> Some (cu_sync eng g m)
   }"

definition local_copy ::
    "u16 list \<Rightarrow> cuda_engine \<Rightarrow> device \<Rightarrow> seg list \<Rightarrow> u64 \<Rightarrow> device \<Rightarrow> seg list \<Rightarrow> u64 \<Rightarrow> host_mem \<Rightarrow>
     (host_mem \<times> unit res) outcome" where
  "local_copy gpus eng src_dev src src_offset dst_dev dst tot m = (case (src_dev, dst_dev) of
      (Cpu _, Cpu _) \<Rightarrow> zip_copy src src_offset dst tot host_copy m
    | (Cpu _, Gpu g) \<Rightarrow> (case gpu_served gpus g of
          Inl e \<Rightarrow> Some (m, Inl e)
        | Inr _ \<Rightarrow> then_sync eng g (zip_copy src src_offset dst tot (cu_h2d eng g) m))
    | (Gpu g, Cpu _) \<Rightarrow> (case gpu_served gpus g of
          Inl e \<Rightarrow> Some (m, Inl e)
        | Inr _ \<Rightarrow> then_sync eng g (zip_copy src src_offset dst tot (cu_d2h eng g) m))
    | (Gpu sg, Gpu dg) \<Rightarrow> (case gpu_served gpus sg of
          Inl e \<Rightarrow> Some (m, Inl e)
        | Inr _ \<Rightarrow> (case gpu_served gpus dg of
              Inl e \<Rightarrow> Some (m, Inl e)
            | Inr _ \<Rightarrow> then_sync eng dg (zip_copy src src_offset dst tot (cu_peer eng sg dg) m))))"

text \<open>
  What the driver documents: a transfer writes nothing outside its destination, and one that
  reports success has copied the bytes; a synchronisation moves nothing by itself.
\<close>

definition transfer_ok :: "transfer \<Rightarrow> bool" where
  "transfer_ok f \<longleftrightarrow> (\<forall>s d n m m' r. f s d n m = (m', r) \<longrightarrow>
     (\<forall>x. x \<notin> set (span d (unat n)) \<longrightarrow> m' x = m x) \<and>
     (r = Inr () \<longrightarrow> m' = write_bytes m d (read_bytes m s (unat n))))"

definition engine_ok :: "cuda_engine \<Rightarrow> bool" where
  "engine_ok eng \<longleftrightarrow> (\<forall>g. transfer_ok (cu_h2d eng g) \<and> transfer_ok (cu_d2h eng g) \<and>
     (\<forall>g'. transfer_ok (cu_peer eng g g')) \<and> (\<forall>m. fst (cu_sync eng g m) = m))"

section \<open>Cursors\<close>

definition segs_fit :: "seg list \<Rightarrow> bool" where
  "segs_fit segs \<longleftrightarrow> (\<forall>x \<in> set segs. unat (fst x) + unat (snd x) \<le> 2 ^ 64)"

text \<open>The addresses still ahead of a cursor.\<close>

definition ahead :: "seg list \<Rightarrow> u64 \<Rightarrow> u64 list" where
  "ahead segs off = drop (unat off) (seg_span segs)"

definition cursor_ok :: "seg list \<Rightarrow> u64 \<Rightarrow> bool" where
  "cursor_ok segs off \<longleftrightarrow> segs_fit segs \<and> (\<forall>a l rest. segs = (a, l) # rest \<longrightarrow> off < l \<or> off = 0)"

lemma cursor_addr:
  assumes "cursor_ok ((a, l) # rest) off" "unat n \<le> unat l - unat off"
  shows "checked_add a off = Some (a + off)" "checked_sub l off = Some (l - off)"
    "take (unat n) (ahead ((a, l) # rest) off) = span (a + off) (unat n)"
proof -
  have le: "unat off \<le> unat l" and lt: "unat a + unat off < 2 ^ 64"
    using assms(1) unat_bound[of a]
    by (auto simp: cursor_ok_def segs_fit_def word_less_nat_alt)
  then show "checked_add a off = Some (a + off)" "checked_sub l off = Some (l - off)"
    by (simp_all add: checked_add_def checked_sub_def word_le_nat_alt)
  have "take (unat n) (drop (unat off) (span a (unat l))) = span (a + word_of_nat (unat off)) (unat n)"
    using assms(2) le by (intro span_slice) linarith
  then show "take (unat n) (ahead ((a, l) # rest) off) = span (a + off) (unat n)"
    using assms(2) by (simp add: ahead_def)
qed

lemma advance_ahead:
  assumes "cursor_ok ((a, l) # rest) off" "unat n \<le> unat l - unat off"
  shows "cursor_ok (fst (advance ((a, l) # rest) (off + n))) (snd (advance ((a, l) # rest) (off + n)))"
    "ahead (fst (advance ((a, l) # rest) (off + n))) (snd (advance ((a, l) # rest) (off + n))) =
       drop (unat n) (ahead ((a, l) # rest) off)"
proof -
  have le: "unat off \<le> unat l"
    using assms(1) by (auto simp: cursor_ok_def word_less_nat_alt)
  then have sum: "unat (off + n) = unat off + unat n"
    using assms(2) unat_bound[of l] by (intro unat_add_fits) linarith
  have tail: "cursor_ok rest 0" using assms(1) by (auto simp: cursor_ok_def segs_fit_def)
  have lt: "off + n < l" if "off + n \<noteq> l"
  proof -
    have "off + n \<le> l"
      unfolding word_le_nat_alt using sum le assms(2) by linarith
    with that show ?thesis by simp
  qed
  show "cursor_ok (fst (advance ((a, l) # rest) (off + n))) (snd (advance ((a, l) # rest) (off + n)))"
    using tail lt assms(1) by (auto simp: advance_def cursor_ok_def segs_fit_def)
  show "ahead (fst (advance ((a, l) # rest) (off + n))) (snd (advance ((a, l) # rest) (off + n))) =
       drop (unat n) (ahead ((a, l) # rest) off)"
  proof (cases "off + n = l")
    case True
    then have "unat off + unat n = unat l" using sum by simp
    with True show ?thesis by (simp add: advance_def ahead_def add.commute)
  next
    case False
    have "unat n + unat off - unat l = 0" "unat off - unat l = 0" "unat n - (unat l - unat off) = 0"
      using le assms(2) by linarith+
    with False sum show ?thesis by (simp add: advance_def ahead_def add.commute)
  qed
qed

lemma skip_segs_ahead:
  assumes "segs_fit src" "unat off \<le> seg_total src"
  shows "cursor_ok (fst (skip_segs src off)) (snd (skip_segs src off))"
    "ahead (fst (skip_segs src off)) (snd (skip_segs src off)) = ahead src off"
proof -
  have "cursor_ok (fst (skip_segs src off)) (snd (skip_segs src off)) \<and>
    ahead (fst (skip_segs src off)) (snd (skip_segs src off)) = ahead src off"
    using assms
  proof (induction src off rule: skip_segs.induct)
    case (1 off)
    then show ?case by (simp add: cursor_ok_def)
  next
    case (2 a l ss off)
    show ?case
    proof (cases "l \<le> off")
      case True
      then have sub: "unat (off - l) = unat off - unat l" "unat l \<le> unat off"
        by (simp_all add: unat_sub word_le_nat_alt)
      with 2 True show ?thesis
        by (simp add: segs_fit_def ahead_def)
    next
      case False
      with 2 show ?thesis by (auto simp: cursor_ok_def)
    qed
  qed
  then show "cursor_ok (fst (skip_segs src off)) (snd (skip_segs src off))"
    "ahead (fst (skip_segs src off)) (snd (skip_segs src off)) = ahead src off"
    by simp_all
qed

section \<open>A lockstep copy\<close>

lemma transfer_step:
  assumes "transfer_ok f" "f s d n m = (m1, Inr ())"
  shows "map m1 (span d (unat n)) = map m (span s (unat n))"
proof -
  have "m1 = write_bytes m d (read_bytes m s (unat n))"
    using assms unfolding transfer_ok_def by blast
  then show ?thesis
    using map_write_bytes_span[of "read_bytes m s (unat n)" m d] unat_bound[of n]
    by (simp add: read_bytes_span less_imp_le)
qed

lemma transfer_frame: "transfer_ok f \<Longrightarrow> f s d n m = (m1, r) \<Longrightarrow> x \<notin> set (span d (unat n)) \<Longrightarrow> m1 x = m x"
  unfolding transfer_ok_def by blast

text \<open>
  The loop, from any pair of cursors: it never panics, writes only ahead of the destination
  cursor, and if it reports success it has copied the bytes ahead of the source cursor.
\<close>

definition copied :: "host_mem \<Rightarrow> u64 list \<Rightarrow> u64 list \<Rightarrow> host_mem \<Rightarrow> unit res \<Rightarrow> bool" where
  "copied m S D m' r \<longleftrightarrow> (r = Inr () \<longrightarrow> map m' D = map m S) \<and> (\<forall>x. x \<notin> set D \<longrightarrow> m' x = m x)"

lemma copied_Cons:
  assumes "transfer_ok f" "f s d n m = (m1, Inr ())" "copied m1 S' D' m' r"
    and "distinct (span d (unat n) @ D')" "set (span d (unat n)) \<inter> set S' = {}"
  shows "copied m (span s (unat n) @ S') (span d (unat n) @ D') m' r"
proof -
  have out: "m1 x = m x" if "x \<notin> set (span d (unat n))" for x
    using transfer_frame[OF assms(1,2) that] .
  have "map m1 S' = map m S'" using assms(5) out by auto
  moreover have "map m' (span d (unat n)) = map m1 (span d (unat n))"
    using assms(3,4) by (auto simp: copied_def)
  ultimately show ?thesis
    using assms(3) transfer_step[OF assms(1,2)] out by (auto simp: copied_def)
qed

lemma copied_failed:
  assumes "transfer_ok f" "f s d n m = (m', Inl e)"
  shows "copied m S (span d (unat n) @ D') m' (Inl e)"
  using transfer_frame[OF assms] by (simp add: copied_def)

lemma zip_loop_copied:
  assumes "transfer_ok f" "cursor_ok src s_off" "cursor_ok dst d_off"
    and "unat left \<le> length (ahead src s_off)" "unat left \<le> length (ahead dst d_off)"
    and "distinct (ahead dst d_off)" "set (ahead dst d_off) \<inter> set (ahead src s_off) = {}"
  shows "\<exists>m' r. zip_loop f src s_off dst d_off left m = Some (m', r) \<and>
    copied m (take (unat left) (ahead src s_off)) (take (unat left) (ahead dst d_off)) m' r \<and>
    (\<forall>e. r = Inl e \<longrightarrow> (\<exists>s d n m. snd (f s d n m) = Inl e))"
  using assms
proof (induction f src s_off dst d_off left m rule: zip_loop.induct)
  case (1 f src s_off dst d_off left m)
  show ?case
  proof (cases "left = 0")
    case True
    then show ?thesis by (simp add: zip_loop.simps[of f src] copied_def)
  next
    case False
    then have pos: "0 < unat left" by (simp add: unat_gt_0)
    obtain sa sl ss where src: "src = (sa, sl) # ss"
      using "1.prems"(4) pos by (cases src) (auto simp: ahead_def)
    obtain da dl ds where dst: "dst = (da, dl) # ds"
      using "1.prems"(5) pos by (cases dst) (auto simp: ahead_def)
    define n where "n = min (min (sl - s_off) (dl - d_off)) left"
    have "unat n \<le> unat (sl - s_off)" "unat n \<le> unat (dl - d_off)" "unat n \<le> unat left"
      unfolding n_def word_le_nat_alt[symmetric] by (simp_all add: min_le_iff_disj)
    moreover have "s_off \<le> sl" "d_off \<le> dl"
      using "1.prems"(2,3) src dst by (auto simp: cursor_ok_def)
    ultimately have n: "unat n \<le> unat sl - unat s_off" "unat n \<le> unat dl - unat d_off" "unat n \<le> unat left"
      by (simp_all add: unat_sub)
    have left: "unat (left - n) = unat left - unat n"
      using n(3) by (simp add: unat_sub word_le_nat_alt)
    note S = cursor_addr[OF "1.prems"(2)[unfolded src] n(1)] advance_ahead[OF "1.prems"(2)[unfolded src] n(1)]
    note D = cursor_addr[OF "1.prems"(3)[unfolded dst] n(2)] advance_ahead[OF "1.prems"(3)[unfolded dst] n(2)]
    let ?s = "sa + s_off" and ?d = "da + d_off"
    let ?S = "take (unat left) (ahead src s_off)" and ?D = "take (unat left) (ahead dst d_off)"
    let ?S' = "take (unat left - unat n) (drop (unat n) (ahead src s_off))"
    let ?D' = "take (unat left - unat n) (drop (unat n) (ahead dst d_off))"
    have cut: "?S = span ?s (unat n) @ ?S'" "?D = span ?d (unat n) @ ?D'"
      using S(3) D(3) n(3) unfolding src dst
      by (metis le_add_diff_inverse take_add)+
    have unfold: "zip_loop f src s_off dst d_off left m = (case f ?s ?d n m of
          (m', Inl e) \<Rightarrow> Some (m', Inl e)
        | (m', Inr _) \<Rightarrow>
            zip_loop f (fst (advance src (s_off + n))) (snd (advance src (s_off + n)))
              (fst (advance dst (d_off + n))) (snd (advance dst (d_off + n))) (left - n) m')"
      using False S(1,2) D(1,2) by (subst zip_loop.simps) (simp add: src dst Let_def flip: n_def)
    obtain m1 r1 where f: "f ?s ?d n m = (m1, r1)" by fastforce
    show ?thesis
    proof (cases r1)
      case (Inl e)
      then have "\<exists>s d n m. snd (f s d n m) = Inl e" using f by (metis snd_conv)
      with Inl f unfold copied_failed[OF "1.prems"(1), of ?s ?d n m m1 e ?S ?D'] show ?thesis
        unfolding cut(2)[symmetric] by simp
    next
      case (Inr u)
      then have ok: "f ?s ?d n m = (m1, Inr ())" using f by simp
      have dist: "distinct (take (unat left) (ahead dst d_off))"
        using "1.prems"(6) by (rule distinct_take)
      have apart: "set (drop (unat n) (ahead dst d_off)) \<inter> set (drop (unat n) (ahead src s_off)) = {}"
        using "1.prems"(7) by (auto dest: in_set_dropD)
      have "\<exists>m' r. zip_loop f (fst (advance src (s_off + n))) (snd (advance src (s_off + n)))
          (fst (advance dst (d_off + n))) (snd (advance dst (d_off + n))) (left - n) m1 = Some (m', r) \<and>
        copied m1 ?S' ?D' m' r \<and> (\<forall>e. r = Inl e \<longrightarrow> (\<exists>s d n m. snd (f s d n m) = Inl e))"
        using "1.IH"[of "sl - s_off" "dl - d_off" ?s ?d n m1 "Inr ()" "()"] False S D ok left apart "1.prems"
        by (simp add: src dst n_def[symmetric])
      then obtain m' r where rest: "zip_loop f (fst (advance src (s_off + n))) (snd (advance src (s_off + n)))
          (fst (advance dst (d_off + n))) (snd (advance dst (d_off + n))) (left - n) m1 = Some (m', r)"
        "copied m1 ?S' ?D' m' r" "\<forall>e. r = Inl e \<longrightarrow> (\<exists>s d n m. snd (f s d n m) = Inl e)"
        by blast
      have "set (span ?d (unat n)) \<inter> set ?S' = {}"
      proof -
        have "set (span ?d (unat n)) \<subseteq> set (ahead dst d_off)"
          using D(3) unfolding dst by (metis set_take_subset)
        moreover have "set ?S' \<subseteq> set (ahead src s_off)"
          by (auto dest: in_set_takeD in_set_dropD)
        ultimately show ?thesis using "1.prems"(7) by blast
      qed
      from copied_Cons[OF "1.prems"(1) ok rest(2) dist[unfolded cut(2)] this] have "copied m ?S ?D m' r"
        unfolding cut .
      with rest(1,3) unfold ok show ?thesis by simp
    qed
  qed
qed

lemma zip_copy_copied:
  assumes "transfer_ok f" "segs_fit src" "segs_fit dst"
    and "unat off + unat tot \<le> seg_total src" "unat tot \<le> seg_total dst"
    and "distinct (seg_span dst)" "set (seg_span dst) \<inter> set (seg_span src) = {}"
  shows "\<exists>m' r. zip_copy src off dst tot f m = Some (m', r) \<and>
    copied m (take (unat tot) (drop (unat off) (seg_span src))) (take (unat tot) (seg_span dst)) m' r \<and>
    (\<forall>e. r = Inl e \<longrightarrow> (\<exists>s d n m. snd (f s d n m) = Inl e))"
proof -
  have "unat off \<le> seg_total src" using assms(4) by linarith
  note skip = skip_segs_ahead[OF assms(2) this]
  have ahead: "ahead src off = drop (unat off) (seg_span src)" "ahead dst 0 = seg_span dst"
    by (simp_all add: ahead_def)
  have "cursor_ok dst 0" using assms(3) by (simp add: cursor_ok_def)
  moreover have "unat tot \<le> seg_total src - unat off" using assms(4) by linarith
  moreover have "set (seg_span dst) \<inter> set (drop (unat off) (seg_span src)) = {}"
    using assms(7) by (auto dest: in_set_dropD)
  ultimately show ?thesis
    using zip_loop_copied[OF assms(1) skip(1), of dst 0 tot m] skip(2) ahead assms(5,6)
    by (simp add: zip_copy_def case_prod_unfold Let_def)
qed

lemma seg_span_iov_segs: "seg_span (iov_segs iovs) = iov_span iovs" "seg_total (iov_segs iovs) = iov_total iovs"
  by (simp_all add: seg_span_def iov_segs_def iov_span_def comp_def seg_total_def iov_total_def)

lemma iov_segs_fit:
  assumes "good_iovs d iovs" "\<forall>i \<in> set iovs. region_fits (iov_region i)"
  shows "segs_fit (iov_segs iovs)"
  using assms iov_fits by (auto simp: segs_fit_def iov_segs_def good_iovs_def in_bounds_iff)

lemma host_copy_ok: "transfer_ok host_copy"
proof -
  have "unat n \<le> 2 ^ 64" for n :: u64
    using unat_bound[of n] by simp
  then show ?thesis
    by (auto simp: transfer_ok_def host_copy_def intro!: write_bytes_outside)
qed

lemma host_copy_succeeds: "snd (host_copy s d n m) = Inr ()"
  by (simp add: host_copy_def)

text \<open>A copy between any two devices the backend serves.\<close>

definition devices_served :: "u16 list \<Rightarrow> device \<Rightarrow> bool" where
  "devices_served gpus d \<longleftrightarrow> (case d of Cpu _ \<Rightarrow> True | Gpu g \<Rightarrow> g \<in> set gpus)"

lemma then_sync_copied:
  assumes "engine_ok eng" "\<exists>m' r. x = Some (m', r) \<and> copied m S D m' r \<and> Q m' r"
  shows "\<exists>m' r. then_sync eng g x = Some (m', r) \<and> copied m S D m' r"
proof -
  obtain m' r where x: "x = Some (m', r)" "copied m S D m' r" using assms(2) by blast
  show ?thesis
  proof (cases r)
    case (Inl e)
    with x show ?thesis by (simp add: then_sync_def)
  next
    case (Inr u)
    have "fst (cu_sync eng g m') = m'" using assms(1) by (simp add: engine_ok_def)
    then obtain r' where "cu_sync eng g m' = (m', r')" by (cases "cu_sync eng g m'") simp
    with x Inr show ?thesis by (auto simp: then_sync_def copied_def)
  qed
qed

lemma local_copy_copied:
  assumes "engine_ok eng" "segs_fit src" "segs_fit dst"
    and "unat off + unat tot \<le> seg_total src" "unat tot \<le> seg_total dst"
    and "distinct (seg_span dst)" "set (seg_span dst) \<inter> set (seg_span src) = {}"
  shows "\<exists>m' r. local_copy gpus eng a src off b dst tot m = Some (m', r) \<and>
    copied m (take (unat tot) (drop (unat off) (seg_span src))) (take (unat tot) (seg_span dst)) m' r"
proof -
  have copy: "\<exists>m' r. zip_copy src off dst tot f m = Some (m', r) \<and>
      copied m (take (unat tot) (drop (unat off) (seg_span src))) (take (unat tot) (seg_span dst)) m' r \<and>
      (\<forall>e. r = Inl e \<longrightarrow> (\<exists>s d n m. snd (f s d n m) = Inl e))" if "transfer_ok f" for f
    using zip_copy_copied[OF that assms(2-7)] .
  have none: "copied m S D m (Inl e)" for S D e by (simp add: copied_def)
  have served: "gpu_served gpus g = Inr () \<or> (\<exists>e. gpu_served gpus g = Inl e)" for g
    by (simp add: gpu_served_def)
  have "transfer_ok (cu_h2d eng g)" "transfer_ok (cu_d2h eng g)" "transfer_ok (cu_peer eng g g')" for g g'
    using assms(1) by (simp_all add: engine_ok_def)
  note sync = then_sync_copied[OF assms(1) copy[OF this(1)]] then_sync_copied[OF assms(1) copy[OF this(2)]]
    then_sync_copied[OF assms(1) copy[OF this(3)]]
  show ?thesis
    using copy[OF host_copy_ok] sync none
    by (cases a; cases b) (auto simp: local_copy_def gpu_served_def)
qed

text \<open>
  C17. On host memory the lockstep walk of \<open>zip_copy\<close> is the gather and scatter of the
  reference backend: it does not panic, never runs past a segment list, and leaves exactly
  the same memory, for any cutting of source and destination into segments.
\<close>

theorem zip_copy_is_scatter:
  assumes "segs_fit src" "segs_fit (iov_segs dst)" "unat tot = iov_total dst"
    and "unat off + unat tot \<le> seg_total src"
    and "distinct (iov_span dst)" "set (iov_span dst) \<inter> set (seg_span src) = {}"
  shows "zip_copy src off (iov_segs dst) tot host_copy m =
    map_option (\<lambda>m'. (m', Inr ())) (scatter m (take (unat tot) (drop (unat off) (map m (seg_span src)))) 0 dst)"
proof -
  let ?bs = "take (unat tot) (drop (unat off) (map m (seg_span src)))"
  have len: "length ?bs = iov_total dst" using assms(3,4) by simp
  obtain m1 r where z: "zip_copy src off (iov_segs dst) tot host_copy m = Some (m1, r)"
    "copied m (take (unat tot) (drop (unat off) (seg_span src))) (take (unat tot) (seg_span (iov_segs dst))) m1 r"
    "\<forall>e. r = Inl e \<longrightarrow> (\<exists>s d n m. snd (host_copy s d n m) = Inl e)"
    using zip_copy_copied[OF host_copy_ok assms(1,2,4), of m] assms(3,5,6) by (auto simp: seg_span_iov_segs)
  have r: "r = Inr ()" using z(3) by (cases r) (auto simp: host_copy_succeeds)
  then have m1: "map m1 (iov_span dst) = ?bs" "\<And>x. x \<notin> set (iov_span dst) \<Longrightarrow> m1 x = m x"
    using z(2) assms(3) by (auto simp: copied_def seg_span_iov_segs take_map drop_map)
  obtain m2 where m2: "scatter m ?bs 0 dst = Some m2" "map m2 (iov_span dst) = ?bs" "\<And>x. x \<notin> set (iov_span dst) \<Longrightarrow> m2 x = m x"
    using scatter_ok[of 0 dst ?bs m] len assms(3,4,5) by auto
  have "m1 x = m2 x" for x
    using m1 m2(2,3) by (cases "x \<in> set (iov_span dst)") (metis map_eq_conv, simp)
  then have "m1 = m2" by blast
  with z(1) r m2(1) show ?thesis by simp
qed

definition ex_dst :: "iov list" where
  "ex_dst = [region_iov (with_id 1 4096 64 (Cpu 0)) 0 2, region_iov (with_id 1 4096 64 (Cpu 0)) 8 1]"

theorem zip_copy_is_scatter_witness:
  "zip_copy [(100, 1), (200, 0), (300, 4)] 1 (iov_segs ex_dst) 3 host_copy (\<lambda>a. ucast a) =
     map_option (\<lambda>m'. (m', Inr ())) (scatter (\<lambda>a. ucast a)
       (take 3 (drop 1 (map (\<lambda>a. ucast a) (seg_span [(100, 1), (200, 0), (300, 4)])))) 0 ex_dst)"
proof -
  have "segs_fit [(100, 1), (200, 0), (300, 4)]" "segs_fit (iov_segs ex_dst)" "unat (3 :: u64) = iov_total ex_dst"
    "unat (1 :: u64) + unat (3 :: u64) \<le> seg_total [(100, 1), (200, 0), (300, 4)]"
    "distinct (iov_span ex_dst)" "set (iov_span ex_dst) \<inter> set (seg_span [(100, 1), (200, 0), (300, 4)]) = {}"
    by (simp_all add: segs_fit_def iov_segs_def ex_dst_def region_iov_def with_id_def iov_as_ptr_def
        iov_span_def span_def upt_rec)
  from zip_copy_is_scatter[OF this, of "\<lambda>a. ucast a"] show ?thesis by simp
qed

end
