(* ===== verification/Pega_Text.thy ===== *)
theory Pega_Text
  imports Pega_Prelude
begin

text \<open>
  The text handling that the topology code shares: the methods of \<open>str\<close> it calls, on ASCII
  text, decimal printing and \<open>str::parse\<close> for integers. The main results are that printing
  a number and parsing it gives the number back, and that joining and splitting are inverse.
  The record \<open>os_env\<close> is the operating system as that code sees it.
\<close>

section \<open>Splitting and trimming\<close>

text \<open>\<open>s.split(c)\<close>: always at least one piece.\<close>

fun split_on :: "char \<Rightarrow> string \<Rightarrow> string list" where
  "split_on c [] = [[]]"
| "split_on c (x # xs) = (if x = c then [] # split_on c xs
     else (case split_on c xs of p # ps \<Rightarrow> (x # p) # ps | [] \<Rightarrow> [[x]]))"

text \<open>\<open>s.split_once(c)\<close>.\<close>

fun split_once :: "char \<Rightarrow> string \<Rightarrow> (string \<times> string) option" where
  "split_once c [] = None"
| "split_once c (x # xs) = (if x = c then Some ([], xs)
     else map_option (\<lambda>(a, b). (x # a, b)) (split_once c xs))"

text \<open>\<open>ps.join(c)\<close> for a one-character separator.\<close>

fun join_with :: "char \<Rightarrow> string list \<Rightarrow> string" where
  "join_with c [] = []"
| "join_with c [p] = p"
| "join_with c (p # ps) = p @ c # join_with c ps"

definition is_space :: "char \<Rightarrow> bool" where
  "is_space c \<longleftrightarrow> (of_char c :: nat) = 32 \<or> 9 \<le> (of_char c :: nat) \<and> (of_char c :: nat) \<le> 13"

definition trim_start :: "string \<Rightarrow> string" where
  "trim_start s = dropWhile is_space s"

definition trim :: "string \<Rightarrow> string" where
  "trim s = rev (dropWhile is_space (rev (trim_start s)))"

text \<open>\<open>s.lines()\<close>: split at newlines, without a last empty line, each without a final \<open>\r\<close>.\<close>

definition chomp :: "string \<Rightarrow> string" where
  "chomp l = (if l \<noteq> [] \<and> last l = CHR 0x0D then butlast l else l)"

definition text_lines :: "string \<Rightarrow> string list" where
  "text_lines s = (let ps = split_on (CHR 0x0A) s in
     map chomp (if last ps = [] then butlast ps else ps))"

definition strip_prefix :: "string \<Rightarrow> string \<Rightarrow> string option" where
  "strip_prefix p s = (if take (length p) s = p then Some (drop (length p) s) else None)"

definition to_ascii_lowercase :: "string \<Rightarrow> string" where
  "to_ascii_lowercase s = map (\<lambda>c. let n = of_char c :: nat in if 65 \<le> n \<and> n \<le> 90 then char_of (n + 32) else c) s"

section \<open>Numbers\<close>

definition digit_char :: "nat \<Rightarrow> char" where
  "digit_char d = char_of (48 + d)"

definition digit_val :: "char \<Rightarrow> nat option" where
  "digit_val c = (let n = of_char c in if 48 \<le> n \<and> n \<le> 57 then Some (n - 48) else None)"

fun show_nat :: "nat \<Rightarrow> string" where
  "show_nat n = (if n < 10 then [digit_char n] else show_nat (n div 10) @ [digit_char (n mod 10)])"

declare show_nat.simps [simp del]

fun parse_digits :: "nat \<Rightarrow> nat \<Rightarrow> string \<Rightarrow> nat option" where
  "parse_digits bound acc [] = Some acc"
| "parse_digits bound acc (c # cs) = (case digit_val c of
      None \<Rightarrow> None
    | Some d \<Rightarrow> let a = acc * 10 + d in if a < bound then parse_digits bound a cs else None)"

text \<open>\<open>s.parse()\<close> for an unsigned type with values below \<open>bound\<close>; an error is \<open>None\<close>.\<close>

definition parse_unsigned :: "nat \<Rightarrow> string \<Rightarrow> nat option" where
  "parse_unsigned bound s = (case s of
      [] \<Rightarrow> None
    | c # cs \<Rightarrow> if c = CHR ''+'' then (if cs = [] then None else parse_digits bound 0 cs)
               else parse_digits bound 0 s)"

definition parse_usize :: "string \<Rightarrow> nat option" where
  "parse_usize = parse_unsigned (2 ^ 64)"

definition parse_u32 :: "string \<Rightarrow> u32 option" where
  "parse_u32 s = map_option word_of_nat (parse_unsigned (2 ^ 32) s)"

definition parse_u16 :: "string \<Rightarrow> u16 option" where
  "parse_u16 s = map_option word_of_nat (parse_unsigned (2 ^ 16) s)"

text \<open>\<open>s.parse::<i32>()\<close>.\<close>

definition parse_i32 :: "string \<Rightarrow> int option" where
  "parse_i32 s = (case s of
      [] \<Rightarrow> None
    | c # cs \<Rightarrow>
        if c = CHR ''-'' then (if cs = [] then None else map_option (\<lambda>n. - int n) (parse_digits (2 ^ 31 + 1) 0 cs))
        else map_option int (parse_unsigned (2 ^ 31) s))"

section \<open>The operating system\<close>

text \<open>
  Directory listings, file contents (\<open>Inl\<close> carries the text of the I/O error), link targets
  (the last component), canonical paths, and commands: \<open>None\<close> when they cannot be run,
  otherwise whether they succeeded and what they wrote.
\<close>

record os_env =
  os_exists :: "string \<Rightarrow> bool"
  os_dir :: "string \<Rightarrow> string + string list"
  os_read :: "string \<Rightarrow> string + string"
  os_link :: "string \<Rightarrow> string option"
  os_canonical :: "string \<Rightarrow> string option"
  os_command :: "string list \<Rightarrow> (bool \<times> string) option"
  os_set_affinity :: "nat list \<Rightarrow> string + unit"
  os_spawn :: "string + unit"
  os_page_size :: u64
  os_move_pages :: "u64 list \<Rightarrow> int list option"

definition path_join :: "string \<Rightarrow> string \<Rightarrow> string" where
  "path_join p q = p @ ''/'' @ q"

section \<open>Printing and parsing are inverse\<close>

definition is_digit :: "char \<Rightarrow> bool" where
  "is_digit c \<longleftrightarrow> digit_val c \<noteq> None"

lemma digit_val_char [simp]: "d < 10 \<Longrightarrow> digit_val (digit_char d) = Some d"
  by (simp add: digit_val_def digit_char_def Let_def)

lemma show_nat_digits: "c \<in> set (show_nat n) \<Longrightarrow> is_digit c"
proof (induction n rule: show_nat.induct)
  case (1 n)
  then show ?case
    by (cases "n < 10") (auto simp: show_nat.simps[of n] is_digit_def)
qed

lemma show_nat_ne [simp]: "show_nat n \<noteq> []"
  by (subst show_nat.simps) simp

lemma parse_digits_snoc:
  "parse_digits b acc xs = Some m \<Longrightarrow> digit_val c = Some d \<Longrightarrow> m * 10 + d < b \<Longrightarrow>
   parse_digits b acc (xs @ [c]) = Some (m * 10 + d)"
  by (induction b acc xs rule: parse_digits.induct) (auto simp: Let_def split: option.splits if_splits)

lemma parse_digits_show:
  "n < b \<Longrightarrow> parse_digits b 0 (show_nat n) = Some n"
proof (induction n rule: show_nat.induct)
  case (1 n)
  show ?case
  proof (cases "n < 10")
    case True
    with "1.prems" show ?thesis by (simp add: show_nat.simps[of n])
  next
    case False
    from "1.prems" have "n div 10 < b"
      using div_le_dividend[of n 10] by linarith
    with "1.IH"[OF False] have "parse_digits b 0 (show_nat (n div 10)) = Some (n div 10)" .
    from parse_digits_snoc[OF this, of "digit_char (n mod 10)" "n mod 10"] False "1.prems" show ?thesis
      by (simp add: show_nat.simps[of n])
  qed
qed

lemma not_digit_plus: "\<not> is_digit (CHR ''+'')" "\<not> is_digit (CHR ''-'')" "\<not> is_digit (CHR '','')"
  by (simp_all add: is_digit_def digit_val_def Let_def)

lemma parse_unsigned_show: "n < b \<Longrightarrow> parse_unsigned b (show_nat n) = Some n"
proof -
  assume "n < b"
  have "hd (show_nat n) \<noteq> CHR ''+''"
    using show_nat_digits[of "hd (show_nat n)" n] not_digit_plus(1) by (metis hd_in_set show_nat_ne)
  with \<open>n < b\<close> show ?thesis
    using parse_digits_show[of n b] show_nat_ne[of n]
    by (cases "show_nat n") (auto simp: parse_unsigned_def simp del: show_nat_ne)
qed

lemma parse_usize_show: "n < 2 ^ 64 \<Longrightarrow> parse_usize (show_nat n) = Some n"
  by (simp add: parse_usize_def parse_unsigned_show)

section \<open>Splitting and joining\<close>

lemma split_on_ne [simp]: "split_on c s \<noteq> []"
  by (induction s) (auto split: list.splits)

lemma split_on_free: "c \<notin> set p \<Longrightarrow> split_on c p = [p]"
  by (induction p) auto

lemma split_on_append: "c \<notin> set p \<Longrightarrow> split_on c (p @ c # s) = p # split_on c s"
  by (induction p) (auto split: list.splits)

lemma split_join:
  "ps \<noteq> [] \<Longrightarrow> (\<forall>p \<in> set ps. c \<notin> set p) \<Longrightarrow> split_on c (join_with c ps) = ps"
  by (induction c ps rule: join_with.induct) (simp_all add: split_on_free split_on_append)

lemma join_split: "join_with c (split_on c s) = s"
proof (induction s)
  case (Cons x s)
  obtain p ps where ps: "split_on c s = p # ps"
    using split_on_ne by (meson neq_Nil_conv)
  with Cons show ?case by (cases ps) auto
qed simp

lemma split_once_append: "c \<notin> set a \<Longrightarrow> split_once c (a @ c # b) = Some (a, b)"
  by (induction a) auto

lemma split_once_free: "c \<notin> set s \<Longrightarrow> split_once c s = None"
  by (induction s) auto

lemma split_once_Some: "split_once c s = Some (a, b) \<Longrightarrow> s = a @ c # b \<and> c \<notin> set a"
  by (induction s arbitrary: a) (auto split: if_splits)

end
