(* ===== verification/Pega_Numa.thy ===== *)
theory Pega_Numa
  imports Pega_Text Pega_Btree
begin

text \<open>
  NUMA utilities of the RDMA crate (\<open>numa.rs\<close>): CPU lists, the CPU topology read from sysfs,
  thread pinning, the GPU affinity reported by \<open>nvidia-smi\<close>, and the page query. Files,
  commands and system calls are the arguments \<open>os_env\<close>; everything computed from what they
  return is modelled.
\<close>

section \<open>Nodes\<close>

type_synonym numa_node = u32

definition node_unknown :: numa_node where
  "node_unknown = - 1"

definition is_unknown :: "numa_node \<Rightarrow> bool" where
  "is_unknown n \<longleftrightarrow> n = - 1"

definition is_valid :: "numa_node \<Rightarrow> bool" where
  "is_valid n \<longleftrightarrow> n \<noteq> - 1"

definition show_node :: "numa_node \<Rightarrow> string" where
  "show_node n = (if is_unknown n then ''UNKNOWN'' else ''NUMA'' @ show_nat (unat n))"

section \<open>CPU lists\<close>

definition show_range :: "nat \<Rightarrow> nat \<Rightarrow> string" where
  "show_range start prev = (if start = prev then show_nat start
     else show_nat start @ ''-'' @ show_nat prev)"

text \<open>The loop of \<open>format_cpu_list\<close>; \<open>prev + 1\<close> is a checked addition.\<close>

fun format_loop :: "nat \<Rightarrow> nat \<Rightarrow> string list \<Rightarrow> nat list \<Rightarrow> string list outcome" where
  "format_loop start prev acc [] = Some (acc @ [show_range start prev])"
| "format_loop start prev acc (cpu # cpus) =
     (if prev + 1 \<ge> 2 ^ 64 then panic
      else if cpu = prev + 1 then format_loop start cpu acc cpus
      else format_loop cpu cpu (acc @ [show_range start prev]) cpus)"

definition format_cpu_list :: "nat list \<Rightarrow> string outcome" where
  "format_cpu_list cpus = (case cpus of
      [] \<Rightarrow> Some []
    | c # cs \<Rightarrow> map_option (join_with (CHR '','')) (format_loop c c [] cs))"

definition parse_cpu :: "string \<Rightarrow> string + nat" where
  "parse_cpu s = (case parse_usize s of
      None \<Rightarrow> Inl (''Invalid CPU ID: '' @ s)
    | Some n \<Rightarrow> Inr n)"

definition parse_cpu_part :: "string \<Rightarrow> string + nat list" where
  "parse_cpu_part part =
     (if CHR ''-'' \<in> set part then
        (case split_on (CHR ''-'') part of
           [a, b] \<Rightarrow> and_then (parse_cpu a) (\<lambda>start. and_then (parse_cpu b) (\<lambda>stop. Inr [start..<Suc stop]))
         | _ \<Rightarrow> Inl (''Invalid CPU range format: '' @ part))
      else and_then (parse_cpu part) (\<lambda>cpu. Inr [cpu]))"

fun parse_cpu_parts :: "string list \<Rightarrow> string + nat list" where
  "parse_cpu_parts [] = Inr []"
| "parse_cpu_parts (part # parts) =
     and_then (parse_cpu_part part) (\<lambda>cs. and_then (parse_cpu_parts parts) (\<lambda>rest. Inr (cs @ rest)))"

definition parse_cpulist :: "string \<Rightarrow> string + nat list" where
  "parse_cpulist s = (if s = [] then Inr []
     else and_then (parse_cpu_parts (split_on (CHR '','') s)) (\<lambda>cpus. Inr (remdups_adj (sort cpus))))"

section \<open>CPU topology from sysfs\<close>

definition node_dir :: string where
  "node_dir = ''/sys/devices/system/node''"

text \<open>One directory entry: skipped, an error, or the CPUs of a node.\<close>

definition read_node_entry :: "os_env \<Rightarrow> string \<Rightarrow> string + (u32 \<times> nat list) option" where
  "read_node_entry os name = (case strip_prefix ''node'' name of
      None \<Rightarrow> Inr None
    | Some rest \<Rightarrow> (case parse_u32 rest of
        None \<Rightarrow> Inl (''Invalid node directory name: '' @ name)
      | Some node_id \<Rightarrow>
          (let path = path_join (path_join node_dir name) ''cpulist'' in
           if \<not> os_exists os path then Inr None
           else case os_read os path of
               Inl e \<Rightarrow> Inl (''Failed to read '' @ path @ '': '' @ e)
             | Inr text \<Rightarrow> and_then (parse_cpulist (trim text)) (\<lambda>cpus. Inr (Some (node_id, cpus))))))"

fun read_node_entries :: "os_env \<Rightarrow> (u32, nat list) btree \<Rightarrow> string list \<Rightarrow> string + (u32, nat list) btree" where
  "read_node_entries os m [] = Inr m"
| "read_node_entries os m (name # names) = (case read_node_entry os name of
      Inl e \<Rightarrow> Inl e
    | Inr None \<Rightarrow> read_node_entries os m names
    | Inr (Some (node_id, cpus)) \<Rightarrow> read_node_entries os (bt_insert m node_id cpus) names)"

definition read_cpu_topology_from_sysfs :: "os_env \<Rightarrow> string + (u32, nat list) btree" where
  "read_cpu_topology_from_sysfs os =
     (if \<not> os_exists os node_dir
      then Inl ''NUMA not supported: /sys/devices/system/node not found''
      else case os_dir os node_dir of
          Inl e \<Rightarrow> Inl (''Failed to read node directory: '' @ e)
        | Inr names \<Rightarrow> and_then (read_node_entries os [] names) (\<lambda>m.
            if m = [] then Inl ''No NUMA nodes found'' else Inr m))"

section \<open>Thread pinning\<close>

definition pin_thread_to_numa_node :: "os_env \<Rightarrow> numa_node \<Rightarrow> string + unit" where
  "pin_thread_to_numa_node os node =
     (if is_unknown node then Inl ''Cannot pin to unknown NUMA node''
      else case read_cpu_topology_from_sysfs os of
          Inl e \<Rightarrow> Inl (''Failed to get NUMA topology: '' @ e)
        | Inr m \<Rightarrow> (case bt_get m node of
            None \<Rightarrow> Inl (''No CPUs found for NUMA node '' @ show_nat (unat node))
          | Some cpus \<Rightarrow>
              if cpus = [] then Inl (''CPU list is empty for NUMA node '' @ show_nat (unat node))
              else case os_set_affinity os cpus of
                  Inl e \<Rightarrow> Inl (''sched_setaffinity failed: '' @ e)
                | Inr _ \<Rightarrow> Inr ()))"

text \<open>
  The closure runs on a new thread after pinning it; a panic in it closes the channel
  before anything was sent.
\<close>

definition run_on_numa :: "os_env \<Rightarrow> numa_node \<Rightarrow> 'a outcome \<Rightarrow> string + 'a" where
  "run_on_numa os node f =
     (if is_unknown node then Inl ''Cannot run on unknown NUMA node''
      else case os_spawn os of
          Inl e \<Rightarrow> Inl (''Failed to spawn NUMA thread: '' @ e)
        | Inr _ \<Rightarrow> (case pin_thread_to_numa_node os node of
            Inl e \<Rightarrow> Inl e
          | Inr _ \<Rightarrow> (case f of
              None \<Rightarrow> Inl ''NUMA thread panicked or closed channel''
            | Some x \<Rightarrow> Inr x)))"

section \<open>GPU affinity\<close>

definition parse_closest_cpu_numa_node :: "string \<Rightarrow> numa_node" where
  "parse_closest_cpu_numa_node output = (case text_lines output of
      [] \<Rightarrow> node_unknown
    | line # _ \<Rightarrow> (case split_on (CHR '':'') line of
        _ # ids # _ \<Rightarrow> (case parse_u32 (trim (hd (split_on (CHR '','') ids))) of
            None \<Rightarrow> node_unknown
          | Some n \<Rightarrow> n)
      | _ \<Rightarrow> node_unknown))"

definition get_device_numa_node :: "os_env \<Rightarrow> u32 \<Rightarrow> numa_node" where
  "get_device_numa_node os device_id =
     (case os_command os [''nvidia-smi'', ''topo'', ''--get-numa-id-of-nearby-cpu'', ''-i'', show_nat (unat device_id)] of
        Some (True, out) \<Rightarrow> parse_closest_cpu_numa_node out
      | _ \<Rightarrow> node_unknown)"

definition get_gpu_numa_affinity :: "os_env \<Rightarrow> (u32 \<times> numa_node) list" where
  "get_gpu_numa_affinity os =
     (case os_command os [''nvidia-smi'', ''--query-gpu=count'', ''--format=csv,noheader''] of
        Some (True, out) \<Rightarrow>
          (let count_str = (case text_lines out of [] \<Rightarrow> [] | l # _ \<Rightarrow> trim l) in
           case parse_u32 count_str of
             None \<Rightarrow> []
           | Some count \<Rightarrow> map (\<lambda>i. (word_of_nat i, get_device_numa_node os (word_of_nat i))) [0..<unat count])
      | _ \<Rightarrow> [])"

section \<open>NumaTopology\<close>

record numa_topology =
  nt_gpu_numa :: "(int, numa_node) btree"
  nt_nodes :: "numa_node list"

definition numa_topology_detect :: "os_env \<Rightarrow> numa_topology" where
  "numa_topology_detect os = \<lparr>
     nt_gpu_numa = fold (\<lambda>(dev, node) m. bt_insert m (sint dev) node) (get_gpu_numa_affinity os) [],
     nt_nodes = (case read_cpu_topology_from_sysfs os of Inr m \<Rightarrow> map fst m | Inl _ \<Rightarrow> [0])\<rparr>"

definition numa_for_gpu :: "numa_topology \<Rightarrow> int \<Rightarrow> numa_node" where
  "numa_for_gpu t device_id = (case bt_get (nt_gpu_numa t) device_id of None \<Rightarrow> node_unknown | Some n \<Rightarrow> n)"

definition gpu_numa_nodes :: "numa_topology \<Rightarrow> numa_node list" where
  "gpu_numa_nodes t = remdups_adj (sort (filter is_valid (map snd (nt_gpu_numa t))))"

definition num_nodes :: "numa_topology \<Rightarrow> nat" where
  "num_nodes t = length (nt_nodes t)"

definition is_multi_numa :: "numa_topology \<Rightarrow> bool" where
  "is_multi_numa t \<longleftrightarrow> length (nt_nodes t) > 1"

section \<open>Page queries\<close>

unbundle bit_operations_syntax

definition page_align :: "u64 \<Rightarrow> u64 \<Rightarrow> u64" where
  "page_align page_size addr = addr AND NOT (page_size - 1)"

definition query_pages_numa :: "os_env \<Rightarrow> u64 list \<Rightarrow> numa_node list" where
  "query_pages_numa os addrs =
     (if addrs = [] then []
      else case os_move_pages os (map (page_align (os_page_size os)) addrs) of
          None \<Rightarrow> replicate (length addrs) node_unknown
        | Some status \<Rightarrow> map (\<lambda>s. if s \<ge> 0 then word_of_int s else node_unknown) status)"

section \<open>CPU lists print and parse\<close>

definition expand :: "nat \<times> nat \<Rightarrow> nat list" where
  "expand = (\<lambda>(a, b). [a..<Suc b])"

lemma show_range_chars: "c \<in> set (show_range a b) \<Longrightarrow> is_digit c \<or> c = CHR ''-''"
  by (auto simp: show_range_def dest: show_nat_digits split: if_splits)

lemma show_nat_no: "CHR ''-'' \<notin> set (show_nat n)" "CHR '','' \<notin> set (show_nat n)"
  using show_nat_digits not_digit_plus by blast+

lemma parse_cpu_show: "n < 2 ^ 64 \<Longrightarrow> parse_cpu (show_nat n) = Inr n"
  by (simp add: parse_cpu_def parse_usize_show)

lemma parse_cpu_part_show:
  assumes "a \<le> b" "b < 2 ^ 64"
  shows "parse_cpu_part (show_range a b) = Inr (expand (a, b))"
proof (cases "a = b")
  case True
  with assms show ?thesis
    by (simp add: show_range_def parse_cpu_part_def show_nat_no parse_cpu_show expand_def)
next
  case False
  have "split_on (CHR ''-'') (show_nat a @ CHR ''-'' # show_nat b) = [show_nat a, show_nat b]"
    by (simp add: split_on_append split_on_free show_nat_no)
  with False assms show ?thesis
    by (simp add: show_range_def parse_cpu_part_def parse_cpu_show expand_def)
qed

text \<open>The loop prints maximal ranges that together are the list.\<close>

lemma format_loop_ranges:
  assumes "sorted_wrt (<) (prev # cpus)" "start \<le> prev" "\<forall>c \<in> set (prev # cpus). c < 2 ^ 64"
  shows "\<exists>rs. rs \<noteq> [] \<and> format_loop start prev acc cpus = Some (acc @ map (\<lambda>(a, b). show_range a b) rs) \<and>
    concat (map expand rs) = [start..<Suc prev] @ cpus \<and> (\<forall>(a, b) \<in> set rs. a \<le> b \<and> b < 2 ^ 64)"
  using assms
proof (induction cpus arbitrary: start prev acc)
  case Nil
  then show ?case
    by (intro exI[of _ "[(start, prev)]"]) (simp add: expand_def)
next
  case (Cons cpu cpus)
  have lt: "prev < cpu" "cpu < 2 ^ 64" and sorted: "sorted_wrt (<) (cpu # cpus)"
    using Cons.prems by auto
  then have no: "\<not> 2 ^ 64 \<le> prev + 1" by linarith
  show ?case
  proof (cases "cpu = prev + 1")
    case True
    with Cons.IH[of cpu start acc] Cons.prems sorted no show ?thesis by simp
  next
    case False
    obtain rs where rs: "rs \<noteq> []"
      "format_loop cpu cpu (acc @ [show_range start prev]) cpus =
        Some ((acc @ [show_range start prev]) @ map (\<lambda>(a, b). show_range a b) rs)"
      "concat (map expand rs) = [cpu..<Suc cpu] @ cpus" "\<forall>(a, b) \<in> set rs. a \<le> b \<and> b < 2 ^ 64"
      using Cons.IH[of cpu cpu "acc @ [show_range start prev]"] Cons.prems sorted by auto
    from False no rs Cons.prems show ?thesis
      by (intro exI[of _ "(start, prev) # rs"]) (auto simp: expand_def)
  qed
qed

lemma parse_cpu_parts_ranges:
  "\<forall>(a, b) \<in> set rs. a \<le> b \<and> b < 2 ^ 64 \<Longrightarrow>
   parse_cpu_parts (map (\<lambda>(a, b). show_range a b) rs) = Inr (concat (map expand rs))"
  by (induction rs) (auto simp: parse_cpu_part_show)

lemma join_with_eq_Nil: "join_with c ps = [] \<Longrightarrow> ps = [] \<or> ps = [[]]"
  by (induction c ps rule: join_with.induct) auto

lemma show_range_ne [simp]: "show_range a b \<noteq> []"
  by (simp add: show_range_def)

lemma strict_sorted_id:
  "sorted_wrt (<) (xs :: nat list) \<Longrightarrow> remdups_adj (sort xs) = xs"
  by (simp add: strict_sorted_iff sorted_sort_id remdups_adj_distinct)

text \<open>
  C40. \<open>format_cpu_list\<close> and \<open>parse_cpulist\<close> are inverse: an increasing list of CPU ids prints
  without overflow, and parsing the text gives the same list back.
\<close>

theorem cpulist_roundtrip:
  assumes "sorted_wrt (<) cpus" "\<forall>c \<in> set cpus. c < 2 ^ 64"
  shows "\<exists>s. format_cpu_list cpus = Some s \<and> parse_cpulist s = Inr cpus"
proof (cases cpus)
  case Nil
  then show ?thesis by (simp add: format_cpu_list_def parse_cpulist_def)
next
  case (Cons c cs)
  then obtain rs where rs: "rs \<noteq> []" "format_loop c c [] cs = Some (map (\<lambda>(a, b). show_range a b) rs)"
    "concat (map expand rs) = [c..<Suc c] @ cs" "\<forall>(a, b) \<in> set rs. a \<le> b \<and> b < 2 ^ 64"
    using format_loop_ranges[of c cs c "[]"] assms by auto
  let ?ps = "map (\<lambda>(a, b). show_range a b) rs"
  have "CHR '','' \<notin> set p" if "p \<in> set ?ps" for p
    using that show_range_chars not_digit_plus(3) by fastforce
  then have split: "split_on (CHR '','') (join_with (CHR '','') ?ps) = ?ps"
    using rs(1) by (intro split_join) auto
  have "join_with (CHR '','') ?ps \<noteq> []"
    using join_with_eq_Nil[of "CHR '',''" ?ps] rs(1) by (cases rs) auto
  then have "parse_cpulist (join_with (CHR '','') ?ps) = Inr (remdups_adj (sort cpus))"
    using split parse_cpu_parts_ranges[OF rs(4)] rs(3) Cons by (simp add: parse_cpulist_def)
  then show ?thesis
    using Cons rs(2) strict_sorted_id[OF assms(1)] by (simp add: format_cpu_list_def)
qed

theorem cpulist_roundtrip_witness:
  "\<exists>s. format_cpu_list [0, 1, 2, 4, 6, 7, 8] = Some s \<and> parse_cpulist s = Inr [0, 1, 2, 4, 6, 7, 8]"
  by (rule cpulist_roundtrip) simp_all

end
