(* ===== verification/Pega_Topology.thy ===== *)
theory Pega_Topology
  imports Pega_Numa Pega_Distance
begin

text \<open>
  NUMA and GPU topology of the CUDA crate (\<open>topology.rs\<close>): detection from sysfs and the
  distance that drives source selection. This crate has a CPU list parser of its own, which
  skips what it cannot read; it is compared with the strict parser of the RDMA crate.
\<close>

record topology =
  tp_numa_nodes :: "u16 list"
  tp_cpus_by_numa :: "(u16, nat list) btree"
  tp_gpu_numa :: "u16 \<rightharpoonup> u16"

definition numa_of_gpu :: "topology \<Rightarrow> u16 \<Rightarrow> u16 option" where
  "numa_of_gpu t gpu = tp_gpu_numa t gpu"

definition topo_distance :: "topology \<Rightarrow> device \<Rightarrow> device \<Rightarrow> nat" where
  "topo_distance t a b =
     (if a = b then 0 else
      let host = (\<lambda>numa gpu. case numa_of_gpu t gpu of
                   Some n \<Rightarrow> if n = numa then 2 else 4
                 | None \<Rightarrow> 3) in
      case (a, b) of
        (Gpu _, Gpu _) \<Rightarrow> 1
      | (Cpu numa, Gpu gpu) \<Rightarrow> host numa gpu
      | (Gpu gpu, Cpu numa) \<Rightarrow> host numa gpu
      | (Cpu _, Cpu _) \<Rightarrow> 3)"

text \<open>\<open>00000008:06:00.0\<close> becomes \<open>0008:06:00.0\<close>.\<close>

definition normalize_domain :: "string \<Rightarrow> string" where
  "normalize_domain bus = (case split_once (CHR '':'') bus of
      Some (domain, rest) \<Rightarrow> if length domain > 4 then drop (length domain - 4) domain @ '':'' @ rest else bus
    | None \<Rightarrow> bus)"

definition cpu_list_part :: "string \<Rightarrow> nat list" where
  "cpu_list_part part = (case split_once (CHR ''-'') part of
      Some (a, b) \<Rightarrow> (case (parse_usize a, parse_usize b) of
          (Some a, Some b) \<Rightarrow> [a..<Suc b]
        | _ \<Rightarrow> [])
    | None \<Rightarrow> (case parse_usize part of Some v \<Rightarrow> [v] | None \<Rightarrow> []))"

definition cuda_parse_cpulist :: "string \<Rightarrow> nat list" where
  "cuda_parse_cpulist s = concat (map cpu_list_part (filter (\<lambda>p. p \<noteq> []) (split_on (CHR '','') s)))"

text \<open>The NUMA node of a PCI device, tried under both spellings of its address.\<close>

definition read_pci_numa :: "os_env \<Rightarrow> string \<Rightarrow> u16 option" where
  "read_pci_numa os c = (case os_read os (''/sys/bus/pci/devices/'' @ c @ ''/numa_node'') of
      Inl _ \<Rightarrow> None
    | Inr s \<Rightarrow> (case parse_i32 (trim s) of
        None \<Rightarrow> None
      | Some v \<Rightarrow> if v \<ge> 0 then Some (word_of_int v) else None))"

definition pci_numa :: "os_env \<Rightarrow> string \<Rightarrow> u16 option" where
  "pci_numa os bus = (case read_pci_numa os bus of
      Some n \<Rightarrow> Some n
    | None \<Rightarrow> read_pci_numa os (normalize_domain bus))"

definition detect_node :: "os_env \<Rightarrow> string \<Rightarrow> (u16 \<times> nat list) option" where
  "detect_node os name = (case strip_prefix ''node'' name of
      None \<Rightarrow> None
    | Some rest \<Rightarrow> (case parse_u16 rest of
        None \<Rightarrow> None
      | Some node \<Rightarrow>
          (let cpulist = (case os_read os (path_join (path_join ''/sys/devices/system/node'' name) ''cpulist'') of
                            Inl _ \<Rightarrow> [] | Inr s \<Rightarrow> s);
               cpus = cuda_parse_cpulist (trim cpulist) in
           if cpus = [] then None else Some (node, cpus))))"

definition detect_cpus :: "os_env \<Rightarrow> (u16, nat list) btree" where
  "detect_cpus os = (case os_dir os ''/sys/devices/system/node'' of
      Inl _ \<Rightarrow> []
    | Inr names \<Rightarrow> fold (\<lambda>name m. case detect_node os name of
          None \<Rightarrow> m | Some (node, cpus) \<Rightarrow> bt_insert m node cpus) names [])"

definition detect_gpu_numa :: "os_env \<Rightarrow> u16 list \<Rightarrow> (u16 \<times> string) list \<Rightarrow> u16 \<rightharpoonup> u16" where
  "detect_gpu_numa os nodes gpus = fold (\<lambda>(idx, bus) m. case pci_numa os bus of
      Some n \<Rightarrow> if n \<in> set nodes then m(idx \<mapsto> n) else m
    | None \<Rightarrow> m) gpus Map.empty"

text \<open>\<open>num_cpus\<close> is the parallelism the system reports.\<close>

definition topology_detect :: "os_env \<Rightarrow> nat \<Rightarrow> (u16 \<times> string) list \<Rightarrow> topology" where
  "topology_detect os num_cpus gpus =
     (let found = detect_cpus os;
          cpus_by_numa = (if found = [] then bt_insert found 0 [0..<num_cpus] else found);
          numa_nodes = map fst cpus_by_numa in
      \<lparr>tp_numa_nodes = numa_nodes, tp_cpus_by_numa = cpus_by_numa,
       tp_gpu_numa = detect_gpu_numa os numa_nodes gpus\<rparr>)"

section \<open>The distance of this backend\<close>

lemma topo_distance_interface: "device_distance (topo_distance t)"
  by unfold_locales
     (auto simp: topo_distance_def Let_def split: device.splits option.splits)

interpretation topo_dist: device_distance "topo_distance t" for t
  by (rule topo_distance_interface)

section \<open>Detection\<close>

lemma fold_invariant:
  assumes "P m" "\<And>x m. x \<in> set xs \<Longrightarrow> P m \<Longrightarrow> P (f x m)"
  shows "P (fold f xs m)"
  using assms by (induction xs arbitrary: m) auto

definition cpu_map_ok :: "(u16, nat list) btree \<Rightarrow> bool" where
  "cpu_map_ok m \<longleftrightarrow> bt_inv m \<and> (\<forall>n c. bt_get m n = Some c \<longrightarrow> c \<noteq> [])"

lemma cpu_map_ok_insert: "cpu_map_ok m \<Longrightarrow> c \<noteq> [] \<Longrightarrow> cpu_map_ok (bt_insert m n c)"
  by (simp add: cpu_map_ok_def bt.inv_insert bt.get_insert)

lemma detect_cpus_ok: "cpu_map_ok (detect_cpus os)"
proof -
  have nil: "cpu_map_ok []" by (simp add: cpu_map_ok_def bt_inv_def)
  have node: "c \<noteq> []" if "detect_node os name = Some (n, c)" for name n c
    using that by (auto simp: detect_node_def Let_def split: option.splits if_splits)
  have step: "cpu_map_ok (case detect_node os name of None \<Rightarrow> m | Some (n, c) \<Rightarrow> bt_insert m n c)"
    if "cpu_map_ok m" for name m
    using that node by (auto simp: cpu_map_ok_insert split: option.splits)
  show ?thesis
    unfolding detect_cpus_def using nil step
    by (auto split: sum.splits intro!: fold_invariant[where P = cpu_map_ok])
qed

lemma detect_gpu_numa_known: "detect_gpu_numa os nodes gpus g = Some n \<Longrightarrow> n \<in> set nodes"
proof -
  have "\<forall>g n. detect_gpu_numa os nodes gpus g = Some n \<longrightarrow> n \<in> set nodes"
    unfolding detect_gpu_numa_def
    by (rule fold_invariant[where P = "\<lambda>m. \<forall>g n. m g = Some n \<longrightarrow> n \<in> set nodes"])
       (auto split: option.splits if_splits)
  then show "detect_gpu_numa os nodes gpus g = Some n \<Longrightarrow> n \<in> set nodes" by blast
qed

text \<open>
  C36. A detected topology is well formed, whatever sysfs holds: it has at least one node, the
  nodes are listed in increasing order, each has at least one CPU (the system reports a
  positive parallelism), and a GPU is only ever assigned to a listed node.
\<close>

theorem topology_detect_wf:
  assumes "num_cpus > 0" "t = topology_detect os num_cpus gpus"
  shows "tp_numa_nodes t \<noteq> [] \<and> sorted_wrt (<) (tp_numa_nodes t) \<and>
    (\<forall>n \<in> set (tp_numa_nodes t). \<exists>c cs. bt_get (tp_cpus_by_numa t) n = Some (c # cs)) \<and>
    (\<forall>g n. numa_of_gpu t g = Some n \<longrightarrow> n \<in> set (tp_numa_nodes t))"
proof -
  define m where "m = (if detect_cpus os = [] then bt_insert (detect_cpus os) 0 [0..<num_cpus] else detect_cpus os)"
  have ok: "cpu_map_ok m"
    using detect_cpus_ok[of os] cpu_map_ok_insert[of "detect_cpus os" "[0..<num_cpus]" 0] assms(1)
    by (auto simp: m_def)
  have ne: "m \<noteq> []"
    by (auto simp: m_def)
  have t: "tp_numa_nodes t = map fst m" "tp_cpus_by_numa t = m"
    "tp_gpu_numa t = detect_gpu_numa os (map fst m) gpus"
    by (simp_all add: assms(2) topology_detect_def Let_def m_def)
  have "\<exists>c cs. bt_get m n = Some (c # cs)" if "n \<in> fst ` set m" for n
  proof -
    from that obtain c where "(n, c) \<in> set m" by auto
    with ok have "bt_get m n = Some c" using bt.entries_get[of m n c] by (simp add: cpu_map_ok_def)
    with ok show ?thesis by (cases c) (auto simp: cpu_map_ok_def)
  qed
  moreover have "n \<in> set (tp_numa_nodes t)" if "numa_of_gpu t g = Some n" for g n
    using that detect_gpu_numa_known[of os "map fst m" gpus g n] t by (simp add: numa_of_gpu_def)
  ultimately show ?thesis
    using ok ne t by (auto simp: cpu_map_ok_def bt_inv_def)
qed

definition ex_os :: os_env where
  "ex_os = \<lparr>os_exists = (\<lambda>_. True), os_dir = (\<lambda>_. Inr [''node0'', ''has_cpu'', ''node1'']),
     os_read = (\<lambda>p. if p = ''/sys/devices/system/node/node0/cpulist'' then Inr ''0-1,4'' else Inl ''gone''),
     os_link = (\<lambda>_. None), os_canonical = (\<lambda>_. None), os_command = (\<lambda>_. None),
     os_set_affinity = (\<lambda>_. Inr ()), os_spawn = Inr (), os_page_size = 4096, os_move_pages = (\<lambda>_. None)\<rparr>"

theorem topology_detect_wf_witness:
  "0 < (8::nat) \<and> tp_numa_nodes (topology_detect ex_os 8 []) \<noteq> [] \<and>
   sorted_wrt (<) (tp_numa_nodes (topology_detect ex_os 8 []))"
  using topology_detect_wf[of 8 "topology_detect ex_os 8 []" ex_os "[]"] by simp

section \<open>Two parsers\<close>

lemma split_on_pair: "split_on c s = [a, b] \<Longrightarrow> split_once c s = Some (a, b)"
proof -
  assume ab: "split_on c s = [a, b]"
  have "join_with c [a, b] = s" using join_split[of c s] ab by simp
  then have s: "s = a @ c # b" by simp
  have free: "\<forall>p \<in> set (split_on c s). c \<notin> set p"
    by (induction s) (auto split: list.splits)
  with ab s show ?thesis by (simp add: split_once_append)
qed

lemma cpu_list_part_strict: "parse_cpu_part p = Inr cs \<Longrightarrow> cpu_list_part p = cs"
proof (cases "CHR ''-'' \<in> set p")
  case True
  assume ok: "parse_cpu_part p = Inr cs"
  with True obtain a b where ab: "split_on (CHR ''-'') p = [a, b]"
    by (auto simp: parse_cpu_part_def split: list.splits)
  with ok True split_on_pair[OF ab] show ?thesis
    by (auto simp: parse_cpu_part_def cpu_list_part_def parse_cpu_def split: option.splits)
next
  case False
  assume "parse_cpu_part p = Inr cs"
  with False show ?thesis
    by (auto simp: parse_cpu_part_def cpu_list_part_def parse_cpu_def split_once_free split: option.splits)
qed

lemma cpu_list_part_ne: "parse_cpu_part p = Inr cs \<Longrightarrow> p \<noteq> []"
  by (auto simp: parse_cpu_part_def parse_cpu_def parse_usize_def parse_unsigned_def)

lemma parse_cpu_parts_strict:
  "parse_cpu_parts ps = Inr cs \<Longrightarrow> concat (map cpu_list_part (filter (\<lambda>p. p \<noteq> []) ps)) = cs"
  by (induction ps arbitrary: cs) (auto dest: cpu_list_part_strict cpu_list_part_ne)

text \<open>
  The two CPU list parsers agree: whenever the strict parser of the RDMA crate accepts a
  text, its result is the sorted, duplicate-free list of the CPUs that the lenient parser of
  the CUDA crate reads from it.
\<close>

theorem cpulist_parsers_agree:
  assumes "parse_cpulist s = Inr cpus"
  shows "cpus = remdups_adj (sort (cuda_parse_cpulist s)) \<and> set cpus = set (cuda_parse_cpulist s)"
proof (cases "s = []")
  case True
  with assms show ?thesis by (simp add: parse_cpulist_def cuda_parse_cpulist_def)
next
  case False
  with assms obtain cs where cs: "parse_cpu_parts (split_on (CHR '','') s) = Inr cs" "cpus = remdups_adj (sort cs)"
    by (auto simp: parse_cpulist_def)
  with parse_cpu_parts_strict[OF cs(1)] show ?thesis
    by (simp add: cuda_parse_cpulist_def)
qed

theorem cpulist_parsers_agree_witness:
  "parse_cpulist ''0-2,8'' = Inr [0, 1, 2, 8] \<and> set (cuda_parse_cpulist ''0-2,8'') = {0, 1, 2, 8}"
proof -
  have "parse_cpulist ''0-2,8'' = Inr [0, 1, 2, 8]"
    by (simp add: parse_cpulist_def parse_cpu_part_def parse_cpu_def parse_usize_def parse_unsigned_def
        digit_val_def Let_def upt_rec)
  with cpulist_parsers_agree[OF this] show ?thesis by auto
qed

end
