(* ===== verification/Pega_Pinned.thy ===== *)
theory Pega_Pinned
  imports Pega_Topology Pega_Region
begin

text \<open>
  NUMA-placed pinned pools (\<open>pinned.rs\<close>): a first-fit allocator over a list of free blocks
  that coalesces on release. The list is abstracted to the set of free offsets; the locale
  \<open>buffer_pool\<close> is the contract the backend relies on, stated on that set. The first-touch
  loop, which decides where the pages of a pool live, is the second part.
\<close>

section \<open>The pool\<close>

definition align_unit :: nat where
  "align_unit = 2097152"

record pinned_pool =
  pp_numa :: u16
  pp_base :: u64
  pp_len :: nat
  pp_registered :: bool
  pp_free :: "(nat \<times> nat) list"
  pp_serial :: nat

text \<open>
  A \<open>PinnedBuf\<close>. The serial number is not in the source: it is the identity of the value,
  which is owned by one holder at a time (behind an \<open>Arc\<close> once it is a replica).
\<close>

record pinned_buf =
  pb_serial :: nat
  pb_numa :: u16
  pb_base :: u64
  pb_off :: nat
  pb_reserved :: nat
  pb_len :: nat

definition div_ceil :: "nat \<Rightarrow> nat \<Rightarrow> nat" where
  "div_ceil a b = (a + b - 1) div b"

text \<open>\<open>bytes.div_ceil(ALIGN) * ALIGN\<close>, a checked multiplication.\<close>

definition reserved_len :: "nat \<Rightarrow> nat outcome" where
  "reserved_len bytes = (let n = div_ceil bytes align_unit * align_unit in
     if n < usize_bound then Some n else panic)"

text \<open>
  \<open>mmap\<close> yields a base address or the text of the error, \<open>register\<close> whether the driver
  accepted the range.
\<close>

definition pool_new ::
    "(nat \<Rightarrow> string + u64) \<Rightarrow> (u64 \<Rightarrow> nat \<Rightarrow> bool) \<Rightarrow> u16 \<Rightarrow> nat \<Rightarrow> pinned_pool res outcome" where
  "pool_new mmap register numa bytes = do {
     len \<leftarrow> reserved_len bytes;
     Some (case mmap len of
         Inl e \<Rightarrow> err NoSpace (''mmap '' @ show_nat len @ '' bytes: '' @ e)
       | Inr base \<Rightarrow> Inr \<lparr>pp_numa = numa, pp_base = base, pp_len = len,
           pp_registered = register base len, pp_free = [(0, len)], pp_serial = 0\<rparr>)
   }"

definition free_bytes :: "pinned_pool \<Rightarrow> nat" where
  "free_bytes p = sum_list (map snd (pp_free p))"

definition largest_free :: "pinned_pool \<Rightarrow> nat" where
  "largest_free p = Max (insert 0 (snd ` set (pp_free p)))"

fun first_fit :: "nat \<Rightarrow> nat \<Rightarrow> (nat \<times> nat) list \<Rightarrow> nat option" where
  "first_fit need i [] = None"
| "first_fit need i ((_, l) # fs) = (if l \<ge> need then Some i else first_fit need (Suc i) fs)"

definition remove_at :: "nat \<Rightarrow> 'a list \<Rightarrow> 'a list" where
  "remove_at i xs = take i xs @ drop (Suc i) xs"

definition insert_at :: "nat \<Rightarrow> 'a \<Rightarrow> 'a list \<Rightarrow> 'a list" where
  "insert_at i x xs = take i xs @ x # drop i xs"

definition pool_alloc :: "nat \<Rightarrow> pinned_pool \<Rightarrow> (pinned_pool \<times> pinned_buf) option outcome" where
  "pool_alloc bytes p = do {
     need \<leftarrow> reserved_len bytes;
     Some (case first_fit need 0 (pp_free p) of
         None \<Rightarrow> None
       | Some i \<Rightarrow>
           (let (off, l) = pp_free p ! i;
                free' = (if l = need then remove_at i (pp_free p)
                         else (pp_free p)[i := (off + need, l - need)]) in
            Some (p\<lparr>pp_free := free', pp_serial := Suc (pp_serial p)\<rparr>,
                  \<lparr>pb_serial = pp_serial p, pb_numa = pp_numa p, pb_base = pp_base p, pb_off = off,
                   pb_reserved = need, pb_len = bytes\<rparr>)))
   }"

text \<open>\<open>partition_point\<close> on a list that is sorted by offset.\<close>

definition partition_point :: "(nat \<Rightarrow> bool) \<Rightarrow> (nat \<times> nat) list \<Rightarrow> nat" where
  "partition_point P fs = length (takeWhile (\<lambda>x. P (fst x)) fs)"

definition coalesce_next :: "nat \<Rightarrow> (nat \<times> nat) list \<Rightarrow> (nat \<times> nat) list" where
  "coalesce_next i fs =
     (if i + 1 < length fs \<and> fst (fs ! i) + snd (fs ! i) = fst (fs ! (i + 1))
      then remove_at (i + 1) (fs[i := (fst (fs ! i), snd (fs ! i) + snd (fs ! (i + 1)))])
      else fs)"

definition coalesce_prev :: "nat \<Rightarrow> (nat \<times> nat) list \<Rightarrow> (nat \<times> nat) list" where
  "coalesce_prev i fs =
     (if i > 0 \<and> fst (fs ! (i - 1)) + snd (fs ! (i - 1)) = fst (fs ! i)
      then remove_at i (fs[i - 1 := (fst (fs ! (i - 1)), snd (fs ! (i - 1)) + snd (fs ! i))])
      else fs)"

definition release_list :: "nat \<Rightarrow> nat \<Rightarrow> (nat \<times> nat) list \<Rightarrow> (nat \<times> nat) list" where
  "release_list off len fs =
     (let i = partition_point (\<lambda>b. b < off) fs in
      coalesce_prev i (coalesce_next i (insert_at i (off, len) fs)))"

definition pool_release :: "nat \<Rightarrow> nat \<Rightarrow> pinned_pool \<Rightarrow> pinned_pool" where
  "pool_release off len p = p\<lparr>pp_free := release_list off len (pp_free p)\<rparr>"

text \<open>\<open>PinnedBuf::as_ptr\<close> and \<open>Drop for PinnedBuf\<close>.\<close>

definition buf_as_ptr :: "pinned_buf \<Rightarrow> u64" where
  "buf_as_ptr b = pb_base b + word_of_nat (pb_off b)"

definition buf_drop :: "pinned_buf \<Rightarrow> pinned_pool \<Rightarrow> pinned_pool" where
  "buf_drop b p = pool_release (pb_off b) (pb_reserved b) p"

section \<open>First touch\<close>

definition page_len :: nat where
  "page_len = 4096"

definition touch_threads :: "topology \<Rightarrow> u16 \<Rightarrow> nat" where
  "touch_threads topo numa = (case bt_get (tp_cpus_by_numa topo) numa of
      None \<Rightarrow> 8
    | Some cs \<Rightarrow> min 32 (max 1 (length cs)))"

text \<open>The \<open>while\<close> loop of one thread: the offsets it writes to.\<close>

function touch_loop :: "nat \<Rightarrow> nat \<Rightarrow> nat list" where
  "touch_loop off stop = (if off < stop then off # touch_loop (off + page_len) stop else [])"
  by auto
termination
  by (relation "measure (\<lambda>(off, stop). stop - off)") (auto simp: page_len_def)

declare touch_loop.simps [simp del]

definition touch_thread :: "nat \<Rightarrow> nat \<Rightarrow> nat \<Rightarrow> nat list" where
  "touch_thread len chunk t = (let start = t * chunk in
     if start \<ge> len then [] else touch_loop start (min (start + chunk) len))"

definition first_touch :: "topology \<Rightarrow> u16 \<Rightarrow> nat \<Rightarrow> nat list" where
  "first_touch topo numa len =
     (let threads = touch_threads topo numa;
          chunk = div_ceil (div_ceil len threads) page_len * page_len in
      concat (map (touch_thread len chunk) [0..<threads]))"

section \<open>Free lists as sets\<close>

definition block :: "nat \<times> nat \<Rightarrow> nat set" where
  "block x = {fst x..<fst x + snd x}"

definition free_set :: "(nat \<times> nat) list \<Rightarrow> nat set" where
  "free_set fs = (\<Union>x \<in> set fs. block x)"

text \<open>
  A well-formed free list of a pool of \<open>hi\<close> bytes: blocks are non-empty, aligned, inside the
  pool, sorted, and never adjacent.
\<close>

definition free_ok :: "nat \<Rightarrow> (nat \<times> nat) list \<Rightarrow> bool" where
  "free_ok hi fs \<longleftrightarrow> sorted_wrt (\<lambda>x y. fst x + snd x < fst y) fs \<and>
     (\<forall>x \<in> set fs. 0 < snd x \<and> fst x + snd x \<le> hi \<and> align_unit dvd fst x \<and> align_unit dvd snd x)"

lemma free_set_simps [simp]:
  "free_set [] = {}"
  "free_set (x # fs) = block x \<union> free_set fs"
  "free_set (fs @ gs) = free_set fs \<union> free_set gs"
  by (simp_all add: free_set_def)

lemma block_iff [simp]: "n \<in> block (a, l) \<longleftrightarrow> a \<le> n \<and> n < a + l"
  by (simp add: block_def)

lemma free_set_bound: "free_ok hi fs \<Longrightarrow> free_set fs \<subseteq> {..<hi}"
  by (fastforce simp: free_ok_def free_set_def block_def)

lemma free_ok_Cons:
  "free_ok hi (x # fs) \<longleftrightarrow> 0 < snd x \<and> fst x + snd x \<le> hi \<and> align_unit dvd fst x \<and> align_unit dvd snd x \<and>
     (\<forall>y \<in> set fs. fst x + snd x < fst y) \<and> free_ok hi fs"
  by (auto simp: free_ok_def)

lemma free_ok_append:
  "free_ok hi (fs @ gs) \<longleftrightarrow> free_ok hi fs \<and> free_ok hi gs \<and> (\<forall>x \<in> set fs. \<forall>y \<in> set gs. fst x + snd x < fst y)"
  by (auto simp: free_ok_def sorted_wrt_append)

lemma first_fit_Some:
  "first_fit need i fs = Some j \<Longrightarrow> i \<le> j \<and> j < i + length fs \<and> need \<le> snd (fs ! (j - i))"
proof (induction need i fs rule: first_fit.induct)
  case (2 need i o' l fs)
  then show ?case
    by (cases "l \<ge> need") (auto simp: nth_Cons' Suc_diff_Suc)
qed simp

lemma first_fit_None: "first_fit need i fs = None \<longleftrightarrow> (\<forall>x \<in> set fs. snd x < need)"
  by (induction need i fs rule: first_fit.induct) auto

text \<open>Taking \<open>need\<close> bytes from the front of a block.\<close>

lemma free_ok_take:
  assumes "free_ok hi (pre @ (off, l) # post)" "0 < need" "need \<le> l" "align_unit dvd need"
  defines "fs' \<equiv> (if l = need then pre @ post else pre @ (off + need, l - need) # post)"
  shows "free_ok hi fs'" "free_set fs' = free_set (pre @ (off, l) # post) - block (off, need)"
    "block (off, need) \<subseteq> free_set (pre @ (off, l) # post)"
proof -
  from assms(1) have ok: "free_ok hi pre" "free_ok hi post" "0 < l" "off + l \<le> hi" "align_unit dvd off" "align_unit dvd l"
    "\<forall>x \<in> set pre. fst x + snd x < off" "\<forall>y \<in> set post. off + l < fst y" "\<forall>x \<in> set pre. \<forall>y \<in> set post. fst x + snd x < fst y"
    by (auto simp: free_ok_append free_ok_Cons)
  have pre: "free_set pre \<inter> block (off, need) = {}"
    using ok(7) by (fastforce simp: free_set_def block_def)
  have post: "free_set post \<inter> block (off, need) = {}"
    using ok(8) assms(3) by (fastforce simp: free_set_def block_def)
  have cut: "block (off, l) - block (off, need) = block (off + need, l - need)"
    using assms(3) by (auto simp: block_def)
  show "free_ok hi fs'"
    using ok assms(2-4) by (auto simp: fs'_def free_ok_append free_ok_Cons dvd_diff_nat)
  show "free_set fs' = free_set (pre @ (off, l) # post) - block (off, need)"
    using pre post cut by (auto simp: fs'_def simp del: block_iff)
  show "block (off, need) \<subseteq> free_set (pre @ (off, l) # post)"
    using assms(3) by auto
qed

text \<open>Joining a new block with its neighbours.\<close>

definition join_right :: "nat \<times> nat \<Rightarrow> (nat \<times> nat) list \<Rightarrow> (nat \<times> nat) list" where
  "join_right x post = (case post of
      y # ys \<Rightarrow> if fst x + snd x = fst y then (fst x, snd x + snd y) # ys else x # post
    | [] \<Rightarrow> [x])"

definition join_left :: "(nat \<times> nat) list \<Rightarrow> (nat \<times> nat) list \<Rightarrow> (nat \<times> nat) list" where
  "join_left pre xs = (if pre \<noteq> [] \<and> fst (last pre) + snd (last pre) = fst (hd xs)
     then butlast pre @ (fst (last pre), snd (last pre) + snd (hd xs)) # tl xs
     else pre @ xs)"

lemma release_list_join:
  assumes "\<forall>x \<in> set pre. fst x < off" "post = [] \<or> off \<le> fst (hd post)"
  shows "release_list off len (pre @ post) = join_left pre (join_right (off, len) post)"
proof -
  have i: "partition_point (\<lambda>b. b < off) (pre @ post) = length pre"
    using assms by (cases post) (simp_all add: partition_point_def takeWhile_append takeWhile_eq_all_conv[THEN iffD2])
  have ins: "insert_at (length pre) (off, len) (pre @ post) = pre @ (off, len) # post"
    by (simp add: insert_at_def)
  have nx: "coalesce_next (length pre) (pre @ (off, len) # post) = pre @ join_right (off, len) post"
    by (cases post) (auto simp: coalesce_next_def join_right_def remove_at_def nth_append)
  have "coalesce_prev (length pre) (pre @ x # xs) = join_left pre (x # xs)" for x xs
    by (cases pre rule: rev_cases)
       (auto simp: coalesce_prev_def join_left_def remove_at_def nth_append list_update_append)
  moreover have "join_right (off, len) post \<noteq> []"
    by (cases post) (simp_all add: join_right_def)
  then obtain x xs where "join_right (off, len) post = x # xs"
    by (meson neq_Nil_conv)
  ultimately show ?thesis
    by (simp add: release_list_def i ins nx)
qed

lemma join_right_ok:
  assumes "free_ok hi post" "0 < len" "off + len \<le> hi" "align_unit dvd off" "align_unit dvd len"
    and "\<forall>y \<in> set post. off + len \<le> fst y"
  shows "free_ok hi (join_right (off, len) post)" "free_set (join_right (off, len) post) = block (off, len) \<union> free_set post"
    "fst (hd (join_right (off, len) post)) = off" "join_right (off, len) post \<noteq> []"
    "\<forall>y \<in> set (tl (join_right (off, len) post)). y \<in> set post"
proof -
  show "fst (hd (join_right (off, len) post)) = off" "join_right (off, len) post \<noteq> []"
    "\<forall>y \<in> set (tl (join_right (off, len) post)). y \<in> set post"
    by (cases post, simp_all add: join_right_def)+
  show "free_ok hi (join_right (off, len) post)"
    using assms by (cases post) (force simp: join_right_def free_ok_Cons free_ok_def)+
  show "free_set (join_right (off, len) post) = block (off, len) \<union> free_set post"
    by (cases post) (auto simp: join_right_def block_def)
qed

lemma join_left_ok:
  assumes "free_ok hi pre" "free_ok hi (x # xs)" "\<forall>y \<in> set pre. fst y + snd y \<le> fst x"
  shows "free_ok hi (join_left pre (x # xs))" "free_set (join_left pre (x # xs)) = free_set pre \<union> free_set (x # xs)"
proof -
  have "free_ok hi (join_left pre (x # xs)) \<and> free_set (join_left pre (x # xs)) = free_set pre \<union> free_set (x # xs)"
  proof (cases pre rule: rev_cases)
    case Nil
    with assms(2) show ?thesis by (simp add: join_left_def)
  next
    case (snoc ys y)
    have lt: "\<forall>z \<in> set ys. fst z + snd z < fst y" and y: "0 < snd y" "fst y + snd y \<le> fst x"
      using assms(1,3) snoc by (auto simp: free_ok_append free_ok_Cons)
    then have before: "\<forall>z \<in> set ys. fst z + snd z < fst x"
      by fastforce
    have after: "\<forall>z \<in> set xs. fst x + snd x < fst z" and x: "0 < snd x"
      using assms(2) by (auto simp: free_ok_Cons)
    show ?thesis
    proof (cases "fst y + snd y = fst x")
      case True
      have blk: "block (fst y, snd y + snd x) = block y \<union> block x"
        using True by (auto simp: block_def)
      have "free_ok hi (ys @ (fst y, snd y + snd x) # xs)"
        using assms(1,2) snoc True lt before after
        by (fastforce simp: free_ok_append free_ok_Cons)
      moreover have "free_set (ys @ (fst y, snd y + snd x) # xs) = free_set pre \<union> free_set (x # xs)"
        using blk snoc by auto
      ultimately show ?thesis
        using snoc True by (simp add: join_left_def)
    next
      case False
      with y have "fst y + snd y < fst x" by linarith
      with assms(1,2) snoc before after have "free_ok hi (pre @ x # xs)"
        by (fastforce simp: free_ok_append free_ok_Cons)
      with snoc False show ?thesis
        by (simp add: join_left_def Un_assoc)
    qed
  qed
  then show "free_ok hi (join_left pre (x # xs))" "free_set (join_left pre (x # xs)) = free_set pre \<union> free_set (x # xs)"
    by simp_all
qed

lemma disjoint_blocks:
  assumes "block (a, l) \<inter> block (b, n) = {}" "0 < l" "0 < n" "a \<le> b"
  shows "a + l \<le> b"
proof (rule ccontr)
  assume "\<not> a + l \<le> b"
  then have "b \<in> block (a, l) \<inter> block (b, n)" using assms(2-4) by simp
  with assms(1) show False by simp
qed

lemma release_list_ok:
  assumes ok: "free_ok hi fs" and len: "0 < len" "off + len \<le> hi" "align_unit dvd off" "align_unit dvd len"
    and disj: "block (off, len) \<inter> free_set fs = {}"
  shows "free_ok hi (release_list off len fs) \<and> free_set (release_list off len fs) = free_set fs \<union> block (off, len)"
proof -
  define pre post where "pre = takeWhile (\<lambda>x. fst x < off) fs" and "post = dropWhile (\<lambda>x. fst x < off) fs"
  have fs: "fs = pre @ post" by (simp add: pre_def post_def)
  have pre: "\<forall>x \<in> set pre. fst x < off" by (auto simp: pre_def dest: set_takeWhileD)
  have post_hd: "post = [] \<or> off \<le> fst (hd post)"
    using hd_dropWhile[of "\<lambda>x. fst x < off" fs] unfolding post_def not_less by metis
  have parts: "free_ok hi pre" "free_ok hi post"
    using ok fs by (simp_all add: free_ok_append)
  have dj: "block (off, len) \<inter> block x = {}" if "x \<in> set fs" for x
    using disj that by (auto simp: free_set_def)
  have "fst x + snd x \<le> off" if "x \<in> set pre" for x
  proof -
    have "0 < snd x" using parts(1) that by (simp add: free_ok_def)
    then show ?thesis
      using disjoint_blocks[of "fst x" "snd x" off len] dj[of x] pre that len(1) fs by (auto simp: Int_commute)
  qed
  moreover have "off + len \<le> fst y" if "y \<in> set post" for y
  proof -
    have "off \<le> fst y"
    proof (cases post)
      case (Cons z zs)
      with that parts(2) post_hd show ?thesis by (fastforce simp: free_ok_Cons)
    qed (use that in simp)
    moreover have "0 < snd y" using parts(2) that by (simp add: free_ok_def)
    ultimately show ?thesis
      using disjoint_blocks[of off len "fst y" "snd y"] dj[of y] that len(1) fs by auto
  qed
  then have "\<forall>y \<in> set post. off + len \<le> fst y" by blast
  note jr = join_right_ok[OF parts(2) len this]
  obtain x xs where xs: "join_right (off, len) post = x # xs" using jr(4) by (cases "join_right (off, len) post") auto
  then have "fst x = off" using jr(3) by simp
  ultimately have "free_ok hi (join_left pre (x # xs)) \<and> free_set (join_left pre (x # xs)) = free_set pre \<union> free_set (x # xs)"
    using join_left_ok[OF parts(1), of x xs] jr(1) xs by simp
  then show ?thesis
    using release_list_join[OF pre post_hd, of len] fs xs jr(2) by auto
qed

text \<open>A well-formed list is determined by the set of its offsets.\<close>

lemma free_ok_canonical:
  "free_ok hi fs \<Longrightarrow> free_ok hi gs \<Longrightarrow> free_set fs = free_set gs \<Longrightarrow> fs = gs"
proof (induction fs arbitrary: gs)
  case Nil
  then show ?case by (cases gs) (auto simp: free_ok_Cons block_def)
next
  case (Cons x fs)
  have x: "0 < snd x" "\<forall>y \<in> set fs. fst x + snd x < fst y" "free_ok hi fs"
    using Cons.prems(1) by (simp_all add: free_ok_Cons)
  have "fst x \<in> free_set (x # fs)" using x(1) by (simp add: block_def)
  then have "gs \<noteq> []" using Cons.prems(3) by auto
  then obtain y gs' where gs: "gs = y # gs'" by (cases gs) auto
  have y: "0 < snd y" "\<forall>z \<in> set gs'. fst y + snd y < fst z" "free_ok hi gs'"
    using Cons.prems(2) gs by (simp_all add: free_ok_Cons)
  have above: "n \<in> free_set fs \<Longrightarrow> fst x + snd x < n" "n \<in> free_set gs' \<Longrightarrow> fst y + snd y < n" for n
    using x(2) y(2) by (fastforce simp: free_set_def block_def)+
  have mem: "n \<in> free_set (x # fs) \<longleftrightarrow> n \<in> free_set (y # gs')" for n
    using Cons.prems(3) gs by simp
  have "fst x = fst y"
    using mem[of "fst x"] mem[of "fst y"] above[of "fst x"] above[of "fst y"] x(1) y(1) by (auto simp: block_def)
  moreover have "snd x = snd y"
    using mem[of "fst x + snd x"] mem[of "fst y + snd y"] above[of "fst x + snd x"] above[of "fst y + snd y"]
      x(1) y(1) \<open>fst x = fst y\<close> by (auto simp: block_def)
  ultimately have "x = y" by (simp add: prod_eq_iff)
  moreover have "free_set fs = free_set gs'"
  proof (rule set_eqI)
    fix n show "n \<in> free_set fs \<longleftrightarrow> n \<in> free_set gs'"
      using mem[of n] above[of n] \<open>x = y\<close> by (auto simp: block_def)
  qed
  ultimately show ?case
    using Cons.IH[OF x(3) y(3)] gs by simp
qed

end
