(* ===== verification/Pega_Pinned_Props.thy ===== *)
theory Pega_Pinned_Props
  imports Pega_Pinned
begin

text \<open>
  What the pinned pools promise to the backend. The locale \<open>buffer_pool\<close> is stated on the
  set of free offsets; its lemmas say that the live buffers and the free space always tile
  the pool. The allocator of \<open>pinned.rs\<close> interprets it.
\<close>

section \<open>The contract\<close>

locale buffer_pool =
  fixes alloc :: "nat \<Rightarrow> 'p \<Rightarrow> ('p \<times> 'b) option outcome"
    and give_back :: "'b \<Rightarrow> 'p \<Rightarrow> 'p"
    and free :: "'p \<Rightarrow> nat set"
    and inv :: "'p \<Rightarrow> bool"
    and cap :: "'p \<Rightarrow> nat"
    and blk :: "'b \<Rightarrow> nat set"
    and fits :: "'b \<Rightarrow> 'p \<Rightarrow> bool"
  assumes free_bound: "inv p \<Longrightarrow> free p \<subseteq> {..<cap p}"
    and fits_bound: "fits b p \<Longrightarrow> blk b \<noteq> {} \<and> blk b \<subseteq> {..<cap p}"
    and alloc_takes: "inv p \<Longrightarrow> 0 < n \<Longrightarrow> alloc n p = Some (Some (p', b)) \<Longrightarrow>
      inv p' \<and> cap p' = cap p \<and> fits b p' \<and> blk b \<subseteq> free p \<and> free p' = free p - blk b"
    and give_back_returns: "inv p \<Longrightarrow> fits b p \<Longrightarrow> blk b \<inter> free p = {} \<Longrightarrow>
      inv (give_back b p) \<and> cap (give_back b p) = cap p \<and> free (give_back b p) = free p \<union> blk b"
    and fits_cap: "fits b p \<Longrightarrow> alloc n p = Some (Some (p', b')) \<Longrightarrow> fits b p'"
    and fits_give_back: "fits b p \<Longrightarrow> fits b (give_back b' p)"
begin

definition tiles :: "'p \<Rightarrow> 'b set \<Rightarrow> bool" where
  "tiles p B \<longleftrightarrow> inv p \<and> (\<forall>b \<in> B. fits b p) \<and> (\<forall>b \<in> B. \<forall>c \<in> B. b \<noteq> c \<longrightarrow> blk b \<inter> blk c = {}) \<and>
     free p = {..<cap p} - (\<Union>b \<in> B. blk b)"

lemma tiles_alloc:
  assumes "tiles p B" "0 < n" "alloc n p = Some (Some (p', b))"
  shows "tiles p' (insert b B)" "b \<notin> B" "\<forall>c \<in> B. blk b \<inter> blk c = {}"
proof -
  have inv: "inv p" using assms(1) by (simp add: tiles_def)
  note a = alloc_takes[OF inv assms(2,3)]
  have apart: "blk b \<inter> blk c = {}" if "c \<in> B" for c
    using a assms(1) that by (auto simp: tiles_def)
  then show "\<forall>c \<in> B. blk b \<inter> blk c = {}" by blast
  show "b \<notin> B" using apart[of b] fits_bound[of b p'] a by auto
  have "fits c p'" if "c \<in> B" for c
    using assms(1,3) that fits_cap by (auto simp: tiles_def)
  moreover have "free p' = {..<cap p'} - (\<Union>c \<in> insert b B. blk c)"
    using a assms(1) by (auto simp: tiles_def)
  ultimately show "tiles p' (insert b B)"
    using a assms(1) apart by (auto simp: tiles_def)
qed

lemma tiles_give_back:
  assumes "tiles p B" "b \<in> B"
  shows "tiles (give_back b p) (B - {b})"
proof -
  have "fits b p" and inv: "inv p" and disj: "blk b \<inter> free p = {}"
    using assms by (auto simp: tiles_def)
  note g = give_back_returns[OF inv this(1) disj]
  have "\<forall>c \<in> B - {b}. blk b \<inter> blk c = {}"
    using assms by (auto simp: tiles_def)
  moreover have "blk b \<subseteq> {..<cap p}"
    using fits_bound[OF \<open>fits b p\<close>] by simp
  ultimately have "free (give_back b p) = {..<cap (give_back b p)} - (\<Union>c \<in> B - {b}. blk c)"
    using g assms by (auto simp: tiles_def)
  with g assms fits_give_back show ?thesis by (auto simp: tiles_def)
qed

lemma tiles_empty: "tiles p {} \<Longrightarrow> free p = {..<cap p}"
  by (simp add: tiles_def)

end

section \<open>The pinned pool keeps it\<close>

definition pool_wf :: "pinned_pool \<Rightarrow> bool" where
  "pool_wf p \<longleftrightarrow> free_ok (pp_len p) (pp_free p)"

definition pool_free :: "pinned_pool \<Rightarrow> nat set" where
  "pool_free p = free_set (pp_free p)"

definition buf_block :: "pinned_buf \<Rightarrow> nat set" where
  "buf_block b = block (pb_off b, pb_reserved b)"

definition buf_fits :: "pinned_buf \<Rightarrow> pinned_pool \<Rightarrow> bool" where
  "buf_fits b p \<longleftrightarrow> 0 < pb_reserved b \<and> pb_off b + pb_reserved b \<le> pp_len p \<and> pb_len b \<le> pb_reserved b \<and>
     align_unit dvd pb_off b \<and> align_unit dvd pb_reserved b \<and> pb_base b = pp_base p \<and> pb_numa b = pp_numa p"

lemma align_unit_pos: "0 < align_unit"
  by (simp add: align_unit_def)

lemma reserved_len_Some:
  assumes "reserved_len n = Some need"
  shows "n \<le> need" "align_unit dvd need" "0 < n \<Longrightarrow> 0 < need"
proof -
  have need: "need = div_ceil n align_unit * align_unit"
    using assms by (simp add: reserved_len_def Let_def split: if_splits)
  have "n + align_unit - 1 = div_ceil n align_unit * align_unit + (n + align_unit - 1) mod align_unit"
    by (simp add: div_ceil_def)
  then show "n \<le> need"
    using need align_unit_pos mod_less_divisor[of align_unit "n + align_unit - 1"] by linarith
  then show "0 < n \<Longrightarrow> 0 < need" by linarith
  show "align_unit dvd need" by (simp add: need)
qed

lemma pool_alloc_Some:
  assumes "pool_alloc n p = Some (Some (p', b))"
  obtains need pre off l post where "reserved_len n = Some need" "pp_free p = pre @ (off, l) # post" "need \<le> l"
    "p' = p\<lparr>pp_free := (if l = need then pre @ post else pre @ (off + need, l - need) # post), pp_serial := Suc (pp_serial p)\<rparr>"
    "b = \<lparr>pb_serial = pp_serial p, pb_numa = pp_numa p, pb_base = pp_base p, pb_off = off, pb_reserved = need, pb_len = n\<rparr>"
proof -
  from assms obtain need where need: "reserved_len n = Some need"
    by (auto simp: pool_alloc_def bind_eq_Some_conv)
  with assms obtain i where i: "first_fit need 0 (pp_free p) = Some i"
    by (auto simp: pool_alloc_def split: option.splits)
  then have lt: "i < length (pp_free p)" "need \<le> snd (pp_free p ! i)"
    using first_fit_Some[OF i] by simp_all
  obtain off l where ol: "pp_free p ! i = (off, l)" by fastforce
  define pre post where "pre = take i (pp_free p)" and "post = drop (Suc i) (pp_free p)"
  have split: "pp_free p = pre @ (off, l) # post"
    using id_take_nth_drop[OF lt(1)] ol by (simp add: pre_def post_def)
  have "length pre = i" using lt(1) by (simp add: pre_def)
  then have upd: "(pp_free p)[i := x] = pre @ x # post" "remove_at i (pp_free p) = pre @ post" for x
    by (simp_all add: split list_update_append remove_at_def)
  show thesis
    using assms need i ol lt upd
    by (intro that[OF need split]) (auto simp: pool_alloc_def Let_def)
qed

lemma pool_alloc_law:
  assumes "pool_wf p" "0 < n" "pool_alloc n p = Some (Some (p', b))"
  shows "pool_wf p' \<and> pp_len p' = pp_len p \<and> buf_fits b p' \<and> buf_block b \<subseteq> pool_free p \<and>
    pool_free p' = pool_free p - buf_block b"
  using assms(3)
proof (cases rule: pool_alloc_Some)
  case (1 need pre off l post)
  note res = reserved_len_Some[OF 1(1)]
  from assms(1) have ok: "free_ok (pp_len p) (pre @ (off, l) # post)"
    by (simp add: pool_wf_def 1(2))
  note t = free_ok_take[OF ok res(3)[OF assms(2)] 1(3) res(2)]
  have "off + l \<le> pp_len p" "align_unit dvd off"
    using ok by (auto simp: free_ok_append free_ok_Cons)
  then have "buf_fits b p'"
    using 1(3-5) res assms(2) by (simp add: buf_fits_def)
  with t 1 show ?thesis
    by (simp add: pool_wf_def pool_free_def buf_block_def)
qed

lemma pool_drop_law:
  assumes "pool_wf p" "buf_fits b p" "buf_block b \<inter> pool_free p = {}"
  shows "pool_wf (buf_drop b p) \<and> pp_len (buf_drop b p) = pp_len p \<and>
    pool_free (buf_drop b p) = pool_free p \<union> buf_block b"
  using release_list_ok[of "pp_len p" "pp_free p" "pb_reserved b" "pb_off b"] assms
  by (simp add: pool_wf_def pool_free_def buf_block_def buf_fits_def buf_drop_def pool_release_def)

lemma pool_alloc_pool:
  assumes "pool_alloc n p = Some (Some (p', b))"
  shows "pp_len p' = pp_len p" "pp_base p' = pp_base p" "pp_numa p' = pp_numa p" "pp_serial p' = Suc (pp_serial p)"
    "pb_len b = n" "pb_serial b = pp_serial p" "pb_numa b = pp_numa p" "pb_base b = pp_base p"
  using assms by (cases rule: pool_alloc_Some, simp)+

interpretation pinned: buffer_pool pool_alloc buf_drop pool_free pool_wf pp_len buf_block buf_fits
proof
  show "pool_wf p \<Longrightarrow> pool_free p \<subseteq> {..<pp_len p}" for p
    unfolding pool_wf_def pool_free_def by (rule free_set_bound)
  show "buf_fits b p \<Longrightarrow> buf_block b \<noteq> {} \<and> buf_block b \<subseteq> {..<pp_len p}" for b p
    by (auto simp: buf_fits_def buf_block_def block_def)
  show "pool_wf p' \<and> pp_len p' = pp_len p \<and> buf_fits b p' \<and> buf_block b \<subseteq> pool_free p \<and> pool_free p' = pool_free p - buf_block b"
    if "pool_wf p" "0 < n" "pool_alloc n p = Some (Some (p', b))" for p n p' b
    using pool_alloc_law[OF that] .
  show "pool_wf (buf_drop b p) \<and> pp_len (buf_drop b p) = pp_len p \<and> pool_free (buf_drop b p) = pool_free p \<union> buf_block b"
    if "pool_wf p" "buf_fits b p" "buf_block b \<inter> pool_free p = {}" for p b
    using pool_drop_law[OF that] .
  show "buf_fits b p'" if "buf_fits b p" "pool_alloc n p = Some (Some (p', b'))" for b p n p' b'
    using that(1) pool_alloc_pool[OF that(2)] by (simp add: buf_fits_def)
  show "buf_fits b (buf_drop b' p)" if "buf_fits b p" for b p b'
    using that by (simp add: buf_fits_def buf_drop_def pool_release_def)
qed

section \<open>Runs of a pool\<close>

text \<open>A pool and the buffers it has handed out; allocations are of at least one byte.\<close>

inductive pool_run :: "pinned_pool \<Rightarrow> pinned_pool \<Rightarrow> pinned_buf set \<Rightarrow> bool" for p0 where
  start: "pool_run p0 p0 {}"
| allocate: "pool_run p0 p B \<Longrightarrow> 0 < n \<Longrightarrow> pool_alloc n p = Some (Some (p', b)) \<Longrightarrow> pool_run p0 p' (insert b B)"
| drop_buf: "pool_run p0 p B \<Longrightarrow> b \<in> B \<Longrightarrow> pool_run p0 (buf_drop b p) (B - {b})"

lemma pool_new_tiles:
  assumes "pool_new mmap reg numa bytes = Some (Inr p)" "0 < bytes"
  shows "pinned.tiles p {}" "pp_free p = [(0, pp_len p)]" "bytes \<le> pp_len p" "align_unit dvd pp_len p"
proof -
  from assms(1) obtain len where len: "reserved_len bytes = Some len"
    by (auto simp: pool_new_def bind_eq_Some_conv)
  with assms(1) have p: "reserved_len bytes = Some (pp_len p)" "pp_free p = [(0, pp_len p)]"
    by (cases "mmap len"; auto simp: pool_new_def)+
  note r = reserved_len_Some[OF p(1)]
  show "pp_free p = [(0, pp_len p)]" "bytes \<le> pp_len p" "align_unit dvd pp_len p" using p r by simp_all
  show "pinned.tiles p {}"
    using p r assms(2) by (auto simp: pinned.tiles_def pool_wf_def free_ok_def pool_free_def block_def)
qed

lemma pool_run_tiles:
  assumes "pool_run p0 p B" "pinned.tiles p0 {}"
  shows "pinned.tiles p B \<and> pp_len p = pp_len p0 \<and> finite B"
  using assms
proof (induction rule: pool_run.induct)
  case (allocate p B n p' b)
  then show ?case using pinned.tiles_alloc(1) pool_alloc_pool(1) by fastforce
next
  case (drop_buf p B b)
  then show ?case using pinned.tiles_give_back[of p B b] by (simp add: buf_drop_def pool_release_def)
qed simp

lemma free_bytes_card: "free_ok hi fs \<Longrightarrow> sum_list (map snd fs) = card (free_set fs) \<and> finite (free_set fs)"
proof (induction fs)
  case (Cons x fs)
  then have rest: "sum_list (map snd fs) = card (free_set fs)" "finite (free_set fs)"
    "\<forall>y \<in> set fs. fst x + snd x < fst y"
    by (auto simp: free_ok_Cons)
  have "block x \<inter> free_set fs = {}"
    using rest(3) by (fastforce simp: free_set_def block_def)
  with rest show ?case by (simp add: card_Un_disjoint block_def)
qed simp

lemma tiles_bytes:
  assumes "pinned.tiles p B" "finite B"
  shows "free_bytes p + (\<Sum>b \<in> B. pb_reserved b) = pp_len p"
proof -
  have ok: "free_ok (pp_len p) (pp_free p)" and free: "pool_free p = {..<pp_len p} - (\<Union>b \<in> B. buf_block b)"
    and apart: "\<forall>b \<in> B. \<forall>c \<in> B. b \<noteq> c \<longrightarrow> buf_block b \<inter> buf_block c = {}"
    and fits: "\<forall>b \<in> B. buf_fits b p"
    using assms(1) by (simp_all add: pinned.tiles_def pool_wf_def)
  have "card (\<Union>b \<in> B. buf_block b) = (\<Sum>b \<in> B. card (buf_block b))"
    using assms(2) apart by (intro card_UN_disjoint) (auto simp: buf_block_def block_def)
  also have "\<dots> = (\<Sum>b \<in> B. pb_reserved b)" by (simp add: buf_block_def block_def)
  finally have live: "card (\<Union>b \<in> B. buf_block b) = (\<Sum>b \<in> B. pb_reserved b)" .
  have sub: "(\<Union>b \<in> B. buf_block b) \<subseteq> {..<pp_len p}"
    using fits pinned.fits_bound by blast
  then have "card (pool_free p) = pp_len p - card (\<Union>b \<in> B. buf_block b)"
    unfolding free by (subst card_Diff_subset) (auto intro: finite_subset)
  moreover have "card (\<Union>b \<in> B. buf_block b) \<le> pp_len p"
    using card_mono[OF _ sub] by simp
  ultimately show ?thesis
    using live free_bytes_card[OF ok] by (simp add: free_bytes_def pool_free_def)
qed

lemma tiles_empty_list:
  assumes "pinned.tiles p {}" "0 < pp_len p" "align_unit dvd pp_len p"
  shows "pp_free p = [(0, pp_len p)]"
proof (rule free_ok_canonical[of "pp_len p"])
  have "free_set [(0, pp_len p)] = {..<pp_len p}"
    by (simp add: block_def lessThan_atLeast0)
  then show "free_set (pp_free p) = free_set [(0, pp_len p)]"
    using pinned.tiles_empty[OF assms(1)] by (simp add: pool_free_def)
  show "free_ok (pp_len p) (pp_free p)"
    using assms(1) by (simp add: pinned.tiles_def pool_wf_def)
  show "free_ok (pp_len p) [(0, pp_len p)]"
    using assms(2,3) by (simp add: free_ok_def)
qed


text \<open>The range of a block of a well-formed list cannot be exceeded by a run of free bytes.\<close>

lemma contiguous_in_block:
  assumes "free_ok hi fs" "0 < n" "{a..<a + n} \<subseteq> free_set fs"
  shows "\<exists>x \<in> set fs. {a..<a + n} \<subseteq> block x"
proof -
  from assms(2,3) have "a \<in> free_set fs" by auto
  then obtain x where x: "x \<in> set fs" "a \<in> block x" by (auto simp: free_set_def)
  have "a + n \<le> fst x + snd x"
  proof (rule ccontr)
    assume "\<not> a + n \<le> fst x + snd x"
    with x(2) have "fst x + snd x \<in> {a..<a + n}" by (auto simp: block_def)
    with assms(3) obtain y where y: "y \<in> set fs" "fst x + snd x \<in> block y" by (auto simp: free_set_def)
    obtain i j where ij: "i < length fs" "j < length fs" "x = fs ! i" "y = fs ! j"
      using x(1) y(1) by (metis in_set_conv_nth)
    have sorted: "\<And>i j. i < j \<Longrightarrow> j < length fs \<Longrightarrow> fst (fs ! i) + snd (fs ! i) < fst (fs ! j)"
      using assms(1) by (simp add: free_ok_def sorted_wrt_iff_nth_less)
    show False
      using sorted[of i j] sorted[of j i] ij y(2) x(2) by (cases i j rule: linorder_cases) (auto simp: block_def)
  qed
  with x show ?thesis by (auto simp: block_def intro!: bexI[of _ x])
qed


section \<open>First touch\<close>

lemma lt_div_ceil: "0 < b \<Longrightarrow> a < div_ceil n b \<longleftrightarrow> a * b < n"
proof -
  assume b: "0 < b"
  have "a < div_ceil n b \<longleftrightarrow> (a + 1) * b \<le> n + b - 1"
    using b less_eq_div_iff_mult_less_eq[OF b, of "a + 1" "n + b - 1"] by (auto simp: div_ceil_def Suc_le_eq)
  also have "\<dots> \<longleftrightarrow> a * b < n" using b by auto
  finally show ?thesis .
qed

lemma nat_eq_by_less: "(\<And>a::nat. a < m \<longleftrightarrow> a < n) \<Longrightarrow> m = n"
  by (metis linorder_neqE_nat less_irrefl)

lemma page_len_pos: "0 < page_len"
  by (simp add: page_len_def)

lemma touch_loop_pages:
  "touch_loop (a * page_len) stop = map (\<lambda>i. i * page_len) [a..<div_ceil stop page_len]"
proof (induction "div_ceil stop page_len - a" arbitrary: a)
  case 0
  then have "\<not> a * page_len < stop" using lt_div_ceil[OF page_len_pos, of a stop] by simp
  with 0 show ?case by (simp add: touch_loop.simps[of "a * page_len"])
next
  case (Suc n)
  then have lt: "a < div_ceil stop page_len" by simp
  then have "a * page_len < stop" using lt_div_ceil[OF page_len_pos, of a stop] by simp
  moreover have "touch_loop (Suc a * page_len) stop = map (\<lambda>i. i * page_len) [Suc a..<div_ceil stop page_len]"
    using Suc by (intro Suc.hyps(1)) simp
  ultimately show ?case
    using lt by (simp add: touch_loop.simps[of "a * page_len"] upt_conv_Cons add.commute)
qed

lemma touch_thread_pages:
  "touch_thread len (c * page_len) t = map (\<lambda>i. i * page_len) [t * c..<min (t * c + c) (div_ceil len page_len)]"
proof -
  have stop: "div_ceil (min (t * (c * page_len) + c * page_len) len) page_len = min (t * c + c) (div_ceil len page_len)"
  proof (rule nat_eq_by_less)
    fix a
    have "a * page_len < t * (c * page_len) + c * page_len \<longleftrightarrow> a < t * c + c"
      using mult_less_cancel2[of a page_len "t * c + c"] page_len_pos by (simp add: algebra_simps)
    then show "a < div_ceil (min (t * (c * page_len) + c * page_len) len) page_len \<longleftrightarrow> a < min (t * c + c) (div_ceil len page_len)"
      by (simp add: lt_div_ceil[OF page_len_pos])
  qed
  show ?thesis
  proof (cases "t * (c * page_len) \<ge> len")
    case True
    then have "\<not> t * c < div_ceil len page_len"
      by (simp add: lt_div_ceil[OF page_len_pos] mult.assoc)
    with True show ?thesis by (simp add: touch_thread_def)
  next
    case False
    then have "touch_thread len (c * page_len) t = touch_loop (t * c * page_len) (min (t * (c * page_len) + c * page_len) len)"
      by (simp add: touch_thread_def Let_def mult.assoc)
    then show ?thesis by (simp only: touch_loop_pages stop)
  qed
qed

lemma concat_chunks:
  "concat (map (\<lambda>t. map f [t * c..<min (t * c + c) N]) [0..<T]) = map f [0..<min (T * c) N]"
proof (induction T)
  case (Suc T)
  have "[0..<min (T * c) N] @ [T * c..<min (T * c + c) N] = [0..<min (T * c + c) N]"
  proof (cases "N \<le> T * c")
    case False
    then have "min (T * c) N = T * c" "T * c \<le> min (T * c + c) N" by auto
    then show ?thesis using upt_add_eq_append[of 0 "T * c" "min (T * c + c) N - T * c"] by simp
  qed (simp add: min_def)
  then have "map f [0..<min (T * c) N] @ map f [T * c..<min (T * c + c) N] = map f [0..<min (T * c + c) N]"
    by (simp flip: map_append)
  with Suc show ?case by (simp add: add.commute)
qed simp

lemma touch_threads_pos: "0 < touch_threads topo numa"
  by (auto simp: touch_threads_def less_max_iff_disj split: option.splits)

text \<open>
  C35. First touch is exact for every topology and pool size: the threads together write one
  byte in every page of the pool, each page once, and never outside the mapping.
\<close>

theorem first_touch_exact:
  "first_touch topo numa len = map (\<lambda>i. i * page_len) [0..<div_ceil len page_len] \<and>
   list_all (\<lambda>off. off < len) (first_touch topo numa len)"
proof -
  let ?T = "touch_threads topo numa"
  define c where "c = div_ceil (div_ceil len ?T) page_len"
  have "div_ceil len page_len \<le> ?T * c"
  proof (rule ccontr)
    assume "\<not> div_ceil len page_len \<le> ?T * c"
    then have "?T * c * page_len < len" by (simp add: not_le lt_div_ceil[OF page_len_pos])
    then have "c * page_len * ?T < len" by (simp add: ac_simps)
    then have "c * page_len < div_ceil len ?T" using lt_div_ceil[OF touch_threads_pos] by blast
    then have "c < div_ceil (div_ceil len ?T) page_len" using lt_div_ceil[OF page_len_pos] by blast
    then show False by (simp add: c_def)
  qed
  moreover have "touch_thread len (c * page_len) =
      (\<lambda>t. map (\<lambda>i. i * page_len) [t * c..<min (t * c + c) (div_ceil len page_len)])"
    by (rule ext) (rule touch_thread_pages)
  ultimately have all: "first_touch topo numa len = map (\<lambda>i. i * page_len) [0..<div_ceil len page_len]"
    by (simp add: first_touch_def Let_def concat_chunks c_def[symmetric] min_absorb2)
  then show ?thesis
    by (auto simp: list_all_iff lt_div_ceil[OF page_len_pos])
qed

section \<open>Empty allocations\<close>

text \<open>
  A zero-length slot reserves nothing but shares its offset with the free block it was found
  in. Here an empty buffer and a one-byte buffer are taken from a pool of two units and
  released again.
\<close>

definition ex_pool :: pinned_pool where
  "ex_pool = \<lparr>pp_numa = 0, pp_base = 0, pp_len = 4194304, pp_registered = True, pp_free = [(0, 4194304)], pp_serial = 0\<rparr>"

definition empty_then_one :: "pinned_pool option outcome" where
  "empty_then_one = do {
     x \<leftarrow> pool_alloc 0 ex_pool;
     case x of None \<Rightarrow> Some None | Some (p1, b1) \<Rightarrow> do {
       y \<leftarrow> pool_alloc 1 p1;
       case y of None \<Rightarrow> Some None | Some (p2, b2) \<Rightarrow> Some (Some (buf_drop b2 (buf_drop b1 p2)))
     }
   }"

lemmas pool_eval =
  pool_alloc_def reserved_len_def div_ceil_def align_unit_def Let_def remove_at_def insert_at_def
  buf_drop_def pool_release_def release_list_def partition_point_def coalesce_next_def coalesce_prev_def

text \<open>
  After an empty and a one-byte buffer have been allocated and released, every byte of
  the pool is free, but the free list is split for good: the pool no longer serves a request
  for its own capacity, which it served before.
\<close>

theorem empty_buffer_fragments:
  "\<exists>p. empty_then_one = Some (Some p) \<and> free_bytes p = pp_len p \<and> pool_alloc (pp_len p) p = Some None \<and>
     (\<exists>p' b. pool_alloc (pp_len p) ex_pool = Some (Some (p', b)))"
proof -
  let ?p = "ex_pool\<lparr>pp_free := [(0, 2097152), (0, 0), (2097152, 2097152)], pp_serial := 2\<rparr>"
  let ?b = "\<lparr>pb_serial = 0, pb_numa = 0, pb_base = 0, pb_off = 0, pb_reserved = 0, pb_len = 0\<rparr>"
  have 1: "pool_alloc 0 ex_pool = Some (Some (ex_pool\<lparr>pp_serial := 1\<rparr>, ?b))"
    by (simp add: ex_pool_def pool_eval)
  have 2: "pool_alloc 1 (ex_pool\<lparr>pp_serial := 1\<rparr>) =
      Some (Some (ex_pool\<lparr>pp_free := [(2097152, 2097152)], pp_serial := 2\<rparr>,
        ?b\<lparr>pb_serial := 1, pb_reserved := 2097152, pb_len := 1\<rparr>))"
    by (simp add: ex_pool_def pool_eval)
  have 3: "buf_drop ?b (ex_pool\<lparr>pp_free := [(2097152, 2097152)], pp_serial := 2\<rparr>) =
      ex_pool\<lparr>pp_free := [(0, 0), (2097152, 2097152)], pp_serial := 2\<rparr>"
    by (simp add: ex_pool_def pool_eval)
  have 4: "buf_drop (?b\<lparr>pb_serial := 1, pb_reserved := 2097152, pb_len := 1\<rparr>)
      (ex_pool\<lparr>pp_free := [(0, 0), (2097152, 2097152)], pp_serial := 2\<rparr>) = ?p"
    by (simp add: ex_pool_def pool_eval)
  have "empty_then_one = Some (Some ?p)"
    unfolding empty_then_one_def by (simp only: 1 2 3 4 bind.bind_lunit option.case prod.case)
  moreover have "free_bytes ?p = pp_len ?p" "pool_alloc (pp_len ?p) ?p = Some None"
    "\<exists>p' b. pool_alloc (pp_len ?p) ex_pool = Some (Some (p', b))"
    by (simp_all add: ex_pool_def pool_eval free_bytes_def)
  ultimately show ?thesis by blast
qed



end
