(* ===== verification/Pega_Local.thy ===== *)
theory Pega_Local
  imports Pega_Copy Pega_Pinned_Props Pega_Store
begin

text \<open>
  The single-node CUDA backend (\<open>local.rs\<close>). Its state is spread over the metadata mutex, one
  mutex per pinned pool and reference counts. A world holds all of it: the objects and the
  eviction queues, the pools, the process memory, and the buffers that are held outside the
  object map, by a \<open>put\<close> that has not published them yet (\<open>lw_placed\<close>) or by a \<open>get\<close> that is
  still copying from them (\<open>lw_readers\<close>, the clones of their \<open>Arc\<close>s). A buffer returns to its
  pool when its last holder drops it.
\<close>

section \<open>State\<close>

datatype lreplica_data = Pinned pinned_buf | LExternal "seg list" u64

record lreplica =
  lr_device :: device
  lr_tier :: tier
  lr_misplaced :: bool
  lr_data :: lreplica_data

record lslot =
  ls_replicas :: "lreplica list"
  ls_writing :: bool

record lobject =
  lo_spec :: object_spec
  lo_slots :: "lslot list"

type_synonym lobjects = "(key, lobject) btree"

record local_state =
  lst_objects :: lobjects
  lst_fifo :: "device \<rightharpoonup> (key \<times> u32) list"

record local_inner =
  li_info :: access_info
  li_topo :: topology
  li_gpus :: "u16 list"
  li_engine :: cuda_engine

record local_world =
  lw_counter :: u64
  lw_state :: local_state
  lw_pools :: "(u16, pinned_pool) btree"
  lw_placed :: "pinned_buf list"
  lw_readers :: "pinned_buf list"
  lw_mem :: host_mem

abbreviation lw_objects :: "local_world \<Rightarrow> lobjects" where
  "lw_objects w \<equiv> lst_objects (lw_state w)"

definition set_objects :: "lobjects \<Rightarrow> local_world \<Rightarrow> local_world" where
  "set_objects objs w = w\<lparr>lw_state := (lw_state w)\<lparr>lst_objects := objs\<rparr>\<rparr>"

definition set_fifo :: "device \<Rightarrow> (key \<times> u32) list \<Rightarrow> local_world \<Rightarrow> local_world" where
  "set_fifo d q w = w\<lparr>lw_state := (lw_state w)\<lparr>lst_fifo := (lst_fifo (lw_state w))(d \<mapsto> q)\<rparr>\<rparr>"

definition set_pool :: "u16 \<Rightarrow> pinned_pool \<Rightarrow> local_world \<Rightarrow> local_world" where
  "set_pool n p w = w\<lparr>lw_pools := bt_insert (lw_pools w) n p\<rparr>"

section \<open>Reference counts\<close>

definition replica_bufs :: "lreplica \<Rightarrow> pinned_buf list" where
  "replica_bufs r = (case lr_data r of Pinned b \<Rightarrow> [b] | LExternal _ _ \<Rightarrow> [])"

definition slot_bufs :: "lslot \<Rightarrow> pinned_buf list" where
  "slot_bufs s = concat (map replica_bufs (ls_replicas s))"

definition lobj_bufs :: "lobject \<Rightarrow> pinned_buf list" where
  "lobj_bufs obj = concat (map slot_bufs (lo_slots obj))"

definition all_bufs :: "lobjects \<Rightarrow> pinned_buf list" where
  "all_bufs objs = concat (map (\<lambda>(_, obj). lobj_bufs obj) objs)"

definition referenced :: "local_world \<Rightarrow> pinned_buf \<Rightarrow> bool" where
  "referenced w b \<longleftrightarrow> b \<in> set (all_bufs (lw_objects w)) \<or> b \<in> set (lw_placed w) \<or> b \<in> set (lw_readers w)"

text \<open>A reference has gone; the buffer is dropped if it was the last one.\<close>

definition drop_ref :: "pinned_buf \<Rightarrow> local_world \<Rightarrow> local_world" where
  "drop_ref b w = (if referenced w b then w
     else case bt_get (lw_pools w) (pb_numa b) of
         None \<Rightarrow> w
       | Some p \<Rightarrow> set_pool (pb_numa b) (buf_drop b p) w)"

definition drop_refs :: "pinned_buf list \<Rightarrow> local_world \<Rightarrow> local_world" where
  "drop_refs bs w = fold drop_ref bs w"

text \<open>Buffers owned by a running \<open>put\<close>.\<close>

definition hold :: "pinned_buf \<Rightarrow> local_world \<Rightarrow> local_world" where
  "hold b w = w\<lparr>lw_placed := b # lw_placed w\<rparr>"

definition let_go :: "pinned_buf \<Rightarrow> local_world \<Rightarrow> local_world" where
  "let_go b w = drop_ref b (w\<lparr>lw_placed := remove1 b (lw_placed w)\<rparr>)"

definition let_go_all :: "pinned_buf list \<Rightarrow> local_world \<Rightarrow> local_world" where
  "let_go_all bs w = fold let_go bs w"

text \<open>Clones held by a running \<open>get\<close>.\<close>

definition clone_refs :: "pinned_buf list \<Rightarrow> local_world \<Rightarrow> local_world" where
  "clone_refs bs w = w\<lparr>lw_readers := bs @ lw_readers w\<rparr>"

definition drop_clone :: "pinned_buf \<Rightarrow> local_world \<Rightarrow> local_world" where
  "drop_clone b w = drop_ref b (w\<lparr>lw_readers := remove1 b (lw_readers w)\<rparr>)"

definition drop_clones :: "pinned_buf list \<Rightarrow> local_world \<Rightarrow> local_world" where
  "drop_clones bs w = fold drop_clone bs w"

section \<open>Replicas and regions\<close>

definition ldata_segs :: "lreplica_data \<Rightarrow> seg list" where
  "ldata_segs d = (case d of
      Pinned b \<Rightarrow> [(buf_as_ptr b, word_of_nat (pb_len b))]
    | LExternal segs _ \<Rightarrow> segs)"

definition local_location :: "local_inner \<Rightarrow> device \<Rightarrow> tier \<Rightarrow> location" where
  "local_location li d t = \<lparr>loc_node = ai_node (li_info li), loc_device = d, loc_tier = t\<rparr>"

definition is_external_of :: "u64 \<Rightarrow> lreplica \<Rightarrow> bool" where
  "is_external_of rid r = (case lr_data r of LExternal _ i \<Rightarrow> i = rid | Pinned _ \<Rightarrow> False)"

definition local_retire_region :: "u64 \<Rightarrow> local_world \<Rightarrow> local_world" where
  "local_retire_region rid w = set_objects (bt_map_values (\<lambda>obj. obj\<lparr>lo_slots := map (\<lambda>s.
     s\<lparr>ls_replicas := filter (\<lambda>r. \<not> is_external_of rid r) (ls_replicas s)\<rparr>) (lo_slots obj)\<rparr>) (lw_objects w)) w"

definition local_register :: "local_inner \<Rightarrow> u64 \<Rightarrow> u64 \<Rightarrow> device \<Rightarrow> (local_world, mem_region) handler" where
  "local_register li addr len device w =
     (let (rid, c) = next_id (lw_counter w);
          w' = w\<lparr>lw_counter := c\<rparr> in
      case device of
        Gpu g \<Rightarrow> (case gpu_served (li_gpus li) g of
            Inl e \<Rightarrow> Some (w', Inl e)
          | Inr _ \<Rightarrow> Some (w', Inr (with_id rid addr len device)))
      | Cpu _ \<Rightarrow> Some (w', Inr (with_id rid addr len device)))"

section \<open>Allocation and eviction\<close>

definition no_space :: "u16 \<Rightarrow> nat \<Rightarrow> error" where
  "no_space numa len = with_context ''len'' (CtxNum len)
     (with_context ''device'' (CtxDevice (Cpu numa)) (error_new NoSpace ''pool cannot fit slot''))"

definition pinned_on :: "device \<Rightarrow> lreplica \<Rightarrow> bool" where
  "pinned_on d r \<longleftrightarrow> lr_device r = d \<and> (case lr_data r of Pinned _ \<Rightarrow> True | LExternal _ _ \<Rightarrow> False)"

definition idle_empty :: "lslot \<Rightarrow> bool" where
  "idle_empty s \<longleftrightarrow> ls_replicas s = [] \<and> \<not> ls_writing s"

text \<open>
  One pass over the queue under the metadata lock, up to the first entry whose slot loses a
  replica: the objects, the rest of the queue, the deferred entries, the dropped replicas.
\<close>

fun evict_pass ::
    "device \<Rightarrow> key \<Rightarrow> (key \<times> u32) list \<Rightarrow> lobjects \<Rightarrow> (key \<times> u32) list \<Rightarrow>
     (lobjects \<times> (key \<times> u32) list \<times> (key \<times> u32) list \<times> lreplica list) outcome" where
  "evict_pass device protect deferred objs [] = Some (objs, [], deferred, [])"
| "evict_pass device protect deferred objs ((k, idx) # fifo) =
     (if k = protect then evict_pass device protect (deferred @ [(k, idx)]) objs fifo
      else case bt_get objs k of
          None \<Rightarrow> evict_pass device protect deferred objs fifo
        | Some obj \<Rightarrow>
            if os_retention (lo_spec obj) \<noteq> Cache then evict_pass device protect deferred objs fifo
            else do {
              slot \<leftarrow> index (lo_slots obj) (unat idx);
              let gone = filter (pinned_on device) (ls_replicas slot);
              let obj' = obj\<lparr>lo_slots := (lo_slots obj)[unat idx :=
                slot\<lparr>ls_replicas := filter (\<lambda>r. \<not> pinned_on device r) (ls_replicas slot)\<rparr>]\<rparr>;
              let objs' = (if list_all idle_empty (lo_slots obj') then bt_remove objs k else bt_insert objs k obj');
              if gone \<noteq> [] then Some (objs', fifo, deferred, gone)
              else evict_pass device protect deferred objs' fifo
            })"

text \<open>The pass on the world: what it dropped goes back to the pools unless somebody holds it.\<close>

definition evict_once :: "u16 \<Rightarrow> key \<Rightarrow> local_world \<Rightarrow> (local_world \<times> bool) outcome" where
  "evict_once numa protect w = do {
     q \<leftarrow> lst_fifo (lw_state w) (Cpu numa);
     (objs, rest, deferred, gone) \<leftarrow> evict_pass (Cpu numa) protect [] (lw_objects w) q;
     Some (drop_refs (concat (map replica_bufs gone)) (set_fifo (Cpu numa) (deferred @ rest) (set_objects objs w)),
           gone \<noteq> [])
   }"

text \<open>\<open>pool.alloc(len)\<close>: the new buffer is held by the caller.\<close>

definition try_alloc :: "u16 \<Rightarrow> nat \<Rightarrow> local_world \<Rightarrow> (local_world \<times> pinned_buf option) outcome" where
  "try_alloc numa len w = do {
     p \<leftarrow> bt_get (lw_pools w) numa;
     x \<leftarrow> pool_alloc len p;
     Some (case x of
         None \<Rightarrow> (w, None)
       | Some (p', b) \<Rightarrow> (hold b (set_pool numa p' w), Some b))
   }"

lemma evict_pass_length:
  "evict_pass d k df objs q = Some (objs', rest, df', gone) \<Longrightarrow>
   length df' + length rest \<le> length df + length q \<and> (gone \<noteq> [] \<longrightarrow> length df' + length rest < length df + length q)"
  by (induction d k df objs q rule: evict_pass.induct)
     (fastforce simp: bind_eq_Some_conv Let_def split: if_splits option.splits)+

lemma drop_ref_state [simp]:
  "lw_state (drop_ref b w) = lw_state w" "lw_placed (drop_ref b w) = lw_placed w"
  "lw_readers (drop_ref b w) = lw_readers w"
  "lw_mem (drop_ref b w) = lw_mem w" "lw_counter (drop_ref b w) = lw_counter w"
  by (simp_all add: drop_ref_def set_pool_def split: option.splits)

lemma drop_refs_state [simp]:
  "lw_state (drop_refs bs w) = lw_state w" "lw_placed (drop_refs bs w) = lw_placed w"
  "lw_readers (drop_refs bs w) = lw_readers w"
  "lw_mem (drop_refs bs w) = lw_mem w" "lw_counter (drop_refs bs w) = lw_counter w"
  by (induction bs arbitrary: w) (simp_all add: drop_refs_def)

lemma evict_once_length:
  assumes "evict_once numa protect w = Some (w', True)"
  shows "length (the (lst_fifo (lw_state w') (Cpu numa))) < length (the (lst_fifo (lw_state w) (Cpu numa)))"
  using assms evict_pass_length[of "Cpu numa" protect "[]" "lw_objects w"]
  by (fastforce simp: evict_once_def bind_eq_Some_conv set_fifo_def set_objects_def)

function evict_alloc_loop :: "u16 \<Rightarrow> nat \<Rightarrow> key \<Rightarrow> local_world \<Rightarrow> (local_world \<times> pinned_buf res) outcome" where
  "evict_alloc_loop numa len protect w = do {
     (w1, evicted_any) \<leftarrow> evict_once numa protect w;
     (w2, b) \<leftarrow> try_alloc numa len w1;
     case b of
       Some b \<Rightarrow> Some (w2, Inr b)
     | None \<Rightarrow> if \<not> evicted_any then Some (w2, Inl (no_space numa len))
               else evict_alloc_loop numa len protect w2
   }"
  by auto
termination
proof (relation "measure (\<lambda>(numa, len, protect, w). length (the (lst_fifo (lw_state w) (Cpu numa))))", goal_cases)
  case (2 numa len protect w x w1 ev y w2 b)
  then have "w2 = w1" by (auto simp: try_alloc_def bind_eq_Some_conv split: option.splits)
  with 2 evict_once_length show ?case by simp
qed simp

declare evict_alloc_loop.simps [simp del]

definition alloc_or_evict :: "u16 \<Rightarrow> nat \<Rightarrow> key \<Rightarrow> local_world \<Rightarrow> (local_world \<times> pinned_buf res) outcome" where
  "alloc_or_evict numa len protect w = (case bt_get (lw_pools w) numa of
      None \<Rightarrow> Some (w, Inl (with_context ''device'' (CtxDevice (Cpu numa)) (error_new InvalidInput ''no pool on device'')))
    | Some p \<Rightarrow> do {
        (w1, b) \<leftarrow> try_alloc numa len w;
        case b of
          Some b \<Rightarrow> Some (w1, Inr b)
        | None \<Rightarrow> if len > pp_len p then Some (w1, Inl (no_space numa len))
                  else evict_alloc_loop numa len protect w1
      })"

section \<open>put\<close>

definition numa_of :: "(u16, pinned_pool) btree \<Rightarrow> device \<Rightarrow> u16 res" where
  "numa_of pools d = (case d of
      Cpu n \<Rightarrow> if bt_get pools n \<noteq> None then Inr n
               else Inl (with_context ''device'' (CtxDevice d) (error_new InvalidInput ''no pool on device''))
    | Gpu _ \<Rightarrow> Inl (with_context ''device'' (CtxDevice d)
                 (error_new InvalidInput ''GPU memory is not a store tier; use publish'')))"

fun numas_of :: "(u16, pinned_pool) btree \<Rightarrow> device list \<Rightarrow> (u16 \<times> bool) list res" where
  "numas_of pools [] = Inr []"
| "numas_of pools (d # ds) =
     and_then (numa_of pools d) (\<lambda>n. and_then (numas_of pools ds) (\<lambda>ns. Inr ((n, False) # ns)))"

text \<open>Resolving a placement into targets; the pools are kept in increasing order.\<close>

definition resolve_targets :: "(u16, pinned_pool) btree \<Rightarrow> placement \<Rightarrow> (u16 \<times> bool) list res" where
  "resolve_targets pools pl = (case pl of
      Strict d \<Rightarrow> and_then (numa_of pools d) (\<lambda>n. Inr [(n, False)])
    | Each ds \<Rightarrow> numas_of pools ds
    | Prefer d \<Rightarrow> and_then (numa_of pools d) (\<lambda>n.
        Inr ((n, False) # map (\<lambda>x. (x, True)) (filter (\<lambda>x. x \<noteq> n) (map fst pools))))
    | Anywhere \<Rightarrow> Inr (map (\<lambda>n. (n, False)) (map fst pools)))"

definition is_each_placement :: "placement \<Rightarrow> bool" where
  "is_each_placement pl = (case pl of Each _ \<Rightarrow> True | _ \<Rightarrow> False)"

fun place_targets ::
    "bool \<Rightarrow> nat \<Rightarrow> key \<Rightarrow> (u16 \<times> bool) list \<Rightarrow> (u16 \<times> bool \<times> pinned_buf) list \<Rightarrow> error option \<Rightarrow> local_world \<Rightarrow>
     (local_world \<times> (u16 \<times> bool \<times> pinned_buf) list \<times> error option) outcome" where
  "place_targets each len kb [] placed last_err w = Some (w, placed, last_err)"
| "place_targets each len kb ((numa, misplaced) # ts) placed last_err w = do {
     (w', r) \<leftarrow> alloc_or_evict numa len kb w;
     case r of
       Inr b \<Rightarrow> (let placed' = placed @ [(numa, misplaced, b)] in
         if \<not> each then Some (w', placed', last_err) else place_targets each len kb ts placed' last_err w')
     | Inl e \<Rightarrow> if each then Some (w', placed, Some e) else place_targets each len kb ts placed (Some e) w'
   }"

definition placed_bufs :: "(u16 \<times> bool \<times> pinned_buf) list \<Rightarrow> pinned_buf list" where
  "placed_bufs placed = map (snd \<circ> snd) placed"

text \<open>The copies into the targets, up to the first that fails.\<close>

fun copy_all ::
    "local_inner \<Rightarrow> device \<Rightarrow> seg list \<Rightarrow> u64 \<Rightarrow> (u16 \<times> bool \<times> pinned_buf) list \<Rightarrow> host_mem \<Rightarrow> (host_mem \<times> unit res) outcome" where
  "copy_all li src_dev src len [] m = Some (m, Inr ())"
| "copy_all li src_dev src len ((numa, _, b) # rest) m = do {
     (m', r) \<leftarrow> local_copy (li_gpus li) (li_engine li) src_dev src 0 (Cpu numa) [(buf_as_ptr b, len)] len m;
     case r of Inl e \<Rightarrow> Some (m', Inl e) | Inr _ \<Rightarrow> copy_all li src_dev src len rest m'
   }"

fun push_fifos :: "key \<times> u32 \<Rightarrow> u16 list \<Rightarrow> (device \<rightharpoonup> (key \<times> u32) list) \<Rightarrow> (device \<rightharpoonup> (key \<times> u32) list) outcome" where
  "push_fifos e [] ff = Some ff"
| "push_fifos e (n # ns) ff = do {
     q \<leftarrow> ff (Cpu n);
     push_fifos e ns (ff(Cpu n \<mapsto> q @ [e]))
   }"

definition placed_replicas :: "(u16 \<times> bool \<times> pinned_buf) list \<Rightarrow> lreplica list" where
  "placed_replicas placed = map (\<lambda>(numa, misplaced, b).
     \<lparr>lr_device = Cpu numa, lr_tier = Dram, lr_misplaced = misplaced, lr_data = Pinned b\<rparr>) placed"

text \<open>
  Phase 3, under the metadata lock: the replicas enter the object map. The buffers stop being
  held by the \<open>put\<close>: they are in the map now, or dropped when the object is gone.
\<close>

definition finish_slot :: "key \<Rightarrow> nat \<Rightarrow> (u16 \<times> bool \<times> pinned_buf) list \<Rightarrow> (local_world, unit) handler" where
  "finish_slot kb i placed w = (case bt_get (lw_objects w) kb of
      None \<Rightarrow> Some (let_go_all (placed_bufs placed) w, err NotFound ''object removed during put'')
    | Some obj \<Rightarrow> do {
        slot \<leftarrow> index (lo_slots obj) i;
        let obj' = obj\<lparr>lo_slots := (lo_slots obj)[i :=
          slot\<lparr>ls_replicas := ls_replicas slot @ placed_replicas placed, ls_writing := False\<rparr>]\<rparr>;
        ff \<leftarrow> push_fifos (kb, word_of_nat i) (map fst placed) (lst_fifo (lw_state w));
        Some (let_go_all (placed_bufs placed)
          (w\<lparr>lw_state := \<lparr>lst_objects = bt_insert (lw_objects w) kb obj', lst_fifo = ff\<rparr>\<rparr>), Inr ())
      })"

definition local_put_slot :: "local_inner \<Rightarrow> key \<Rightarrow> nat \<Rightarrow> put_slot \<Rightarrow> (local_world, unit) handler" where
  "local_put_slot li kb i ps w = do {
     src0 \<leftarrow> index (ps_src ps) 0;
     let len = ss_len (ps_spec ps);
     let pl = ss_placement (ps_spec ps);
     let each = is_each_placement pl;
     case resolve_targets (lw_pools w) pl of
       Inl e \<Rightarrow> Some (w, Inl e)
     | Inr targets \<Rightarrow> do {
         (w1, placed, last_err) \<leftarrow> place_targets each (unat len) kb targets [] None w;
         if placed = [] \<or> (each \<and> last_err \<noteq> None)
         then Some (let_go_all (placed_bufs placed) w1,
           Inl (case last_err of Some e \<Rightarrow> e | None \<Rightarrow> error_new NoSpace ''no device available''))
         else do {
           (m, r) \<leftarrow> copy_all li (iov_device src0) (iov_segs (ps_src ps)) len placed (lw_mem w1);
           let w2 = w1\<lparr>lw_mem := m\<rparr>;
           case r of
             Inl e \<Rightarrow> Some (let_go_all (placed_bufs placed) w2, Inl e)
           | Inr _ \<Rightarrow> finish_slot kb i placed w2
         }
       }
   }"

text \<open>Phase 1: reserve the key and claim the slots that are empty and not being written.\<close>

definition claimable :: "lslot \<Rightarrow> bool" where
  "claimable s \<longleftrightarrow> ls_replicas s = [] \<and> \<not> ls_writing s"

definition claim_slots :: "lobject \<Rightarrow> lobject" where
  "claim_slots obj = obj\<lparr>lo_slots := map (\<lambda>s. if claimable s then s\<lparr>ls_writing := True\<rparr> else s) (lo_slots obj)\<rparr>"

definition claim :: "key \<Rightarrow> object_spec \<Rightarrow> local_world \<Rightarrow> (local_world \<times> bool list) res" where
  "claim k spec w = (case bt_get (lw_objects w) k of
      Some obj \<Rightarrow>
        if lo_spec obj \<noteq> spec
        then Inl (with_context ''key'' (CtxKey k) (error_new SpecMismatch ''existing object has a different spec''))
        else Inr (set_objects (bt_insert (lw_objects w) k (claim_slots obj)) w, map claimable (lo_slots obj))
    | None \<Rightarrow>
        (let obj = \<lparr>lo_spec = spec, lo_slots = replicate (length (os_slots spec)) \<lparr>ls_replicas = [], ls_writing = False\<rparr>\<rparr> in
         Inr (set_objects (bt_insert (lw_objects w) k (claim_slots obj)) w, map claimable (lo_slots obj))))"

definition unclaim :: "key \<Rightarrow> nat \<Rightarrow> local_world \<Rightarrow> local_world outcome" where
  "unclaim k i w = (case bt_get (lw_objects w) k of
      None \<Rightarrow> Some w
    | Some obj \<Rightarrow> do {
        slot \<leftarrow> index (lo_slots obj) i;
        Some (set_objects (bt_insert (lw_objects w) k
          (obj\<lparr>lo_slots := (lo_slots obj)[i := slot\<lparr>ls_writing := False\<rparr>]\<rparr>)) w)
      })"

fun local_put_loop ::
    "local_inner \<Rightarrow> key \<Rightarrow> bool list \<Rightarrow> nat \<Rightarrow> put_slot list \<Rightarrow> local_world \<Rightarrow> (local_world \<times> unit res list) outcome" where
  "local_put_loop li kb writable i [] w = Some (w, [])"
| "local_put_loop li kb writable i (ps # pss) w = do {
     ok \<leftarrow> index writable i;
     if \<not> ok then do {
       (w', rs) \<leftarrow> local_put_loop li kb writable (Suc i) pss w;
       Some (w', Inl (with_context ''slot'' (CtxNum i) (error_new AlreadyExists ''slot already written'')) # rs)
     }
     else do {
       (w1, r) \<leftarrow> local_put_slot li kb i ps w;
       w2 \<leftarrow> (if is_ok r then Some w1 else unclaim kb i w1);
       (w', rs) \<leftarrow> local_put_loop li kb writable (Suc i) pss w2;
       Some (w', map_err (with_context ''slot'' (CtxNum i)) r # rs)
     }
   }"

definition local_put :: "local_inner \<Rightarrow> key \<Rightarrow> op_put \<Rightarrow> (local_world, rp_put) handler" where
  "local_put li k op w = (case op_put_validate op of
      Inl e \<Rightarrow> Some (w, Inl e)
    | Inr _ \<Rightarrow> (case claim k (op_put_spec op) w of
        Inl e \<Rightarrow> Some (w, Inl e)
      | Inr (w1, writable) \<Rightarrow> do {
          (w2, rs) \<leftarrow> local_put_loop li k writable 0 (op_slots op) w1;
          Some (w2, Inr \<lparr>rp_slots = rs\<rparr>)
        }))"

section \<open>publish, stat and get\<close>

definition lnot_found :: "key \<Rightarrow> error" where
  "lnot_found k = with_context ''key'' (CtxKey k) (error_new NotFound ''no such key'')"

definition lslot_out_of_range :: "nat \<Rightarrow> error" where
  "lslot_out_of_range idx = with_context ''slot'' (CtxNum idx) (error_new InvalidInput ''slot index out of range'')"

definition local_publish :: "key \<Rightarrow> op_publish \<Rightarrow> (local_world, unit) handler" where
  "local_publish k op w = (case op_publish_validate op of
      Inl e \<Rightarrow> Some (w, Inl e)
    | Inr (device, tot) \<Rightarrow> (case bt_get (lw_objects w) k of
        None \<Rightarrow> Some (w, Inl (lnot_found k))
      | Some obj \<Rightarrow>
          (let idx = unat (pub_slot op) in
           if \<not> idx < length (os_slots (lo_spec obj)) then Some (w, Inl (lslot_out_of_range idx))
           else let spec = os_slots (lo_spec obj) ! idx in
             if ss_len spec \<noteq> tot
             then Some (w, Inl (with_context ''expected'' (CtxNum (unat (ss_len spec)))
                    (with_context ''len'' (CtxNum (unat tot))
                    (error_new InvalidInput ''published length differs from slot length''))))
             else do {
               slot \<leftarrow> index (lo_slots obj) idx;
               src0 \<leftarrow> index (pub_src op) 0;
               let r = \<lparr>lr_device = device, lr_tier = External, lr_misplaced = False,
                 lr_data = LExternal (iov_segs (pub_src op)) (mr_id (iov_region src0))\<rparr>;
               Some (set_objects (bt_insert (lw_objects w) k (obj\<lparr>lo_slots := (lo_slots obj)[idx :=
                 slot\<lparr>ls_replicas := ls_replicas slot @ [r]\<rparr>]\<rparr>)) w, Inr ())
             })))"

definition local_slot_info :: "local_inner \<Rightarrow> lslot \<times> slot_spec \<Rightarrow> slot_info" where
  "local_slot_info li = (\<lambda>(s, spec). \<lparr>si_len = ss_len spec,
     si_replicas = map (\<lambda>r. \<lparr>rep_location = local_location li (lr_device r) (lr_tier r),
                             rep_misplaced = lr_misplaced r\<rparr>) (ls_replicas s)\<rparr>)"

definition local_stat :: "local_inner \<Rightarrow> key list \<Rightarrow> (local_world, object_info option list) handler" where
  "local_stat li ks w = Some (w, Inr (map (\<lambda>k. map_option (\<lambda>obj.
     \<lparr>oi_retention = os_retention (lo_spec obj),
      oi_slots = map (local_slot_info li) (zip (lo_slots obj) (os_slots (lo_spec obj)))\<rparr>) (bt_get (lw_objects w) k)) ks))"

definition nearest_replica :: "local_inner \<Rightarrow> device \<Rightarrow> lslot \<Rightarrow> lreplica option" where
  "nearest_replica li dst s =
     min_by_key (\<lambda>r. (topo_distance (li_topo li) dst (lr_device r), tier_rank (lr_tier r))) (ls_replicas s)"

text \<open>The part of \<open>get\<close> under the metadata lock: the chosen replica and the length of the slot.\<close>

definition get_pick :: "local_inner \<Rightarrow> key \<Rightarrow> op_get \<Rightarrow> device \<Rightarrow> lobjects \<Rightarrow> (lreplica \<times> u64) res outcome" where
  "get_pick li k op dst_device objs = (case bt_get objs k of
      None \<Rightarrow> Some (Inl (lnot_found k))
    | Some obj \<Rightarrow>
        (let idx = unat (og_slot op) in
         if \<not> idx < length (os_slots (lo_spec obj)) then Some (Inl (lslot_out_of_range idx))
         else do {
           slot \<leftarrow> index (lo_slots obj) idx;
           Some (case nearest_replica li dst_device slot of
               None \<Rightarrow> Inl (with_context ''slot'' (CtxNum idx) (with_context ''key'' (CtxKey k)
                 (error_new Evicted ''slot has no replica'')))
             | Some r \<Rightarrow> Inr (r, ss_len (os_slots (lo_spec obj) ! idx)))
         }))"

definition get_range_ok :: "op_get \<Rightarrow> u64 \<Rightarrow> u64 \<Rightarrow> bool" where
  "get_range_ok op dst_len slot_len = (case checked_add (og_src_offset op) dst_len of
      None \<Rightarrow> False | Some e \<Rightarrow> e \<le> slot_len)"

text \<open>The clone of the replica's \<open>Arc\<close> is held until the end of the copy.\<close>

definition local_get :: "local_inner \<Rightarrow> key \<Rightarrow> op_get \<Rightarrow> (local_world, rp_get) handler" where
  "local_get li k op w = (case op_get_validate op of
      Inl e \<Rightarrow> Some (w, Inl e)
    | Inr (dst_device, dst_len) \<Rightarrow> do {
        x \<leftarrow> get_pick li k op dst_device (lw_objects w);
        case x of
          Inl e \<Rightarrow> Some (w, Inl e)
        | Inr (r, slot_len) \<Rightarrow>
            (let w1 = clone_refs (replica_bufs r) w in
             if \<not> get_range_ok op dst_len slot_len
             then Some (drop_clones (replica_bufs r) w1, Inl (with_context ''slot_len'' (CtxNum (unat slot_len))
                    (with_context ''len'' (CtxNum (unat dst_len))
                    (with_context ''src_offset'' (CtxNum (unat (og_src_offset op)))
                    (error_new InvalidInput ''read range exceeds slot'')))))
             else do {
               (m, c) \<leftarrow> local_copy (li_gpus li) (li_engine li) (lr_device r) (ldata_segs (lr_data r))
                 (og_src_offset op) dst_device (iov_segs (og_dst op)) dst_len (lw_mem w1);
               Some (drop_clones (replica_bufs r) (w1\<lparr>lw_mem := m\<rparr>),
                 and_then c (\<lambda>_. Inr \<lparr>rg_from = local_location li (lr_device r) (lr_tier r)\<rparr>))
             })
      })"

section \<open>remove and remove_prefix\<close>

definition drop_object :: "key \<Rightarrow> local_world \<Rightarrow> local_world" where
  "drop_object k w = (case bt_get (lw_objects w) k of
      None \<Rightarrow> w
    | Some obj \<Rightarrow> drop_refs (lobj_bufs obj) (set_objects (bt_remove (lw_objects w) k) w))"

definition local_remove :: "key list \<Rightarrow> (local_world, unit) handler" where
  "local_remove ks w = Some (fold drop_object ks w, Inr ())"

definition local_remove_prefix :: "bytes \<Rightarrow> (local_world, u64) handler" where
  "local_remove_prefix prefix w = (let ks = bt_scan_prefix (lw_objects w) prefix in
     Some (fold drop_object ks w, Inr (word_of_nat (length ks))))"

definition pool_stats :: "local_world \<Rightarrow> (u16 \<times> nat \<times> nat) list" where
  "pool_stats w = map (\<lambda>(n, p). (pp_numa p, pp_len p, free_bytes p)) (lw_pools w)"

end
