(* ===== verification/Pega_Local_Refs.thy ===== *)
theory Pega_Local_Refs
  imports Pega_Local
begin

text \<open>
  Ownership of pinned buffers in the CUDA backend. The invariant \<open>linv\<close> says that the live
  buffers (in the object map, owned by a running \<open>put\<close>, or being read by a running \<open>get\<close>) and
  the free lists tile the pools, and that no buffer has two owners. Every critical section of
  \<open>local.rs\<close> keeps it.
\<close>

section \<open>Counting references\<close>

definition refs :: "pinned_buf \<Rightarrow> lobjects \<Rightarrow> nat" where
  "refs b objs = bt_sum (\<lambda>obj. count_list (lobj_bufs obj) b) objs"

lemma count_concat: "count_list (concat xss) b = sum_list (map (\<lambda>xs. count_list xs b) xss)"
  by (induction xss) simp_all

lemma refs_all_bufs: "count_list (all_bufs objs) b = refs b objs"
  by (induction objs) (auto simp: refs_def all_bufs_def)

lemma all_bufs_refs: "b \<in> set (all_bufs objs) \<longleftrightarrow> 0 < refs b objs"
  by (metis refs_all_bufs count_list_0_iff not_gr_zero)

lemma refs_insert:
  assumes "bt_inv objs"
  shows "refs b (bt_insert objs k obj) + (case bt_get objs k of None \<Rightarrow> 0 | Some o' \<Rightarrow> count_list (lobj_bufs o') b) =
    refs b objs + count_list (lobj_bufs obj) b"
  unfolding refs_def by (rule bt_sum_insert[OF assms])

lemma refs_remove:
  "refs b (bt_remove objs k) + (case bt_get objs k of None \<Rightarrow> 0 | Some o' \<Rightarrow> count_list (lobj_bufs o') b) = refs b objs"
  unfolding refs_def by (rule bt_sum_remove)

lemma lobj_bufs_update:
  assumes "i < length (lo_slots obj)"
  shows "count_list (lobj_bufs (obj\<lparr>lo_slots := (lo_slots obj)[i := s]\<rparr>)) b + count_list (slot_bufs (lo_slots obj ! i)) b =
    count_list (lobj_bufs obj) b + count_list (slot_bufs s) b"
proof -
  have "lo_slots obj = take i (lo_slots obj) @ lo_slots obj ! i # drop (Suc i) (lo_slots obj)"
    using assms by (rule id_take_nth_drop)
  then have "count_list (lobj_bufs obj) b = sum_list (map (\<lambda>s. count_list (slot_bufs s) b) (take i (lo_slots obj))) +
      count_list (slot_bufs (lo_slots obj ! i)) b + sum_list (map (\<lambda>s. count_list (slot_bufs s) b) (drop (Suc i) (lo_slots obj)))"
    unfolding lobj_bufs_def count_concat map_map comp_def by (metis (no_types, lifting) add.assoc list.simps(9) map_append sum_list.Cons sum_list_append)
  moreover have "count_list (lobj_bufs (obj\<lparr>lo_slots := (lo_slots obj)[i := s]\<rparr>)) b =
      sum_list (map (\<lambda>s. count_list (slot_bufs s) b) (take i (lo_slots obj))) +
      count_list (slot_bufs s) b + sum_list (map (\<lambda>s. count_list (slot_bufs s) b) (drop (Suc i) (lo_slots obj)))"
    using assms by (simp add: lobj_bufs_def count_concat upd_conv_take_nth_drop comp_def)
  ultimately show ?thesis by simp
qed

lemma lobj_bufs_same: "map slot_bufs (lo_slots obj) = map slot_bufs (lo_slots obj') \<Longrightarrow> lobj_bufs obj = lobj_bufs obj'"
  by (simp add: lobj_bufs_def)

section \<open>Live buffers tile the pools\<close>

definition live :: "local_world \<Rightarrow> pinned_buf set" where
  "live w = {b. referenced w b}"

definition tiled :: "local_world \<Rightarrow> pinned_buf set \<Rightarrow> bool" where
  "tiled w L \<longleftrightarrow> bt_inv (lw_pools w) \<and>
     (\<forall>n p. bt_get (lw_pools w) n = Some p \<longrightarrow> pp_numa p = n \<and> pinned.tiles p {b \<in> L. pb_numa b = n}) \<and>
     (\<forall>b \<in> L. bt_get (lw_pools w) (pb_numa b) \<noteq> None)"

definition linv :: "local_world \<Rightarrow> bool" where
  "linv w \<longleftrightarrow> bt_inv (lw_objects w) \<and>
     (\<forall>b. refs b (lw_objects w) + count_list (lw_placed w) b \<le> 1) \<and> tiled w (live w)"

lemma tiledD:
  "tiled w L \<Longrightarrow> bt_get (lw_pools w) n = Some p \<Longrightarrow> pp_numa p = n \<and> pinned.tiles p {b \<in> L. pb_numa b = n}"
  by (simp add: tiled_def)

lemma count_remove1_le: "count_list (remove1 b xs) c \<le> count_list xs c"
  by (induction xs) auto

lemma tiled_cong: "lw_pools w = lw_pools w' \<Longrightarrow> tiled w L = tiled w' L"
  by (simp add: tiled_def)

lemma live_iff: "b \<in> live w \<longleftrightarrow> 0 < refs b (lw_objects w) \<or> b \<in> set (lw_placed w) \<or> b \<in> set (lw_readers w)"
  by (simp add: live_def referenced_def all_bufs_refs)

lemma live_drop_ref [simp]: "live (drop_ref b w) = live w"
  by (rule set_eqI) (simp add: live_iff)

lemma live_drop_refs [simp]: "live (drop_refs bs w) = live w"
  by (rule set_eqI) (simp add: live_iff)

lemma buf_drop_pool [simp]: "pp_numa (buf_drop b p) = pp_numa p" "pp_len (buf_drop b p) = pp_len p" "pp_base (buf_drop b p) = pp_base p"
  by (simp_all add: buf_drop_def pool_release_def)

lemma tiled_drop_ref:
  assumes "tiled w (insert b L)" "b \<in> live w \<longrightarrow> b \<in> L" "b \<notin> live w \<longrightarrow> b \<notin> L"
  shows "tiled (drop_ref b w) L"
proof (cases "b \<in> live w")
  case True
  with assms show ?thesis by (simp add: drop_ref_def live_def insert_absorb)
next
  case False
  have inv: "bt_inv (lw_pools w)" using assms(1) by (simp add: tiled_def)
  obtain p where p: "bt_get (lw_pools w) (pb_numa b) = Some p"
    using assms(1) by (auto simp: tiled_def)
  note pd = tiledD[OF assms(1) p]
  have w': "lw_pools (drop_ref b w) = bt_insert (lw_pools w) (pb_numa b) (buf_drop b p)"
    using False p by (simp add: drop_ref_def live_def set_pool_def)
  have "pinned.tiles (buf_drop b p) ({c \<in> insert b L. pb_numa c = pb_numa b} - {b})"
    using pd by (intro pinned.tiles_give_back) simp_all
  moreover have "{c \<in> insert b L. pb_numa c = pb_numa b} - {b} = {c \<in> L. pb_numa c = pb_numa b}"
    using assms(3) False by auto
  moreover have "pp_numa q = n \<and> pinned.tiles q {c \<in> L. pb_numa c = n}"
    if "n \<noteq> pb_numa b" "bt_get (lw_pools w) n = Some q" for n q
  proof -
    have "{c \<in> insert b L. pb_numa c = n} = {c \<in> L. pb_numa c = n}" using that(1) by auto
    with tiledD[OF assms(1) that(2)] show ?thesis by simp
  qed
  moreover have "\<forall>c \<in> L. bt_get (lw_pools w) (pb_numa c) \<noteq> None"
    using assms(1) by (simp add: tiled_def)
  ultimately show ?thesis
    using inv pd by (auto simp: tiled_def w' bt.get_insert bt.inv_insert split: if_splits)
qed

lemma tiled_drop_refs:
  assumes "distinct bs" "tiled w (set bs \<union> live w)"
  shows "tiled (drop_refs bs w) (live w)"
  using assms
proof (induction bs arbitrary: w)
  case (Cons b bs)
  have "tiled (drop_ref b w) (set bs \<union> live w)"
    using Cons.prems by (intro tiled_drop_ref) auto
  with Cons.IH[of "drop_ref b w"] Cons.prems(1) show ?case
    by (simp add: drop_refs_def)
qed (simp add: drop_refs_def)

lemma linv_drop_refs:
  assumes "bt_inv (lw_objects w)" "\<forall>b. refs b (lw_objects w) + count_list (lw_placed w) b \<le> 1"
    and "distinct bs" "tiled w (set bs \<union> live w)"
  shows "linv (drop_refs bs w)"
  using assms tiled_drop_refs[OF assms(3,4)] by (simp add: linv_def)

text \<open>Dropping what a running operation holds.\<close>

lemma linv_let_go:
  assumes "linv w" "b \<in> set (lw_placed w)"
  shows "linv (let_go b w)" "lw_placed (let_go b w) = remove1 b (lw_placed w)"
    "lw_state (let_go b w) = lw_state w" "lw_readers (let_go b w) = lw_readers w"
proof -
  let ?w = "w\<lparr>lw_placed := remove1 b (lw_placed w)\<rparr>"
  have "insert b (live ?w) = live w"
  proof (rule set_eqI)
    fix x show "x \<in> insert b (live ?w) \<longleftrightarrow> x \<in> live w"
      using assms(2) set_remove1_subset[of b "lw_placed w"] by (cases "x = b") (auto simp: live_iff)
  qed
  then have "tiled ?w (insert b (live ?w))"
    using assms(1) tiled_cong[of ?w w] by (simp add: linv_def)
  then have "tiled (drop_ref b ?w) (live ?w)"
    by (intro tiled_drop_ref) auto
  moreover have "refs c (lw_objects w) + count_list (remove1 b (lw_placed w)) c \<le> 1" for c
  proof -
    have "refs c (lw_objects w) + count_list (lw_placed w) c \<le> 1"
      using assms(1) by (simp add: linv_def)
    with count_remove1_le[of b "lw_placed w" c] show ?thesis by linarith
  qed
  ultimately show "linv (let_go b w)"
    using assms(1) by (simp add: linv_def let_go_def del: One_nat_def)
qed (simp_all add: let_go_def)

lemma linv_drop_clone:
  assumes "linv w" "b \<in> set (lw_readers w)"
  shows "linv (drop_clone b w)"
proof -
  let ?w = "w\<lparr>lw_readers := remove1 b (lw_readers w)\<rparr>"
  have "insert b (live ?w) = live w"
  proof (rule set_eqI)
    fix x show "x \<in> insert b (live ?w) \<longleftrightarrow> x \<in> live w"
      using assms(2) set_remove1_subset[of b "lw_readers w"] by (cases "x = b") (auto simp: live_iff)
  qed
  then have "tiled ?w (insert b (live ?w))"
    using assms(1) tiled_cong[of ?w w] by (simp add: linv_def)
  then have "tiled (drop_ref b ?w) (live ?w)"
    by (intro tiled_drop_ref) auto
  then show ?thesis
    using assms(1) by (simp add: linv_def drop_clone_def)
qed

text \<open>What a running \<open>put\<close> owns.\<close>

definition owns :: "local_world \<Rightarrow> pinned_buf list \<Rightarrow> bool" where
  "owns w bs \<longleftrightarrow> (\<forall>b. count_list bs b \<le> count_list (lw_placed w) b)"

lemma count_remove1: "count_list (remove1 b xs) c = count_list xs c - (if c = b then 1 else 0)"
  by (induction xs) (auto simp: Suc_diff_le count_list_0_iff Suc_le_eq)

lemma owns_Cons: "owns w (b # bs) \<Longrightarrow> b \<in> set (lw_placed w) \<and> owns (let_go b w) bs"
proof -
  assume owns: "owns w (b # bs)"
  then have "1 \<le> count_list (lw_placed w) b" unfolding owns_def by (metis add_leD1 count_list.simps(2) add.commute)
  then have "b \<in> set (lw_placed w)" by (metis count_notin not_one_le_zero)
  moreover have "count_list bs c \<le> count_list (lw_placed w) c - (if c = b then 1 else 0)" for c
    using owns unfolding owns_def by (cases "c = b") (auto dest: spec[of _ c])
  moreover have "lw_placed (let_go b w) = remove1 b (lw_placed w)" by (simp add: let_go_def)
  ultimately show ?thesis unfolding owns_def by (simp only: count_remove1) blast
qed

lemma linv_let_go_all:
  assumes "linv w" "owns w bs"
  shows "linv (let_go_all bs w)"
  using assms
proof (induction bs arbitrary: w)
  case (Cons b bs)
  then have "b \<in> set (lw_placed w)" "owns (let_go b w) bs" using owns_Cons by blast+
  with Cons.IH[OF linv_let_go(1)] Cons.prems show ?case by (simp add: let_go_all_def)
qed (simp add: let_go_all_def)

lemma let_go_all_state [simp]:
  "lw_state (let_go_all bs w) = lw_state w" "lw_readers (let_go_all bs w) = lw_readers w"
  "lw_mem (let_go_all bs w) = lw_mem w" "lw_counter (let_go_all bs w) = lw_counter w"
  by (induction bs arbitrary: w) (simp_all add: let_go_all_def let_go_def)

lemma let_go_all_placed: "count_list (lw_placed (let_go_all bs w)) c = count_list (lw_placed w) c - count_list bs c"
  by (induction bs arbitrary: w) (simp_all add: let_go_all_def let_go_def count_remove1)

text \<open>Letting go of buffers that are in the object map leaves the pools alone.\<close>

lemma let_go_all_mapped:
  "\<forall>b \<in> set bs. 0 < refs b (lw_objects w) \<Longrightarrow> lw_pools (let_go_all bs w) = lw_pools w"
proof (induction bs arbitrary: w)
  case (Cons b bs)
  then have "lw_pools (let_go b w) = lw_pools w"
    by (simp add: let_go_def drop_ref_def referenced_def all_bufs_refs)
  with Cons show ?case by (simp add: let_go_all_def let_go_def)
qed (simp add: let_go_all_def)

lemma distinct_count: "(\<forall>x. count_list xs x \<le> 1) \<Longrightarrow> distinct xs"
proof (induction xs)
  case (Cons a xs)
  have "count_list (a # xs) a \<le> 1" using Cons.prems by blast
  then have "a \<notin> set xs" by (simp add: count_list_0_iff)
  moreover have "count_list xs x \<le> 1" for x
    using Cons.prems[rule_format, of x] by (simp split: if_splits)
  ultimately show ?case using Cons.IH by simp
qed simp

text \<open>Replacing the objects: what they lose is dropped.\<close>

lemma linv_objects:
  assumes "linv w" "bt_inv objs'" "\<forall>b. refs b (lw_objects w) = refs b objs' + count_list bs b"
    and "lw_objects w' = objs'" "lw_pools w' = lw_pools w" "lw_placed w' = lw_placed w" "lw_readers w' = lw_readers w"
  shows "linv (drop_refs bs w')"
proof (rule linv_drop_refs)
  show "bt_inv (lw_objects w')" using assms(2,4) by simp
  have bound: "refs b (lw_objects w) + count_list (lw_placed w) b \<le> 1" for b
    using assms(1) by (simp add: linv_def)
  show "\<forall>b. refs b (lw_objects w') + count_list (lw_placed w') b \<le> 1"
  proof
    fix b show "refs b (lw_objects w') + count_list (lw_placed w') b \<le> 1"
      unfolding assms(4,6) using bound[of b] assms(3)[rule_format, of b] by linarith
  qed
  show "distinct bs"
  proof (rule distinct_count, rule allI)
    fix b show "count_list bs b \<le> 1"
      using bound[of b] assms(3)[rule_format, of b] by linarith
  qed
  have "x \<in> set bs \<union> live w' \<longleftrightarrow> x \<in> live w" for x
  proof -
    have "x \<in> set bs \<longleftrightarrow> 0 < count_list bs x" by (simp add: count_list_0_iff zero_less_iff_neq_zero)
    then show ?thesis
      using assms(3)[rule_format, of x] assms(4,6,7) by (auto simp: live_iff)
  qed
  then have "set bs \<union> live w' = live w" by blast
  then show "tiled w' (set bs \<union> live w')"
    using assms(1,5) tiled_cong[of w' w] by (simp add: linv_def)
qed

lemma linv_same_refs:
  assumes "linv w" "bt_inv objs'" "\<forall>b. refs b objs' = refs b (lw_objects w)"
    and "lw_objects w' = objs'" "lw_pools w' = lw_pools w" "lw_placed w' = lw_placed w" "lw_readers w' = lw_readers w"
  shows "linv w'"
  using linv_objects[OF assms(1,2), of "[]" w'] assms(3-) by (simp add: drop_refs_def)

lemma refs_put_same:
  assumes "bt_inv objs" "bt_get objs k = Some obj" "lobj_bufs obj' = lobj_bufs obj"
  shows "refs b (bt_insert objs k obj') = refs b objs"
  using refs_insert[OF assms(1), of b k obj'] assms(2,3) by simp

lemma refs_put_slot:
  assumes "bt_inv objs" "bt_get objs k = Some obj" "i < length (lo_slots obj)"
  shows "refs b (bt_insert objs k (obj\<lparr>lo_slots := (lo_slots obj)[i := s]\<rparr>)) + count_list (slot_bufs (lo_slots obj ! i)) b =
    refs b objs + count_list (slot_bufs s) b"
  using refs_insert[OF assms(1), of b k "obj\<lparr>lo_slots := (lo_slots obj)[i := s]\<rparr>"]
    lobj_bufs_update[OF assms(3), of s b] assms(2) by simp

section \<open>The critical sections\<close>

lemma slot_bufs_filter:
  "count_list (slot_bufs s) b = count_list (slot_bufs (s\<lparr>ls_replicas := filter (\<lambda>r. \<not> P r) (ls_replicas s)\<rparr>)) b +
     count_list (concat (map replica_bufs (filter P (ls_replicas s)))) b"
proof -
  have "count_list (concat (map replica_bufs rs)) b = count_list (concat (map replica_bufs (filter (\<lambda>r. \<not> P r) rs))) b +
      count_list (concat (map replica_bufs (filter P rs))) b" for rs
    by (induction rs) simp_all
  from this[of "ls_replicas s"] show ?thesis unfolding slot_bufs_def by simp
qed

lemma idle_no_bufs: "list_all idle_empty (lo_slots obj) \<Longrightarrow> lobj_bufs obj = []"
  by (auto simp: lobj_bufs_def slot_bufs_def idle_empty_def list_all_iff)

lemma evict_entry_refs:
  fixes d :: device
  assumes "bt_inv objs" "bt_get objs k = Some obj" "i < length (lo_slots obj)"
  defines "slot \<equiv> lo_slots obj ! i"
  defines "obj' \<equiv> obj\<lparr>lo_slots := (lo_slots obj)[i := slot\<lparr>ls_replicas := filter (\<lambda>r. \<not> pinned_on d r) (ls_replicas slot)\<rparr>]\<rparr>"
  defines "objs' \<equiv> (if list_all idle_empty (lo_slots obj') then bt_remove objs k else bt_insert objs k obj')"
  shows "bt_inv objs'" "p \<noteq> k \<Longrightarrow> bt_get objs' p = bt_get objs p"
    "refs b objs = refs b objs' + count_list (concat (map replica_bufs (filter (pinned_on d) (ls_replicas slot)))) b"
proof -
  show "bt_inv objs'"
    using assms(1) by (simp add: objs'_def bt.inv_insert bt.inv_remove)
  show "p \<noteq> k \<Longrightarrow> bt_get objs' p = bt_get objs p"
    using assms(1) by (simp add: objs'_def bt.get_remove)
  have obj: "count_list (lobj_bufs obj) b = count_list (lobj_bufs obj') b +
      count_list (concat (map replica_bufs (filter (pinned_on d) (ls_replicas slot)))) b"
    using lobj_bufs_update[OF assms(3), of "slot\<lparr>ls_replicas := filter (\<lambda>r. \<not> pinned_on d r) (ls_replicas slot)\<rparr>" b]
      slot_bufs_filter[of slot b "pinned_on d"] unfolding obj'_def slot_def by linarith
  show "refs b objs = refs b objs' + count_list (concat (map replica_bufs (filter (pinned_on d) (ls_replicas slot)))) b"
    using refs_insert[OF assms(1), of b k obj'] refs_remove[of b objs k] obj idle_no_bufs[of obj'] assms(2)
    by (auto simp: objs'_def)
qed

lemma evict_pass_skip:
  "k = p \<or> bt_get objs k = None \<or> (\<exists>obj. bt_get objs k = Some obj \<and> os_retention (lo_spec obj) \<noteq> Cache) \<Longrightarrow>
   evict_pass d p df objs ((k, idx) # q) = evict_pass d p (if k = p then df @ [(k, idx)] else df) objs q"
  by auto

lemma evict_pass_step:
  assumes "k \<noteq> p" "bt_get objs k = Some obj" "os_retention (lo_spec obj) = Cache"
    "evict_pass d p df objs ((k, idx) # q) = Some r" "bt_inv objs"
  obtains objs1 gone where "bt_inv objs1" "bt_get objs1 p = bt_get objs p"
    "\<And>b. refs b objs = refs b objs1 + count_list (concat (map replica_bufs gone)) b"
    "Some r = (if gone \<noteq> [] then Some (objs1, q, df, gone) else evict_pass d p df objs1 q)"
proof -
  obtain slot where slot: "index (lo_slots obj) (unat idx) = Some slot"
    using assms(1-4) by (auto simp: bind_eq_Some_conv)
  then have i: "unat idx < length (lo_slots obj)" "slot = lo_slots obj ! unat idx"
    by (auto simp: index_def split: if_splits)
  note e = evict_entry_refs[OF assms(5,2) i(1), where d = d, folded i(2)]
  show ?thesis
    by (rule that[OF e(1) e(2)[OF assms(1)[symmetric]] e(3)]) (use assms slot in \<open>simp add: Let_def del: filter_empty_conv\<close>)
qed

lemma evict_pass_refs:
  "evict_pass d p df objs q = Some (objs', rest, df', gone) \<Longrightarrow> bt_inv objs \<Longrightarrow>
   bt_inv objs' \<and> bt_get objs' p = bt_get objs p \<and>
   (\<forall>b. refs b objs = refs b objs' + count_list (concat (map replica_bufs gone)) b)"
proof (induction q arbitrary: df objs)
  case (Cons e q)
  obtain k idx where [simp]: "e = (k, idx)" by (cases e)
  show ?case
  proof (cases "k = p \<or> bt_get objs k = None \<or> (\<exists>obj. bt_get objs k = Some obj \<and> os_retention (lo_spec obj) \<noteq> Cache)")
    case True
    with Cons.prems Cons.IH show ?thesis unfolding \<open>e = _\<close> evict_pass_skip[OF True] by blast
  next
    case False
    then obtain obj where obj: "k \<noteq> p" "bt_get objs k = Some obj" "os_retention (lo_spec obj) = Cache" by auto
    from evict_pass_step[OF this Cons.prems(1)[unfolded \<open>e = _\<close>] Cons.prems(2)] obtain objs1 gone1 where
      s: "bt_inv objs1" "bt_get objs1 p = bt_get objs p" "\<And>b. refs b objs = refs b objs1 + count_list (concat (map replica_bufs gone1)) b"
      "Some (objs', rest, df', gone) = (if gone1 \<noteq> [] then Some (objs1, q, df, gone1) else evict_pass d p df objs1 q)"
      by blast
    show ?thesis
    proof (cases "gone1 = []")
      case True
      with Cons.IH[OF _ s(1), of df] s(2-4) show ?thesis by simp
    qed (use s in simp)
  qed
qed simp

lemma linv_evict_once:
  assumes "evict_once numa protect w = Some (w', ev)" "linv w"
  shows "linv w'"
proof -
  from assms(1) obtain q objs rest deferred gone where
    ev: "evict_pass (Cpu numa) protect [] (lw_objects w) q = Some (objs, rest, deferred, gone)" and
    w': "w' = drop_refs (concat (map replica_bufs gone)) (set_fifo (Cpu numa) (deferred @ rest) (set_objects objs w))"
    unfolding evict_once_def bind_eq_Some_conv by (elim exE conjE) (simp split: prod.splits)
  have inv: "bt_inv (lw_objects w)" using assms(2) by (simp add: linv_def)
  note r = evict_pass_refs[OF ev inv]
  show ?thesis
    unfolding w' by (rule linv_objects[OF assms(2), of objs]) (use r in \<open>simp_all add: set_fifo_def set_objects_def\<close>)
qed

lemma linv_try_alloc:
  assumes "try_alloc numa len w = Some (w', x)" "0 < len" "linv w"
  shows "linv w'" "x = None \<Longrightarrow> w' = w"
    "x = Some b \<Longrightarrow> lw_placed w' = b # lw_placed w \<and> lw_state w' = lw_state w \<and> pb_numa b = numa \<and> pb_len b = len \<and> b \<notin> live w"
proof -
  from assms(1) obtain p y where p: "bt_get (lw_pools w) numa = Some p" "pool_alloc len p = Some y"
    by (auto simp: try_alloc_def bind_eq_Some_conv)
  show "x = None \<Longrightarrow> w' = w" using assms(1) p by (auto simp: try_alloc_def split: option.splits)
  note t = tiledD[OF _ p(1), of "live w"]
  have "linv w' \<and> (x = Some b \<longrightarrow> lw_placed w' = b # lw_placed w \<and> lw_state w' = lw_state w \<and> pb_numa b = numa \<and> pb_len b = len \<and> b \<notin> live w)"
  proof (cases y)
    case None
    with assms p show ?thesis by (auto simp: try_alloc_def)
  next
    case (Some pb)
    then obtain p' c where y: "y = Some (p', c)" by (cases pb) auto
    then have x: "x = Some c" "w' = hold c (set_pool numa p' w)"
      using assms(1) p by (auto simp: try_alloc_def)
    have inv: "bt_inv (lw_pools w)" "bt_inv (lw_objects w)" "tiled w (live w)"
      using assms(3) by (simp_all add: linv_def tiled_def)
    have p': "pp_numa p = numa" "pinned.tiles p {b \<in> live w. pb_numa b = numa}" using t inv(3) by simp_all
    note a = pinned.tiles_alloc[OF p'(2) assms(2) p(2)[unfolded y]]
    note ap = pool_alloc_pool[OF p(2)[unfolded y]]
    have fresh: "c \<notin> live w" "pb_numa c = numa" using a(2) ap p'(1) by auto
    have live: "live w' = insert c (live w)"
      by (rule set_eqI) (auto simp: live_iff x hold_def set_pool_def)
    have "{b \<in> insert c (live w). pb_numa b = numa} = insert c {b \<in> live w. pb_numa b = numa}"
      using fresh by auto
    moreover have "{b \<in> insert c (live w). pb_numa b = n} = {b \<in> live w. pb_numa b = n}" if "n \<noteq> numa" for n
      using fresh that by auto
    moreover have "lw_pools w' = bt_insert (lw_pools w) numa p'"
      by (simp add: x hold_def set_pool_def)
    ultimately have "tiled w' (live w')"
      using a(1) ap p' inv fresh tiledD[OF inv(3)] unfolding live
      by (auto simp: tiled_def bt.get_insert bt.inv_insert split: if_splits)
    moreover have "refs c (lw_objects w) = 0" "count_list (lw_placed w) c = 0"
      using fresh(1) by (simp_all add: live_iff count_list_0_iff)
    ultimately show ?thesis
      using assms(3) inv fresh ap x by (auto simp: linv_def hold_def set_pool_def)
  qed
  then show "linv w'" "x = Some b \<Longrightarrow> lw_placed w' = b # lw_placed w \<and> lw_state w' = lw_state w \<and> pb_numa b = numa \<and> pb_len b = len \<and> b \<notin> live w"
    by blast+
qed

lemma linv_refs_le:
  assumes "linv w"
  shows "refs b (lw_objects w) + count_list (lw_placed w) b \<le> 1"
  using assms by (simp add: linv_def)

lemma linv_claim:
  assumes "claim k spec w = Inr (w', ws)" "linv w"
  shows "linv w'" "\<And>b. refs b (lw_objects w') = refs b (lw_objects w)" "lw_pools w' = lw_pools w"
    "lw_placed w' = lw_placed w" "lw_readers w' = lw_readers w" "lw_mem w' = lw_mem w"
proof -
  have inv: "bt_inv (lw_objects w)" using assms(2) by (simp add: linv_def)
  obtain obj where w': "w' = set_objects (bt_insert (lw_objects w) k (claim_slots obj)) w"
    and obj: "bt_get (lw_objects w) k = Some obj \<or> bt_get (lw_objects w) k = None \<and> lobj_bufs obj = []"
  proof (cases "bt_get (lw_objects w) k")
    case None
    let ?obj = "\<lparr>lo_spec = spec, lo_slots = replicate (length (os_slots spec)) \<lparr>ls_replicas = [], ls_writing = False\<rparr>\<rparr>"
    have "lobj_bufs ?obj = []" by (simp add: lobj_bufs_def slot_bufs_def)
    with None assms(1) that[of ?obj] show thesis by (simp add: claim_def Let_def)
  next
    case (Some obj)
    with assms(1) that[of obj] show thesis by (simp add: claim_def split: if_splits)
  qed
  have "lobj_bufs (claim_slots obj) = lobj_bufs obj"
    by (rule lobj_bufs_same) (simp add: claim_slots_def slot_bufs_def)
  then have same: "refs b (bt_insert (lw_objects w) k (claim_slots obj)) = refs b (lw_objects w)" for b
    using refs_insert[OF inv, of b k "claim_slots obj"] obj by auto
  show "linv w'"
    by (rule linv_same_refs[OF assms(2), of "lw_objects w'"]) (simp_all add: w' set_objects_def same bt.inv_insert inv)
  show "refs b (lw_objects w') = refs b (lw_objects w)" for b by (simp add: w' set_objects_def same)
qed (use assms in \<open>auto simp: claim_def set_objects_def Let_def split: option.splits if_splits\<close>)

lemma linv_slot_same:
  assumes "linv w" "bt_get (lw_objects w) k = Some obj" "i < length (lo_slots obj)"
    and "slot_bufs s = slot_bufs (lo_slots obj ! i)"
    and "w' = set_objects (bt_insert (lw_objects w) k (obj\<lparr>lo_slots := (lo_slots obj)[i := s]\<rparr>)) w"
  shows "linv w'" "\<And>b. refs b (lw_objects w') = refs b (lw_objects w)"
proof -
  have inv: "bt_inv (lw_objects w)" using assms(1) by (simp add: linv_def)
  show same: "refs b (lw_objects w') = refs b (lw_objects w)" for b
    using refs_put_slot[OF inv assms(2,3), of b s] assms(4) by (simp add: assms(5) set_objects_def)
  show "linv w'"
    by (rule linv_same_refs[OF assms(1), of "lw_objects w'"])
       (use same inv in \<open>simp_all add: assms(5) set_objects_def bt.inv_insert\<close>)
qed

lemma linv_unclaim:
  assumes "unclaim k i w = Some w'" "linv w"
  shows "linv w' \<and> (\<forall>b. refs b (lw_objects w') = refs b (lw_objects w)) \<and> lw_pools w' = lw_pools w \<and>
    lw_placed w' = lw_placed w \<and> lw_readers w' = lw_readers w \<and> lw_mem w' = lw_mem w"
proof (cases "bt_get (lw_objects w) k")
  case (Some obj)
  then obtain slot where slot: "i < length (lo_slots obj)" "slot = lo_slots obj ! i"
    and w': "w' = set_objects (bt_insert (lw_objects w) k (obj\<lparr>lo_slots := (lo_slots obj)[i := slot\<lparr>ls_writing := False\<rparr>]\<rparr>)) w"
    using assms(1) by (auto simp: unclaim_def bind_eq_Some_conv index_def split: if_splits)
  have "slot_bufs (slot\<lparr>ls_writing := False\<rparr>) = slot_bufs (lo_slots obj ! i)"
    by (simp add: slot_bufs_def slot(2))
  from linv_slot_same[OF assms(2) Some slot(1) this w'] show ?thesis
    by (simp add: w' set_objects_def)
qed (use assms in \<open>simp add: unclaim_def\<close>)

lemma linv_publish:
  assumes "local_publish k op w = Some (w', r)" "linv w"
  shows "linv w' \<and> (\<forall>b. refs b (lw_objects w') = refs b (lw_objects w)) \<and> lw_pools w' = lw_pools w \<and>
    lw_placed w' = lw_placed w \<and> lw_readers w' = lw_readers w \<and> lw_mem w' = lw_mem w"
proof (cases "w' = w")
  case False
  obtain d tot where v: "op_publish_validate op = Inr (d, tot)"
    using assms(1) False by (cases "op_publish_validate op") (auto simp: local_publish_def)
  obtain obj where obj: "bt_get (lw_objects w) k = Some obj"
    using assms(1) False v by (cases "bt_get (lw_objects w) k") (auto simp: local_publish_def)
  let ?i = "unat (pub_slot op)"
  define slot where "slot = lo_slots obj ! ?i"
  define r where "r = \<lparr>lr_device = d, lr_tier = External, lr_misplaced = False,
    lr_data = LExternal (iov_segs (pub_src op)) (mr_id (iov_region (pub_src op ! 0)))\<rparr>"
  have slot: "?i < length (lo_slots obj)"
    and w': "w' = set_objects (bt_insert (lw_objects w) k (obj\<lparr>lo_slots := (lo_slots obj)[?i :=
      slot\<lparr>ls_replicas := ls_replicas slot @ [r]\<rparr>]\<rparr>)) w"
    using assms(1) False v obj
    by (auto simp: local_publish_def Let_def bind_eq_Some_conv index_def slot_def r_def split: if_splits)
  have "slot_bufs (slot\<lparr>ls_replicas := ls_replicas slot @ [r]\<rparr>) = slot_bufs (lo_slots obj ! ?i)"
    by (simp add: slot_bufs_def slot_def r_def replica_bufs_def)
  from linv_slot_same[OF assms(2) obj slot this w'] show ?thesis
    by (simp add: w' set_objects_def)
qed (use assms in simp)

lemma linv_retire:
  assumes "linv w"
  shows "linv (local_retire_region rid w) \<and>
    (\<forall>b. refs b (lw_objects (local_retire_region rid w)) = refs b (lw_objects w)) \<and>
    lw_pools (local_retire_region rid w) = lw_pools w \<and> lw_placed (local_retire_region rid w) = lw_placed w \<and>
    lw_readers (local_retire_region rid w) = lw_readers w \<and> lw_mem (local_retire_region rid w) = lw_mem w"
proof -
  let ?f = "\<lambda>obj. obj\<lparr>lo_slots := map (\<lambda>s. s\<lparr>ls_replicas := filter (\<lambda>r. \<not> is_external_of rid r) (ls_replicas s)\<rparr>) (lo_slots obj)\<rparr>"
  have "concat (map replica_bufs (filter (\<lambda>r. \<not> is_external_of rid r) rs)) = concat (map replica_bufs rs)" for rs
    by (induction rs) (auto simp: is_external_of_def replica_bufs_def split: lreplica_data.splits)
  then have "lobj_bufs (?f obj) = lobj_bufs obj" for obj
    by (intro lobj_bufs_same) (simp add: slot_bufs_def)
  then have same: "refs b (bt_map_values ?f objs) = refs b objs" for b objs
    by (induction objs) (auto simp: refs_def bt_map_values_def)
  have "linv (local_retire_region rid w)"
    by (rule linv_same_refs[OF assms, of "bt_map_values ?f (lw_objects w)"])
       (use assms same in \<open>simp_all add: local_retire_region_def set_objects_def linv_def\<close>)
  with same show ?thesis by (simp add: local_retire_region_def set_objects_def)
qed

lemma linv_drop_object:
  assumes "linv w"
  shows "linv (drop_object k w)"
proof (cases "bt_get (lw_objects w) k")
  case (Some obj)
  have inv: "bt_inv (lw_objects w)" using assms by (simp add: linv_def)
  have "refs b (lw_objects w) = refs b (bt_remove (lw_objects w) k) + count_list (lobj_bufs obj) b" for b
    using refs_remove[of b "lw_objects w" k] Some by simp
  then have "linv (drop_refs (lobj_bufs obj) (set_objects (bt_remove (lw_objects w) k) w))"
    using inv by (intro linv_objects[OF assms, of "bt_remove (lw_objects w) k"]) (simp_all add: set_objects_def bt.inv_remove)
  with Some show ?thesis by (simp add: drop_object_def)
qed (use assms in \<open>simp add: drop_object_def\<close>)

lemma placed_replicas_bufs: "concat (map replica_bufs (placed_replicas placed)) = placed_bufs placed"
  by (induction placed) (auto simp: placed_replicas_def placed_bufs_def replica_bufs_def)

lemma linv_finish:
  assumes "finish_slot kb i placed w = Some (w', r)" "linv w" "owns w (placed_bufs placed)"
  shows "linv w' \<and> (w' = let_go_all (placed_bufs placed) w \<or> lw_pools w' = lw_pools w \<and> live w' = live w)"
proof (cases "bt_get (lw_objects w) kb")
  case None
  with assms(1) have "w' = let_go_all (placed_bufs placed) w" by (simp add: finish_slot_def)
  with assms(2,3) show ?thesis by (simp add: linv_let_go_all)
next
  case (Some obj)
  let ?bs = "placed_bufs placed"
  obtain slot ff where slot: "i < length (lo_slots obj)" "slot = lo_slots obj ! i"
    and w': "w' = let_go_all ?bs (w\<lparr>lw_state := \<lparr>lst_objects = bt_insert (lw_objects w) kb (obj\<lparr>lo_slots := (lo_slots obj)[i :=
          slot\<lparr>ls_replicas := ls_replicas slot @ placed_replicas placed, ls_writing := False\<rparr>]\<rparr>), lst_fifo = ff\<rparr>\<rparr>)"
    using assms(1) Some by (auto simp: finish_slot_def Let_def bind_eq_Some_conv index_def split: if_splits)
  define w1 where "w1 = w\<lparr>lw_state := \<lparr>lst_objects = bt_insert (lw_objects w) kb (obj\<lparr>lo_slots := (lo_slots obj)[i :=
          slot\<lparr>ls_replicas := ls_replicas slot @ placed_replicas placed, ls_writing := False\<rparr>]\<rparr>), lst_fifo = ff\<rparr>\<rparr>"
  have inv: "bt_inv (lw_objects w)" "tiled w (live w)" using assms(2) by (simp_all add: linv_def)
  have "count_list (slot_bufs (slot\<lparr>ls_replicas := ls_replicas slot @ placed_replicas placed, ls_writing := False\<rparr>)) b =
      count_list (slot_bufs slot) b + count_list ?bs b" for b
    by (simp add: slot_bufs_def placed_replicas_bufs)
  then have refs: "refs b (lw_objects w1) = refs b (lw_objects w) + count_list ?bs b" for b
    using refs_put_slot[OF inv(1) Some slot(1), of b
        "slot\<lparr>ls_replicas := ls_replicas slot @ placed_replicas placed, ls_writing := False\<rparr>"]
    unfolding slot(2)[symmetric] by (simp add: w1_def)
  have own: "count_list ?bs b \<le> count_list (lw_placed w) b" for b using assms(3) by (simp add: owns_def)
  have pools: "lw_pools w' = lw_pools w"
  proof -
    have "0 < refs b (lw_objects w1)" if "b \<in> set ?bs" for b
      using that unfolding refs by (simp add: zero_less_iff_neq_zero count_list_0_iff)
    then have "lw_pools (let_go_all ?bs w1) = lw_pools w1" by (intro let_go_all_mapped) blast
    then show ?thesis by (simp add: w' w1_def)
  qed
  have cnt: "count_list (lw_placed w') b = count_list (lw_placed w) b - count_list ?bs b" for b
    by (simp add: w' let_go_all_placed)
  have objs: "lw_objects w' = lw_objects w1" "lw_readers w' = lw_readers w" by (simp_all add: w' w1_def)
  have "refs b (lw_objects w') + count_list (lw_placed w') b = refs b (lw_objects w) + count_list (lw_placed w) b" for b
    unfolding objs cnt refs using own[of b] by linarith
  moreover have live: "live w' = live w"
  proof (rule set_eqI)
    fix x show "x \<in> live w' \<longleftrightarrow> x \<in> live w"
    using own[of x] count_list_0_iff[of "lw_placed w" x] count_list_0_iff[of "lw_placed w'" x]
    unfolding live_iff objs cnt refs by (cases "count_list (lw_placed w) x") auto
  qed
  ultimately show ?thesis
    using assms(2) pools inv bt.inv_insert[OF inv(1)] tiled_cong[OF pools]
    by (simp add: linv_def objs) (simp add: w1_def)
qed

end
