(* ===== verification/Pega_Local_Safe.thy ===== *)
theory Pega_Local_Safe
  imports Pega_Local_Refs
begin

text \<open>
  Memory safety of the CUDA backend under concurrency. Every critical section of \<open>local.rs\<close>
  is one step of \<open>local_step\<close>; a run interleaves the steps of any number of operations.
\<close>

section \<open>Interleavings\<close>

text \<open>The addresses of a pool, of the reserved block of a buffer, and of what running puts own.\<close>

definition pool_addrs :: "pinned_pool \<Rightarrow> u64 set" where
  "pool_addrs p = set (span (pp_base p) (pp_len p))"

definition buf_addrs :: "pinned_buf \<Rightarrow> u64 set" where
  "buf_addrs b = set (span (buf_as_ptr b) (pb_reserved b))"

definition pool_mem :: "local_world \<Rightarrow> u64 set" where
  "pool_mem w = {x. \<exists>n p. bt_get (lw_pools w) n = Some p \<and> x \<in> pool_addrs p}"

definition put_mem :: "local_world \<Rightarrow> u64 set" where
  "put_mem w = (\<Union>b \<in> set (lw_placed w). buf_addrs b)"

text \<open>
  One step of any of the operations that run at the same time. The memory changes by writes
  of the clients to their own memory, of a \<open>get\<close> to its destination (client memory), and of a
  \<open>put\<close> to the buffers it owns, in pieces of any size (\<open>writes\<close>).
\<close>

inductive local_step :: "local_inner \<Rightarrow> local_world \<Rightarrow> local_world \<Rightarrow> bool" for li where
  register: "local_register li addr len d w = Some (w', r) \<Longrightarrow> local_step li w w'"
| retire: "local_step li w (local_retire_region rid w)"
| claim: "claim k spec w = Inr (w', ws) \<Longrightarrow> local_step li w w'"
| evict: "evict_once numa protect w = Some (w', ev) \<Longrightarrow> local_step li w w'"
| alloc: "0 < len \<Longrightarrow> try_alloc numa len w = Some (w', x) \<Longrightarrow> local_step li w w'"
| writes: "\<forall>x \<in> pool_mem w - put_mem w. m x = lw_mem w x \<Longrightarrow> local_step li w (w\<lparr>lw_mem := m\<rparr>)"
| finish: "owns w (placed_bufs placed) \<Longrightarrow> finish_slot k i placed w = Some (w', r) \<Longrightarrow> local_step li w w'"
| give_up: "owns w bs \<Longrightarrow> local_step li w (let_go_all bs w)"
| unclaim: "unclaim k i w = Some w' \<Longrightarrow> local_step li w w'"
| publish: "local_publish k op w = Some (w', r) \<Longrightarrow> local_step li w w'"
| pick: "get_pick li k op d (lw_objects w) = Some (Inr (r, len)) \<Longrightarrow> local_step li w (clone_refs (replica_bufs r) w)"
| unpick: "b \<in> set (lw_readers w) \<Longrightarrow> local_step li w (drop_clone b w)"
| remove: "local_step li w (drop_object k w)"

text \<open>A pool keeps its memory and only counts up; a buffer that appears is new.\<close>

definition pool_le :: "pinned_pool \<Rightarrow> pinned_pool \<Rightarrow> bool" where
  "pool_le p p' \<longleftrightarrow> pp_base p' = pp_base p \<and> pp_len p' = pp_len p \<and> pp_numa p' = pp_numa p \<and> pp_serial p \<le> pp_serial p'"

definition fresh :: "local_world \<Rightarrow> local_world \<Rightarrow> pinned_buf \<Rightarrow> bool" where
  "fresh w w' b \<longleftrightarrow> (\<exists>p p'. bt_get (lw_pools w) (pb_numa b) = Some p \<and> bt_get (lw_pools w') (pb_numa b) = Some p' \<and>
     pp_serial p \<le> pb_serial b \<and> pb_serial b < pp_serial p')"

definition evolves :: "local_world \<Rightarrow> local_world \<Rightarrow> bool" where
  "evolves w w' \<longleftrightarrow> (\<forall>n. rel_option pool_le (bt_get (lw_pools w) n) (bt_get (lw_pools w') n)) \<and>
     live w' \<subseteq> live w \<union> {b. fresh w w' b} \<and> set (lw_placed w') \<subseteq> set (lw_placed w) \<union> {b. fresh w w' b}"

lemma pool_le_refl [simp]: "rel_option pool_le x x"
  by (rule option.rel_refl) (simp add: pool_le_def)

lemma evolves_same:
  "lw_pools w' = lw_pools w \<Longrightarrow> live w' \<subseteq> live w \<Longrightarrow> set (lw_placed w') \<subseteq> set (lw_placed w) \<Longrightarrow> evolves w w'"
  by (auto simp: evolves_def)

lemma evolves_refs:
  "\<forall>b. refs b (lw_objects w') = refs b (lw_objects w) \<Longrightarrow> lw_pools w' = lw_pools w \<Longrightarrow> lw_placed w' = lw_placed w \<Longrightarrow>
   lw_readers w' = lw_readers w \<Longrightarrow> evolves w w'"
  by (rule evolves_same) (auto simp: live_iff)

lemma drop_ref_pools: "rel_option pool_le (bt_get (lw_pools w) n) (bt_get (lw_pools (drop_ref b w)) n)" if "bt_inv (lw_pools w)"
  using that by (auto simp: drop_ref_def set_pool_def bt.get_insert pool_le_def buf_drop_def pool_release_def split: option.splits)

lemma drop_ref_inv: "bt_inv (lw_pools w) \<Longrightarrow> bt_inv (lw_pools (drop_ref b w))"
  by (simp add: drop_ref_def set_pool_def bt.inv_insert split: option.splits)

lemma pool_le_trans: "rel_option pool_le x y \<Longrightarrow> rel_option pool_le y z \<Longrightarrow> rel_option pool_le x z"
  by (cases x; cases y; cases z) (auto simp: pool_le_def)

lemma drop_refs_pools:
  "bt_inv (lw_pools w) \<Longrightarrow> rel_option pool_le (bt_get (lw_pools w) n) (bt_get (lw_pools (drop_refs bs w)) n)"
proof (induction bs arbitrary: w)
  case (Cons b bs)
  from pool_le_trans[OF drop_ref_pools[OF Cons.prems] Cons.IH[OF drop_ref_inv[OF Cons.prems]]]
  show ?case by (simp add: drop_refs_def)
qed (simp add: drop_refs_def)

lemma let_go_all_pools:
  "bt_inv (lw_pools w) \<Longrightarrow> rel_option pool_le (bt_get (lw_pools w) n) (bt_get (lw_pools (let_go_all bs w)) n)"
proof (induction bs arbitrary: w)
  case (Cons b bs)
  let ?w = "w\<lparr>lw_placed := remove1 b (lw_placed w)\<rparr>"
  have inv: "bt_inv (lw_pools ?w)" using Cons.prems by simp
  from pool_le_trans[OF drop_ref_pools[OF inv] Cons.IH[OF drop_ref_inv[OF inv]]]
  show ?case by (simp add: let_go_all_def let_go_def)
qed (simp add: let_go_all_def)

lemma let_go_all_subset: "set (lw_placed (let_go_all bs w)) \<subseteq> set (lw_placed w)"
  using let_go_all_placed[of bs w] count_list_0_iff by (metis diff_0_eq_0 subsetI)

lemma linv_pools: "linv w \<Longrightarrow> bt_inv (lw_pools w)"
  by (simp add: linv_def tiled_def)

lemma live_cong:
  "\<forall>b. refs b (lw_objects w') = refs b (lw_objects w) \<Longrightarrow> lw_placed w' = lw_placed w \<Longrightarrow> lw_readers w' = lw_readers w \<Longrightarrow>
   live w' = live w"
  by (rule set_eqI) (simp add: live_iff)

lemma replica_in_live:
  assumes "get_pick li k op d (lw_objects w) = Some (Inr (r, len))" "b \<in> set (replica_bufs r)"
  shows "0 < refs b (lw_objects w)"
proof -
  obtain obj where obj: "bt_get (lw_objects w) k = Some obj"
    using assms(1) by (cases "bt_get (lw_objects w) k") (auto simp: get_pick_def)
  then obtain slot where slot: "slot \<in> set (lo_slots obj)" "nearest_replica li d slot = Some r"
    using assms(1)
    by (auto simp: get_pick_def Let_def bind_eq_Some_conv index_def intro: that[OF nth_mem] split: if_splits option.splits)
  then have "r \<in> set (ls_replicas slot)" by (auto simp: nearest_replica_def dest: min_by_key_in)
  with slot(1) assms(2) have "b \<in> set (lobj_bufs obj)" by (auto simp: lobj_bufs_def slot_bufs_def)
  then have "b \<in> set (all_bufs (lw_objects w))"
    using obj by (force simp: all_bufs_def bt_get_map_of dest: map_of_SomeD)
  then show ?thesis by (simp add: all_bufs_refs)
qed

lemma linv_clone:
  assumes "\<forall>b \<in> set bs. b \<in> live w" "linv w"
  shows "linv (clone_refs bs w)" "live (clone_refs bs w) = live w"
proof -
  show "live (clone_refs bs w) = live w"
    using assms(1) by (auto simp: live_iff clone_refs_def set_eq_iff)
  then show "linv (clone_refs bs w)"
    using assms(2) tiled_cong[of "clone_refs bs w" w] by (simp add: linv_def) (simp add: clone_refs_def)
qed

lemma local_step_linv:
  assumes "local_step li w w'" "linv w"
  shows "linv w'"
  using assms
proof cases
  case (register addr len d r)
  then have "\<exists>c. w' = w\<lparr>lw_counter := c\<rparr>"
    by (auto simp: local_register_def Let_def case_prod_unfold split: device.splits sum.splits)
  then obtain c where w': "w' = w\<lparr>lw_counter := c\<rparr>" by blast
  then show ?thesis
    by (intro linv_same_refs[OF assms(2), of "lw_objects w"]) (use assms(2) in \<open>simp_all add: linv_def\<close>)
next
  case (writes m)
  then show ?thesis
    by (intro linv_same_refs[OF assms(2), of "lw_objects w"]) (use assms(2) in \<open>simp_all add: linv_def\<close>)
next
  case (pick k op d r len)
  with replica_in_live have "\<forall>b \<in> set (replica_bufs r). b \<in> live w" by (metis live_iff)
  with pick assms(2) linv_clone(1) show ?thesis by simp
qed (use assms(2) in \<open>auto simp: linv_retire linv_drop_object linv_let_go_all linv_drop_clone
      dest: linv_claim(1) linv_evict_once linv_try_alloc(1) linv_finish linv_unclaim linv_publish\<close>)

lemma live_subset:
  assumes "\<And>b. refs b (lw_objects w') \<le> refs b (lw_objects w)" "set (lw_placed w') \<subseteq> set (lw_placed w)"
    "set (lw_readers w') \<subseteq> set (lw_readers w)"
  shows "live w' \<subseteq> live w"
proof
  fix b assume "b \<in> live w'"
  then show "b \<in> live w" using assms(2,3) assms(1)[of b] by (auto simp: live_iff)
qed

lemma evolves_drop:
  assumes "linv w" "lw_pools w1 = lw_pools w" "lw_placed w1 = lw_placed w" "lw_readers w1 = lw_readers w"
    "\<And>b. refs b (lw_objects w1) \<le> refs b (lw_objects w)"
  shows "evolves w (drop_refs bs w1)"
proof -
  have "live (drop_refs bs w1) \<subseteq> live w" using assms by (intro live_subset) simp_all
  moreover have "bt_inv (lw_pools w1)" using linv_pools[OF assms(1)] assms(2) by simp
  note drop_refs_pools[OF this, of _ bs, unfolded assms(2)]
  ultimately show ?thesis using assms(3) by (auto simp: evolves_def)
qed

lemma evolves_give_up: "linv w \<Longrightarrow> evolves w (let_go_all bs w)"
  using let_go_all_pools[OF linv_pools, of w _ bs] let_go_all_subset[of bs w] live_subset[of "let_go_all bs w" w]
  by (auto simp: evolves_def)

lemma finish_evolves:
  assumes "finish_slot kb i placed w = Some (w', r)" "linv w" "owns w (placed_bufs placed)"
  shows "evolves w w' \<and> lw_mem w' = lw_mem w"
proof -
  have "lw_mem w' = lw_mem w \<and> set (lw_placed w') \<subseteq> set (lw_placed w)"
    using assms(1) let_go_all_subset[of "placed_bufs placed"]
    by (fastforce simp: finish_slot_def Let_def bind_eq_Some_conv split: option.splits)
  with linv_finish[OF assms] evolves_give_up[OF assms(2)] show ?thesis
    by (auto intro: evolves_same)
qed

lemma evict_evolves:
  assumes "evict_once numa protect w = Some (w', ev)" "linv w"
  shows "evolves w w' \<and> lw_mem w' = lw_mem w"
proof -
  from assms(1) obtain q objs rest deferred gone where
    ev: "evict_pass (Cpu numa) protect [] (lw_objects w) q = Some (objs, rest, deferred, gone)" and
    w': "w' = drop_refs (concat (map replica_bufs gone)) (set_fifo (Cpu numa) (deferred @ rest) (set_objects objs w))"
    unfolding evict_once_def bind_eq_Some_conv by (elim exE conjE) (simp split: prod.splits)
  have inv: "bt_inv (lw_objects w)" using assms(2) by (simp add: linv_def)
  note r = evict_pass_refs[OF ev inv]
  have "evolves w w'"
    unfolding w' by (rule evolves_drop[OF assms(2)]) (use r in \<open>simp_all add: set_fifo_def set_objects_def\<close>)
  then show ?thesis by (simp add: w' set_fifo_def set_objects_def)
qed

lemma alloc_evolves:
  assumes "try_alloc numa len w = Some (w', x)" "linv w" "0 < len"
  shows "evolves w w' \<and> lw_mem w' = lw_mem w"
proof (cases x)
  case None
  with linv_try_alloc(2)[OF assms(1,3,2)] show ?thesis by (auto intro: evolves_refs)
next
  case (Some b)
  note a = linv_try_alloc(3)[OF assms(1,3,2) Some]
  obtain p p' where p: "bt_get (lw_pools w) numa = Some p" "pool_alloc len p = Some (Some (p', b))" "w' = hold b (set_pool numa p' w)"
    using assms(1) Some by (auto simp: try_alloc_def bind_eq_Some_conv split: option.splits prod.splits)
  have pool: "lw_pools w' = bt_insert (lw_pools w) numa p'" by (simp add: p hold_def set_pool_def)
  note ap = pool_alloc_pool[OF p(2)]
  have "pb_numa b = numa" using a by simp
  then have "fresh w w' b" unfolding fresh_def pool using p(1) ap by simp
  moreover have "live w' \<subseteq> insert b (live w)" by (auto simp: live_iff p(3) hold_def set_pool_def)
  moreover have "rel_option pool_le (bt_get (lw_pools w) n) (bt_get (lw_pools w') n)" for n
    using p(1) ap by (auto simp: pool pool_le_def)
  ultimately show ?thesis
    using a p(3) by (auto simp: evolves_def hold_def set_pool_def)
qed

lemma drop_object_evolves:
  assumes "linv w"
  shows "evolves w (drop_object k w) \<and> lw_mem (drop_object k w) = lw_mem w"
proof (cases "bt_get (lw_objects w) k")
  case (Some obj)
  have "refs b (bt_remove (lw_objects w) k) \<le> refs b (lw_objects w)" for b
    using refs_remove[of b "lw_objects w" k] by linarith
  then have "evolves w (drop_refs (lobj_bufs obj) (set_objects (bt_remove (lw_objects w) k) w))"
    by (intro evolves_drop[OF assms]) (simp_all add: set_objects_def)
  with Some show ?thesis by (simp add: drop_object_def set_objects_def)
qed (simp add: drop_object_def evolves_refs)

lemma local_step_evolves:
  assumes "local_step li w w'" "linv w"
  shows "evolves w w' \<and> (\<forall>x \<in> pool_mem w - put_mem w. lw_mem w' x = lw_mem w x)"
  using assms
proof cases
  case (register addr len d r)
  then have "\<exists>c. w' = w\<lparr>lw_counter := c\<rparr>"
    by (auto simp: local_register_def Let_def case_prod_unfold split: device.splits sum.splits)
  then show ?thesis by (auto intro: evolves_refs)
next
  case (retire rid)
  then show ?thesis using linv_retire[OF assms(2), of rid] by (simp add: evolves_refs)
next
  case (claim k spec ws)
  then show ?thesis using linv_claim[OF claim assms(2)] by (simp add: evolves_refs)
next
  case (unclaim k i)
  then show ?thesis using linv_unclaim[OF unclaim assms(2)] by (simp add: evolves_refs)
next
  case (publish k op r)
  then show ?thesis using linv_publish[OF publish assms(2)] by (simp add: evolves_refs)
next
  case (writes m)
  then show ?thesis by (simp add: evolves_refs)
next
  case (pick k op d r len)
  with replica_in_live have "\<forall>b \<in> set (replica_bufs r). b \<in> live w" by (metis live_iff)
  from linv_clone(2)[OF this assms(2)] pick have "evolves w w'"
    by (intro evolves_same) (simp_all add: clone_refs_def)
  with pick show ?thesis by (simp add: clone_refs_def)
next
  case (unpick b)
  let ?w = "w\<lparr>lw_readers := remove1 b (lw_readers w)\<rparr>"
  have "live (drop_clone b w) \<subseteq> live w"
    by (rule live_subset) (auto simp: drop_clone_def dest: subsetD[OF set_remove1_subset])
  then have "evolves w w'"
    using drop_ref_pools[of ?w _ b] linv_pools[OF assms(2)] unpick by (auto simp: evolves_def drop_clone_def)
  with unpick show ?thesis by (simp add: drop_clone_def)
qed (use assms(2) evolves_give_up[OF assms(2)] in \<open>simp_all add: drop_object_evolves evict_evolves alloc_evolves finish_evolves\<close>)

section \<open>Whole runs\<close>

definition pools_apart :: "local_world \<Rightarrow> bool" where
  "pools_apart w \<longleftrightarrow> (\<forall>n p. bt_get (lw_pools w) n = Some p \<longrightarrow> unat (pp_base p) + pp_len p \<le> 2 ^ 64) \<and>
     (\<forall>n p n' p'. bt_get (lw_pools w) n = Some p \<longrightarrow> bt_get (lw_pools w) n' = Some p' \<longrightarrow> n \<noteq> n' \<longrightarrow>
        pool_addrs p \<inter> pool_addrs p' = {})"

text \<open>A backend as it is built: fresh pools over mappings that do not overlap, no objects.\<close>

definition local_start :: "local_world \<Rightarrow> bool" where
  "local_start w \<longleftrightarrow> lw_objects w = [] \<and> lw_placed w = [] \<and> lw_readers w = [] \<and> bt_inv (lw_pools w) \<and> pools_apart w \<and>
     (\<forall>n p. bt_get (lw_pools w) n = Some p \<longrightarrow>
        (\<exists>mmap reg bytes. 0 < bytes \<and> pool_new mmap reg n bytes = Some (Inr p)))"

definition aged :: "local_world \<Rightarrow> pinned_buf \<Rightarrow> bool" where
  "aged w b \<longleftrightarrow> (\<exists>p. bt_get (lw_pools w) (pb_numa b) = Some p \<and> pb_serial b < pp_serial p)"

definition run_inv :: "local_world \<Rightarrow> bool" where
  "run_inv w \<longleftrightarrow> linv w \<and> pools_apart w \<and> (\<forall>b \<in> live w. aged w b)"

lemma pool_new_numa: "pool_new mmap reg n bytes = Some (Inr p) \<Longrightarrow> pp_numa p = n"
  unfolding pool_new_def bind_eq_Some_conv by (elim exE conjE, rename_tac len, case_tac "mmap len") auto

lemma start_run_inv:
  assumes "local_start w"
  shows "run_inv w"
proof -
  have live: "live w = {}" using assms by (auto simp: live_iff local_start_def refs_def)
  have "pp_numa p = n \<and> pinned.tiles p {}" if "bt_get (lw_pools w) n = Some p" for n p
    using assms that pool_new_numa pool_new_tiles(1) unfolding local_start_def by metis
  then have "tiled w {}" using assms by (simp add: tiled_def local_start_def)
  with live assms show ?thesis by (simp add: run_inv_def linv_def local_start_def refs_def)
qed

lemma evolves_pool:
  "evolves w w' \<Longrightarrow> bt_get (lw_pools w') n = Some p' \<Longrightarrow> \<exists>p. bt_get (lw_pools w) n = Some p \<and> pool_le p p'"
  unfolding evolves_def by (metis option_rel_Some2)

lemma evolves_apart:
  assumes "evolves w w'" "pools_apart w"
  shows "pools_apart w'"
proof -
  have same: "\<exists>p. bt_get (lw_pools w) n = Some p \<and> pp_base p' = pp_base p \<and> pp_len p' = pp_len p \<and> pool_addrs p' = pool_addrs p"
    if "bt_get (lw_pools w') n = Some p'" for n p'
    using evolves_pool[OF assms(1) that] by (auto simp: pool_addrs_def pool_le_def)
  show ?thesis
    unfolding pools_apart_def
  proof (intro conjI allI impI)
    fix n p' assume "bt_get (lw_pools w') n = Some p'"
    from same[OF this] assms(2) show "unat (pp_base p') + pp_len p' \<le> 2 ^ 64" by (force simp: pools_apart_def)
  next
    fix n p' n' q' assume g: "bt_get (lw_pools w') n = Some p'" "bt_get (lw_pools w') n' = Some q'" and "n \<noteq> n'"
    with same[OF g(1)] same[OF g(2)] assms(2) show "pool_addrs p' \<inter> pool_addrs q' = {}"
      unfolding pools_apart_def by metis
  qed
qed

lemma evolves_aged:
  assumes "evolves w w'" "aged w b"
  shows "aged w' b"
  using assms unfolding evolves_def aged_def by (metis option_rel_Some1 pool_le_def order_less_le_trans)

lemma step_run_inv:
  assumes "local_step li w w'" "run_inv w"
  shows "run_inv w'"
proof -
  have linv: "linv w" using assms(2) by (simp add: run_inv_def)
  have ev: "evolves w w'" using local_step_evolves[OF assms(1) linv] by simp
  have "aged w' b" if "b \<in> live w'" for b
  proof (cases "fresh w w' b")
    case True
    then show ?thesis by (auto simp: fresh_def aged_def)
  next
    case False
    with ev that have "b \<in> live w" by (auto simp: evolves_def)
    with assms(2) evolves_aged[OF ev] show ?thesis by (simp add: run_inv_def)
  qed
  with local_step_linv[OF assms(1) linv] evolves_apart[OF ev] assms(2) show ?thesis
    by (simp add: run_inv_def)
qed

lemma run_run_inv: "(local_step li)\<^sup>*\<^sup>* w w' \<Longrightarrow> run_inv w \<Longrightarrow> run_inv w'"
  by (induction rule: rtranclp_induct) (auto intro: step_run_inv)

text \<open>From offsets to addresses.\<close>

lemma fits_addrs:
  assumes "buf_fits b p"
  shows "buf_addrs b = (\<lambda>i. pp_base p + word_of_nat i) ` buf_block b" "buf_block b \<subseteq> {..<pp_len p}"
proof -
  have "buf_block b = (\<lambda>i. pb_off b + i) ` {0..<pb_reserved b}"
    by (simp add: buf_block_def block_def add.commute)
  then have "(\<lambda>i. pp_base p + word_of_nat i) ` buf_block b = (\<lambda>i. pp_base p + word_of_nat (pb_off b + i)) ` {0..<pb_reserved b}"
    by (simp only: image_image)
  then show "buf_addrs b = (\<lambda>i. pp_base p + word_of_nat i) ` buf_block b"
    using assms by (simp add: buf_addrs_def span_def buf_as_ptr_def buf_fits_def add.assoc)
  show "buf_block b \<subseteq> {..<pp_len p}" using assms pinned.fits_bound by blast
qed

lemma live_fits:
  assumes "run_inv w" "b \<in> live w"
  shows "\<exists>p. bt_get (lw_pools w) (pb_numa b) = Some p \<and> pinned.tiles p {y \<in> live w. pb_numa y = pb_numa b} \<and> buf_fits b p"
  using assms by (force simp: run_inv_def linv_def tiled_def pinned.tiles_def)

lemma fits_pool: "buf_fits b p \<Longrightarrow> buf_addrs b \<subseteq> pool_addrs p"
  using fits_addrs[of b p] by (force simp: pool_addrs_def span_def)

lemma live_in_pool: "run_inv w \<Longrightarrow> b \<in> live w \<Longrightarrow> buf_addrs b \<subseteq> pool_mem w"
  using live_fits fits_pool by (fastforce simp: pool_mem_def)

lemma live_apart:
  assumes "run_inv w" "b \<in> live w" "c \<in> live w" "b \<noteq> c"
  shows "buf_addrs b \<inter> buf_addrs c = {}"
proof -
  obtain p q where p: "bt_get (lw_pools w) (pb_numa b) = Some p" "pinned.tiles p {y \<in> live w. pb_numa y = pb_numa b}" "buf_fits b p"
    and q: "bt_get (lw_pools w) (pb_numa c) = Some q" "buf_fits c q"
    using live_fits[OF assms(1,2)] live_fits[OF assms(1,3)] by blast
  have len: "pp_len p \<le> 2 ^ 64" using assms(1) p(1) by (force simp: run_inv_def pools_apart_def)
  show "buf_addrs b \<inter> buf_addrs c = {}"
  proof (cases "pb_numa b = pb_numa c")
    case True
    then have "q = p" using p(1) q(1) by simp
    moreover have "buf_block b \<inter> buf_block c = {}"
      using p(2) assms(2-4) True by (auto simp: pinned.tiles_def)
    moreover have "inj_on (\<lambda>i. pp_base p + word_of_nat i :: u64) {..<pp_len p}"
      using addr_inj[OF len] by (auto intro: inj_onI)
    then have "(\<lambda>i. pp_base p + word_of_nat i) ` (buf_block b \<inter> buf_block c) =
        (\<lambda>i. pp_base p + word_of_nat i) ` buf_block b \<inter> (\<lambda>i. pp_base p + word_of_nat i) ` buf_block c"
      if "buf_block c \<subseteq> {..<pp_len p}"
      using that fits_addrs(2)[OF p(3)] by (intro inj_on_image_Int)
    ultimately show ?thesis
      using fits_addrs(1)[OF p(3)] fits_addrs[OF q(2)] by (simp flip: inj_on_image_Int)
  next
    case False
    with assms(1) p(1) q(1) have "pool_addrs p \<inter> pool_addrs q = {}"
      unfolding run_inv_def pools_apart_def by blast
    with fits_pool[OF p(3)] fits_pool[OF q(2)] show ?thesis by blast
  qed
qed

lemma step_keeps_bytes:
  assumes "local_step li w w'" "run_inv w" "aged w b" "b \<notin> set (lw_placed w)" "b \<in> live w'"
  shows "b \<in> live w" "b \<notin> set (lw_placed w')" "\<forall>x \<in> buf_addrs b. lw_mem w' x = lw_mem w x"
proof -
  have linv: "linv w" using assms(2) by (simp add: run_inv_def)
  note ev = local_step_evolves[OF assms(1) linv]
  have "\<not> fresh w w' b" using assms(3) by (auto simp: aged_def fresh_def)
  then show live: "b \<in> live w" "b \<notin> set (lw_placed w')"
    using ev assms(4,5) by (auto simp: evolves_def)
  have "buf_addrs b \<subseteq> pool_mem w - put_mem w"
  proof -
    have "buf_addrs b \<inter> buf_addrs c = {}" if "c \<in> set (lw_placed w)" for c
      using live_apart[OF assms(2) live(1), of c] that assms(4) by (auto simp: live_iff)
    then show ?thesis using live_in_pool[OF assms(2) live(1)] by (auto simp: put_mem_def)
  qed
  with ev show "\<forall>x \<in> buf_addrs b. lw_mem w' x = lw_mem w x" by blast
qed

lemma run_keeps_bytes:
  assumes "(local_step li)\<^sup>*\<^sup>* w w'" "run_inv w" "aged w b" "b \<notin> set (lw_placed w)" "b \<in> live w'"
  shows "b \<in> live w \<and> (\<forall>x \<in> buf_addrs b. lw_mem w' x = lw_mem w x)"
  using assms(1-4)
proof (induction rule: converse_rtranclp_induct)
  case (step w w1)
  have linv: "linv w" using step.prems(1) by (simp add: run_inv_def)
  have ev: "evolves w w1" using local_step_evolves[OF step.hyps(1) linv] by simp
  have "b \<notin> set (lw_placed w1)"
    using ev step.prems(2,3) by (auto simp: evolves_def aged_def fresh_def)
  with step.IH step_run_inv[OF step.hyps(1) step.prems(1)] evolves_aged[OF ev step.prems(2)]
  have ih: "b \<in> live w1" "\<forall>x \<in> buf_addrs b. lw_mem w' x = lw_mem w1 x" by blast+
  from step_keeps_bytes[OF step.hyps(1) step.prems ih(1)] ih(2) show ?case by simp
qed (use assms(5) in simp)

lemma finite_live: "finite (live w)"
proof -
  have "live w = set (all_bufs (lw_objects w)) \<union> set (lw_placed w) \<union> set (lw_readers w)"
    by (auto simp: live_def referenced_def)
  then show ?thesis by simp
qed



section \<open>A concrete run\<close>

definition lex_pool :: pinned_pool where
  "lex_pool = \<lparr>pp_numa = 0, pp_base = 2097152, pp_len = 2097152, pp_registered = True, pp_free = [(0, 2097152)], pp_serial = 0\<rparr>"

definition lex0 :: local_world where
  "lex0 = \<lparr>lw_counter = 1, lw_state = \<lparr>lst_objects = [], lst_fifo = [Cpu 0 \<mapsto> []]\<rparr>, lw_pools = [(0, lex_pool)],
     lw_placed = [], lw_readers = [], lw_mem = (\<lambda>a. ucast a + 3)\<rparr>"

definition lex_spec :: object_spec where
  "lex_spec = \<lparr>os_retention = Cache, os_slots = [\<lparr>ss_len = 4, ss_placement = Anywhere\<rparr>]\<rparr>"

definition lex_buf :: pinned_buf where
  "lex_buf = \<lparr>pb_serial = 0, pb_numa = 0, pb_base = 2097152, pb_off = 0, pb_reserved = 2097152, pb_len = 4\<rparr>"

definition lex_full :: pinned_pool where
  "lex_full = lex_pool\<lparr>pp_free := [], pp_serial := 1\<rparr>"

definition lex_object :: "bool \<Rightarrow> lreplica list \<Rightarrow> lobject" where
  "lex_object busy rs = \<lparr>lo_spec = lex_spec, lo_slots = [\<lparr>ls_replicas = rs, ls_writing = busy\<rparr>]\<rparr>"

definition lex_replica :: lreplica where
  "lex_replica = \<lparr>lr_device = Cpu 0, lr_tier = Dram, lr_misplaced = False, lr_data = Pinned lex_buf\<rparr>"

definition host_engine :: cuda_engine where
  "host_engine = \<lparr>cu_h2d = (\<lambda>_. host_copy), cu_d2h = (\<lambda>_. host_copy), cu_peer = (\<lambda>_ _. host_copy), cu_sync = (\<lambda>_ m. (m, Inr ()))\<rparr>"

definition lex_li :: local_inner where
  "lex_li = \<lparr>li_info = \<lparr>ai_name = ''local'', ai_node = 0, ai_devices = [Cpu 0], ai_capability = capability_all\<rparr>,
     li_topo = \<lparr>tp_numa_nodes = [0], tp_cpus_by_numa = [(0, [0])], tp_gpu_numa = Map.empty\<rparr>, li_gpus = [], li_engine = host_engine\<rparr>"

text \<open>A \<open>put\<close> of one slot that has claimed it; the buffer it allocated; the slot it wrote.\<close>

definition lex1 :: local_world where
  "lex1 = set_objects [([1], lex_object True [])] lex0"

definition lex2 :: local_world where
  "lex2 = lex1\<lparr>lw_pools := [(0, lex_full)], lw_placed := [lex_buf]\<rparr>"

definition lex3 :: local_world where
  "lex3 = lex2\<lparr>lw_state := \<lparr>lst_objects = [([1], lex_object False [lex_replica])], lst_fifo = [Cpu 0 \<mapsto> [([1], 0)]]\<rparr>, lw_placed := []\<rparr>"

lemmas lex_defs = lex0_def lex1_def lex2_def lex3_def lex_object_def lex_spec_def lex_replica_def lex_buf_def
  lex_full_def lex_pool_def set_objects_def set_pool_def hold_def

lemma lex_start: "local_start lex0"
proof -
  have "pool_new (\<lambda>_. Inr 2097152) (\<lambda>_ _. True) 0 1 = Some (Inr lex_pool)"
    by (simp add: pool_new_def pool_eval lex_pool_def)
  moreover have "\<exists>mmap reg bytes. 0 < bytes \<and> pool_new mmap reg 0 bytes = Some (Inr lex_pool)"
    using calculation by (intro exI[of _ 1] exI) auto
  ultimately show ?thesis
    by (auto simp: local_start_def pools_apart_def lex0_def bt_inv_def lex_pool_def split: if_splits)
qed

lemma lex_steps: "(local_step li)\<^sup>*\<^sup>* lex0 lex3"
proof -
  have "claim [1] lex_spec lex0 = Inr (lex1, [True])"
    by (simp add: claim_def lex_defs claim_slots_def claimable_def)
  then have 1: "local_step li lex0 lex1" by (rule local_step.claim)
  have "pool_alloc 4 lex_pool = Some (Some (lex_full, lex_buf))"
    by (simp add: pool_eval lex_pool_def lex_full_def lex_buf_def)
  then have "try_alloc 0 4 lex1 = Some (lex2, Some lex_buf)"
    by (simp add: try_alloc_def lex2_def lex1_def lex0_def set_objects_def set_pool_def hold_def)
  then have 2: "local_step li lex1 lex2" by (rule local_step.alloc[rotated]) simp
  have "finish_slot [1] 0 [(0, False, lex_buf)] lex2 = Some (lex3, Inr ())"
    by (simp add: finish_slot_def lex_defs Let_def index_def placed_replicas_def placed_bufs_def let_go_all_def
        let_go_def drop_ref_def referenced_def all_bufs_def lobj_bufs_def slot_bufs_def replica_bufs_def)
  moreover have "owns lex2 (placed_bufs [(0, False, lex_buf)])"
    by (simp add: owns_def placed_bufs_def lex2_def)
  ultimately have 3: "local_step li lex2 lex3" by (rule local_step.finish[rotated])
  from 1 2 3 show ?thesis by (meson rtranclp.rtrancl_into_rtrancl rtranclp.rtrancl_refl)
qed



end
