(* ===== verification/Pega_Local_Run.thy ===== *)
theory Pega_Local_Run
  imports Pega_Local_Safe "HOL-Library.Multiset"
begin

text \<open>
  The operations of the CUDA backend as runs of their critical sections, and what a \<open>put\<close>
  followed by a \<open>get\<close> delivers.
\<close>

section \<open>Copies write only their destination\<close>

lemma zip_loop_frame:
  assumes "zip_loop f src s_off dst d_off left m = Some (m', r)" "transfer_ok f" "cursor_ok dst d_off"
    and "x \<notin> set (seg_span dst)"
  shows "m' x = m x"
  using assms
proof (induction f src s_off dst d_off left m rule: zip_loop.induct)
  case (1 f src s_off dst d_off left m)
  show ?case
  proof (cases "left = 0 \<or> src = [] \<or> dst = []")
    case True
    with "1.prems"(1) show ?thesis by (subst (asm) zip_loop.simps) (auto split: if_splits)
  next
    case False
    then obtain da dl ds where dst: "dst = (da, dl) # ds" by (cases dst) auto
    from "1.prems"(1) False obtain a b s d where c: "checked_sub (snd (hd src)) s_off = Some a"
      "checked_sub (snd (hd dst)) d_off = Some b" "checked_add (fst (hd src)) s_off = Some s" "checked_add (fst (hd dst)) d_off = Some d"
      by (subst (asm) zip_loop.simps) (auto simp: bind_eq_Some_conv)
    define n where "n = min (min a b) left"
    have b: "b = dl - d_off" "d_off \<le> dl" using c(2) dst by (auto simp: checked_sub_def split: if_splits)
    have "unat n \<le> unat b" unfolding n_def word_le_nat_alt[symmetric] by (simp add: min_le_iff_disj)
    then have n: "unat n \<le> unat dl - unat d_off" using b by (simp add: unat_sub)
    note D = cursor_addr[OF "1.prems"(3)[unfolded dst] n] advance_ahead[OF "1.prems"(3)[unfolded dst] n]
    have d: "d = da + d_off" using D(1) c(4) dst by simp
    obtain m1 r1 where f: "f s d n m = (m1, r1)" by fastforce
    have "set (span d (unat n)) \<subseteq> set (seg_span dst)"
      using D(3) d dst by (metis ahead_def in_set_dropD in_set_takeD subsetI)
    with transfer_frame[OF "1.prems"(2) f] "1.prems"(4) have out: "m1 x = m x" by blast
    have unfold: "Some (m', r) = (case (m1, r1) of (m', Inl e) \<Rightarrow> Some (m', Inl e)
        | (m', Inr _) \<Rightarrow> zip_loop f (fst (advance src (s_off + n))) (snd (advance src (s_off + n)))
              (fst (advance dst (d_off + n))) (snd (advance dst (d_off + n))) (left - n) m')"
      using "1.prems"(1) False c f by (subst (asm) zip_loop.simps) (simp add: n_def Let_def)
    show ?thesis
    proof (cases r1)
      case (Inl e)
      with unfold out show ?thesis by simp
    next
      case (Inr u)
      have "x \<notin> set (seg_span (fst (advance dst (d_off + n))))"
        using "1.prems"(4) by (auto simp: dst advance_def split: if_splits)
      with "1.IH"[OF _ _ c n_def f[symmetric] Inr] False Inr unfold "1.prems"(2) D(4) out show ?thesis
        by (auto simp: dst)
    qed
  qed
qed

lemma local_copy_frame:
  assumes "local_copy gpus eng a src off b dst tot m = Some (m', r)" "engine_ok eng" "segs_fit dst"
    and "x \<notin> set (seg_span dst)"
  shows "m' x = m x"
proof -
  have zip: "m1 x = m x" if "zip_copy src off dst tot f m = Some (m1, r1)" "transfer_ok f" for f m1 r1
    using that zip_loop_frame[OF _ that(2), of _ _ dst 0 tot m m1 r1 x] assms(3,4)
    by (auto simp: zip_copy_def case_prod_unfold Let_def cursor_ok_def)
  have sync: "m' x = m x" if "then_sync eng g (zip_copy src off dst tot f m) = Some (m', r)" "transfer_ok f" for g f
  proof -
    from that(1) obtain m1 r1 where z: "zip_copy src off dst tot f m = Some (m1, r1)"
      by (auto simp: then_sync_def bind_eq_Some_conv)
    have "fst (cu_sync eng g m1) = m1" using assms(2) by (simp add: engine_ok_def)
    with that(1) z have "m' = m1" by (cases r1) (auto simp: then_sync_def)
    with zip[OF z that(2)] show ?thesis by simp
  qed
  have "transfer_ok (cu_h2d eng g)" "transfer_ok (cu_d2h eng g)" "transfer_ok (cu_peer eng g g')" for g g'
    using assms(2) by (simp_all add: engine_ok_def)
  with assms(1) zip[OF _ host_copy_ok] sync show ?thesis
    by (auto simp: local_copy_def gpu_served_def split: device.splits if_splits)
qed

section \<open>Allocation as a run\<close>

text \<open>A run that leaves the object under \<open>k\<close> and the memory alone.\<close>

definition quiet :: "local_inner \<Rightarrow> key \<Rightarrow> local_world \<Rightarrow> local_world \<Rightarrow> bool" where
  "quiet li k w w' \<longleftrightarrow> (local_step li)\<^sup>*\<^sup>* w w' \<and> bt_get (lw_objects w') k = bt_get (lw_objects w) k \<and> lw_mem w' = lw_mem w"

lemma quiet_refl [simp]: "quiet li k w w"
  by (simp add: quiet_def)

lemma quiet_trans: "quiet li k w1 w2 \<Longrightarrow> quiet li k w2 w3 \<Longrightarrow> quiet li k w1 w3"
  by (auto simp: quiet_def)

lemma quiet_inv: "quiet li k w w' \<Longrightarrow> run_inv w \<Longrightarrow> run_inv w'"
  using run_run_inv by (auto simp: quiet_def)

lemma evict_quiet:
  assumes "evict_once numa k w = Some (w', ev)" "run_inv w"
  shows "quiet li k w w' \<and> lw_placed w' = lw_placed w"
proof -
  have linv: "linv w" using assms(2) by (simp add: run_inv_def)
  from assms(1) obtain q objs rest deferred gone where
    ev: "evict_pass (Cpu numa) k [] (lw_objects w) q = Some (objs, rest, deferred, gone)" and
    w': "w' = drop_refs (concat (map replica_bufs gone)) (set_fifo (Cpu numa) (deferred @ rest) (set_objects objs w))"
    unfolding evict_once_def bind_eq_Some_conv by (elim exE conjE) (simp split: prod.splits)
  have "bt_get objs k = bt_get (lw_objects w) k"
    using evict_pass_refs[OF ev] linv by (simp add: linv_def)
  with local_step.evict[OF assms(1)] w' show ?thesis
    by (simp add: quiet_def r_into_rtranclp set_fifo_def set_objects_def)
qed

text \<open>What an attempt to allocate leaves behind.\<close>

definition allocated :: "local_world \<Rightarrow> nat \<Rightarrow> local_world \<Rightarrow> pinned_buf option \<Rightarrow> bool" where
  "allocated w len w' x \<longleftrightarrow> (case x of None \<Rightarrow> lw_placed w' = lw_placed w | Some b \<Rightarrow> lw_placed w' = b # lw_placed w \<and> pb_len b = len)"

lemma try_alloc_quiet:
  assumes "try_alloc numa len w = Some (w', x)" "run_inv w" "0 < len"
  shows "quiet li k w w' \<and> allocated w len w' x"
proof -
  have linv: "linv w" using assms(2) by (simp add: run_inv_def)
  note a = linv_try_alloc[OF assms(1,3) linv]
  have "lw_state w' = lw_state w" "allocated w len w' x"
    using a by (cases x; simp add: allocated_def)+
  with local_step.alloc[OF assms(3,1)] alloc_evolves[OF assms(1) linv assms(3)] show ?thesis
    by (simp add: quiet_def r_into_rtranclp)
qed

abbreviation ok_of :: "'a res \<Rightarrow> 'a option" where
  "ok_of r \<equiv> (case r of Inl _ \<Rightarrow> None | Inr x \<Rightarrow> Some x)"

lemma evict_alloc_quiet:
  assumes "evict_alloc_loop numa len k w = Some (w', r)" "run_inv w" "0 < len"
  shows "quiet li k w w' \<and> allocated w len w' (ok_of r)"
  using assms
proof (induction numa len k w rule: evict_alloc_loop.induct)
  case (1 numa len k w)
  from "1.prems"(1) obtain w1 ev w2 x where e: "evict_once numa k w = Some (w1, ev)" and t: "try_alloc numa len w1 = Some (w2, x)"
    by (subst (asm) evict_alloc_loop.simps) (auto simp: bind_eq_Some_conv)
  note q1 = evict_quiet[OF e "1.prems"(2), of li]
  then have inv: "run_inv w1" using quiet_inv "1.prems"(2) by blast
  note q2 = try_alloc_quiet[OF t inv "1.prems"(3), of li k]
  then have q: "quiet li k w w2" "run_inv w2" using q1 quiet_trans quiet_inv[OF _ inv] by blast+
  show ?case
  proof (cases x)
    case (Some b)
    with "1.prems"(1) e t have "w' = w2 \<and> r = Inr b" by (subst (asm) evict_alloc_loop.simps) simp
    with Some q q1 q2 show ?thesis by (simp add: allocated_def)
  next
    case None
    then have p: "lw_placed w2 = lw_placed w" using q1 q2 by (simp add: allocated_def)
    show ?thesis
    proof (cases ev)
      case True
      with "1.prems"(1) e t None have rest: "evict_alloc_loop numa len k w2 = Some (w', r)"
        by (subst (asm) evict_alloc_loop.simps) simp
      from "1.IH"[OF e refl t refl None _ rest q(2) "1.prems"(3)] True q(1) p show ?thesis
        by (cases r) (auto simp: allocated_def intro: quiet_trans)
    next
      case False
      with "1.prems"(1) e t None have "w' = w2 \<and> (\<exists>e. r = Inl e)" by (subst (asm) evict_alloc_loop.simps) auto
      with q p show ?thesis by (auto simp: allocated_def)
    qed
  qed
qed

lemma alloc_quiet:
  assumes "alloc_or_evict numa len k w = Some (w', r)" "run_inv w" "0 < len"
  shows "quiet li k w w' \<and> allocated w len w' (ok_of r)"
proof (cases "bt_get (lw_pools w) numa")
  case None
  with assms(1) show ?thesis by (auto simp: alloc_or_evict_def allocated_def)
next
  case (Some p)
  with assms(1) obtain w1 x where t: "try_alloc numa len w = Some (w1, x)"
    by (auto simp: alloc_or_evict_def bind_eq_Some_conv)
  note q = try_alloc_quiet[OF t assms(2,3), of li k]
  show ?thesis
  proof (cases x)
    case (Some b)
    with \<open>bt_get _ _ = Some p\<close> assms(1) t q show ?thesis by (auto simp: alloc_or_evict_def allocated_def)
  next
    case None
    then have "w1 = w" using linv_try_alloc(2)[OF t assms(3)] assms(2) by (simp add: run_inv_def)
    with None Some t assms evict_alloc_quiet[of numa len k w w' r li] show ?thesis
      by (auto simp: alloc_or_evict_def allocated_def split: if_splits)
  qed
qed

lemma owns_quiet: "owns w bs \<Longrightarrow> lw_placed w' = lw_placed w \<Longrightarrow> owns w' bs"
  by (simp add: owns_def)

lemma owns_snoc:
  "owns w bs \<Longrightarrow> lw_placed w' = b # lw_placed w \<Longrightarrow> owns w' (bs @ [b])"
  unfolding owns_def by simp

lemma place_quiet:
  assumes "place_targets each len k ts placed last_err w = Some (w', placed', last_err')" "run_inv w" "0 < len"
    and "owns w (placed_bufs placed)" "\<forall>b \<in> set (placed_bufs placed). pb_len b = len"
  shows "quiet li k w w' \<and> owns w' (placed_bufs placed') \<and> (\<forall>b \<in> set (placed_bufs placed'). pb_len b = len)"
  using assms
proof (induction each len k ts placed last_err w rule: place_targets.induct)
  case (2 each len k numa misplaced ts placed last_err w)
  from "2.prems"(1) obtain w1 r where a: "alloc_or_evict numa len k w = Some (w1, r)"
    by (auto simp: bind_eq_Some_conv)
  note q = alloc_quiet[OF a "2.prems"(2,3), of li]
  then have inv: "run_inv w1" using quiet_inv "2.prems"(2) by blast
  show ?case
  proof (cases r)
    case (Inl e)
    then have own: "owns w1 (placed_bufs placed)" using q "2.prems"(4) owns_quiet by (simp add: allocated_def)
    show ?thesis
    proof (cases each)
      case True
      with Inl a "2.prems"(1) have "w' = w1" "placed' = placed" by simp_all
      with q own "2.prems"(5) show ?thesis by simp
    next
      case False
      with Inl a "2.prems"(1) have rest: "place_targets each len k ts placed (Some e) w1 = Some (w', placed', last_err')" by simp
      from "2.IH"(1)[OF a refl Inl False rest inv "2.prems"(3) own "2.prems"(5)] q show ?thesis
        by (auto intro: quiet_trans)
    qed
  next
    case (Inr b)
    let ?p = "placed @ [(numa, misplaced, b)]"
    have own: "owns w1 (placed_bufs ?p)" "\<forall>b \<in> set (placed_bufs ?p). pb_len b = len"
      using q Inr "2.prems"(4,5) owns_snoc[of w "placed_bufs placed" w1 b] by (auto simp: allocated_def placed_bufs_def)
    show ?thesis
    proof (cases each)
      case True
      with Inr a "2.prems"(1) have rest: "place_targets each len k ts ?p last_err w1 = Some (w', placed', last_err')" by simp
      from "2.IH"(2)[OF a refl Inr refl _ rest inv "2.prems"(3) own] True q show ?thesis
        by (auto intro: quiet_trans)
    next
      case False
      with Inr a "2.prems"(1) have "w' = w1" "placed' = ?p" by simp_all
      with q own show ?thesis by simp
    qed
  qed
qed simp

section \<open>The copies of a put\<close>

definition buf_span :: "pinned_buf \<Rightarrow> u64 list" where
  "buf_span b = span (buf_as_ptr b) (pb_len b)"

lemma distinct_span: "n \<le> 2 ^ 64 \<Longrightarrow> distinct (span a n)"
  using addr_inj[of n _ _ a] by (auto simp: span_def distinct_map intro!: inj_onI)

lemma live_seg:
  assumes "run_inv w" "b \<in> live w" "pb_len b = unat len"
  shows "segs_fit [(buf_as_ptr b, len)]" "seg_span [(buf_as_ptr b, len)] = buf_span b" "set (buf_span b) \<subseteq> buf_addrs b"
proof -
  from live_fits[OF assms(1,2)] obtain p where p: "bt_get (lw_pools w) (pb_numa b) = Some p" "buf_fits b p" by blast
  then have le: "unat (pp_base p) + pp_len p \<le> 2 ^ 64" using assms(1) by (simp add: run_inv_def pools_apart_def)
  have fit: "0 < pb_reserved b" "pb_off b + pb_reserved b \<le> pp_len p" "pb_len b \<le> pb_reserved b" "pb_base b = pp_base p"
    using p(2) by (simp_all add: buf_fits_def)
  have "unat (word_of_nat (pb_off b) :: u64) = pb_off b" using fit le by (simp add: unat_of_nat)
  then have "unat (buf_as_ptr b) = unat (pp_base p) + pb_off b"
    using fit le unat_add_fits[of "pp_base p" "word_of_nat (pb_off b)"] by (simp add: buf_as_ptr_def)
  then show "segs_fit [(buf_as_ptr b, len)]" using fit le assms(3) by (simp add: segs_fit_def)
  show "seg_span [(buf_as_ptr b, len)] = buf_span b" by (simp add: buf_span_def assms(3))
  show "set (buf_span b) \<subseteq> buf_addrs b" using fit(3) by (auto simp: buf_span_def buf_addrs_def span_def)
qed

lemma copy_all_effect:
  assumes "engine_ok (li_engine li)" "segs_fit src" "seg_total src = unat len" "distinct (placed_bufs placed)"
    and "\<forall>b \<in> set (placed_bufs placed). pb_len b = unat len \<and> segs_fit [(buf_as_ptr b, len)] \<and> set (buf_span b) \<subseteq> buf_addrs b \<and>
      buf_addrs b \<inter> set (seg_span src) = {}"
    and "\<forall>b \<in> set (placed_bufs placed). \<forall>c \<in> set (placed_bufs placed). b \<noteq> c \<longrightarrow> buf_addrs b \<inter> buf_addrs c = {}"
  shows "\<exists>m' r. copy_all li d src len placed m = Some (m', r) \<and>
    (\<forall>x. (\<forall>b \<in> set (placed_bufs placed). x \<notin> buf_addrs b) \<longrightarrow> m' x = m x) \<and>
    (r = Inr () \<longrightarrow> (\<forall>b \<in> set (placed_bufs placed). map m' (buf_span b) = map m (seg_span src)))"
  using assms
proof (induction placed arbitrary: m)
  case (Cons a placed)
  obtain numa mis b where a: "a = (numa, mis, b)" by (cases a)
  have b: "pb_len b = unat len" "segs_fit [(buf_as_ptr b, len)]" "set (buf_span b) \<subseteq> buf_addrs b" "buf_addrs b \<inter> set (seg_span src) = {}"
    using Cons.prems(5) by (simp_all add: a placed_bufs_def)
  have seg: "seg_span [(buf_as_ptr b, len)] = buf_span b" "seg_total [(buf_as_ptr b, len)] = unat len"
    using b(1) by (simp_all add: buf_span_def)
  have "distinct (buf_span b)" unfolding buf_span_def b(1) by (rule distinct_span) (use unat_bound[of len] in simp)
  then obtain m1 r1 where c: "local_copy (li_gpus li) (li_engine li) d src 0 (Cpu numa) [(buf_as_ptr b, len)] len m = Some (m1, r1)"
    "copied m (seg_span src) (buf_span b) m1 r1"
    using local_copy_copied[OF Cons.prems(1,2) b(2), of 0 len "li_gpus li" d "Cpu numa" m] Cons.prems(3) b seg
    by (auto simp: buf_span_def)
  have out: "m1 x = m x" if "x \<notin> buf_addrs b" for x using c(2) b(3) that by (auto simp: copied_def)
  then have src: "map m1 (seg_span src) = map m (seg_span src)" using b(4) by auto
  have bufs: "placed_bufs (a # placed) = b # placed_bufs placed" by (simp add: a placed_bufs_def)
  note p = Cons.prems(4-6)[unfolded bufs]
  show ?case
  proof (cases r1)
    case (Inl e)
    with c(1) out show ?thesis by (simp add: a bufs[unfolded a])
  next
    case (Inr u)
    have "distinct (placed_bufs placed)"
      "\<forall>b \<in> set (placed_bufs placed). pb_len b = unat len \<and> segs_fit [(buf_as_ptr b, len)] \<and> set (buf_span b) \<subseteq> buf_addrs b \<and> buf_addrs b \<inter> set (seg_span src) = {}"
      "\<forall>b \<in> set (placed_bufs placed). \<forall>c \<in> set (placed_bufs placed). b \<noteq> c \<longrightarrow> buf_addrs b \<inter> buf_addrs c = {}"
      using p by simp_all
    from Cons.IH[OF Cons.prems(1-3) this, of m1] obtain m2 r2 where i: "copy_all li d src len placed m1 = Some (m2, r2)"
      "\<And>x. (\<forall>b \<in> set (placed_bufs placed). x \<notin> buf_addrs b) \<Longrightarrow> m2 x = m1 x"
      "r2 = Inr () \<Longrightarrow> \<forall>b \<in> set (placed_bufs placed). map m2 (buf_span b) = map m1 (seg_span src)" by blast
    have "map m2 (buf_span b) = map m1 (buf_span b)"
    proof -
      have "\<forall>c \<in> set (placed_bufs placed). x \<notin> buf_addrs c" if "x \<in> set (buf_span b)" for x
        using that b(3) p(1,3) by fastforce
      then show ?thesis using i(2) by simp
    qed
    also have "\<dots> = map m (seg_span src)" using c(2) Inr by (simp add: copied_def)
    finally have "map m2 (buf_span b) = map m (seg_span src)" .
    moreover have "copy_all li d src len (a # placed) m = Some (m2, r2)" using c(1) i(1) Inr by (simp add: a)
    ultimately show ?thesis using i(2,3) out src unfolding bufs by simp
  qed
qed (simp add: placed_bufs_def)

section \<open>One slot of a put\<close>

lemma evolves_pool_mem: "evolves w w' \<Longrightarrow> pool_mem w' = pool_mem w"
proof -
  assume ev: "evolves w w'"
  have "(\<exists>p. bt_get (lw_pools w') n = Some p \<and> x \<in> pool_addrs p) \<longleftrightarrow> (\<exists>p. bt_get (lw_pools w) n = Some p \<and> x \<in> pool_addrs p)" for n x
  proof -
    have "rel_option pool_le (bt_get (lw_pools w) n) (bt_get (lw_pools w') n)" using ev by (simp add: evolves_def)
    then show ?thesis by (cases rule: option.rel_cases) (auto simp: pool_le_def pool_addrs_def)
  qed
  then show ?thesis by (simp add: pool_mem_def)
qed

lemma run_pool_mem:
  assumes "(local_step li)\<^sup>*\<^sup>* w w'" "run_inv w"
  shows "pool_mem w' = pool_mem w"
  using assms(1)
proof (induction rule: rtranclp_induct)
  case (step w1 w2)
  have "linv w1" using run_run_inv[OF step.hyps(1) assms(2)] by (simp add: run_inv_def)
  with step show ?case using local_step_evolves evolves_pool_mem by metis
qed simp

lemma owned_bufs:
  assumes "owns w bs" "run_inv w"
  shows "distinct bs" "set bs \<subseteq> set (lw_placed w)" "set bs \<subseteq> live w"
proof -
  have c: "count_list bs b \<le> count_list (lw_placed w) b" for b using assms(1) by (simp add: owns_def)
  have "count_list bs b \<le> 1" for b
    using c[of b] linv_refs_le[of w b] assms(2) by (simp add: run_inv_def)
  then show "distinct bs" by (intro distinct_count) blast
  show sub: "set bs \<subseteq> set (lw_placed w)"
  proof
    fix b assume "b \<in> set bs"
    then have "count_list bs b \<noteq> 0" by (simp add: count_list_0_iff)
    with c[of b] have "count_list (lw_placed w) b \<noteq> 0" by linarith
    then show "b \<in> set (lw_placed w)" by (simp add: count_list_0_iff)
  qed
  then show "set bs \<subseteq> live w" by (auto simp: live_iff)
qed

text \<open>A slot a caller may put: not empty, its source inside one client mapping.\<close>

definition slot_ready :: "local_world \<Rightarrow> put_slot \<Rightarrow> bool" where
  "slot_ready w ps \<longleftrightarrow> ss_len (ps_spec ps) \<noteq> 0 \<and> iov_total (ps_src ps) = unat (ss_len (ps_spec ps)) \<and>
     segs_fit (iov_segs (ps_src ps)) \<and> set (iov_span (ps_src ps)) \<inter> pool_mem w = {}"

lemma copies_run:
  assumes "run_inv w" "engine_ok (li_engine li)" "slot_ready w ps" "owns w (placed_bufs placed)"
    and "\<forall>b \<in> set (placed_bufs placed). pb_len b = unat (ss_len (ps_spec ps))"
  shows "\<exists>m r. copy_all li d (iov_segs (ps_src ps)) (ss_len (ps_spec ps)) placed (lw_mem w) = Some (m, r) \<and>
    local_step li w (w\<lparr>lw_mem := m\<rparr>) \<and> (\<forall>x. x \<notin> pool_mem w \<longrightarrow> m x = lw_mem w x) \<and>
    (r = Inr () \<longrightarrow> (\<forall>b \<in> set (placed_bufs placed). map m (buf_span b) = map (lw_mem w) (iov_span (ps_src ps))))"
proof -
  let ?bs = "placed_bufs placed" and ?len = "ss_len (ps_spec ps)"
  note own = owned_bufs[OF assms(4,1)]
  have fit: "pb_len b = unat ?len \<and> segs_fit [(buf_as_ptr b, ?len)] \<and> set (buf_span b) \<subseteq> buf_addrs b \<and>
      buf_addrs b \<inter> set (seg_span (iov_segs (ps_src ps))) = {}" if "b \<in> set ?bs" for b
  proof -
    have live: "b \<in> live w" and len: "pb_len b = unat ?len" using own(3) that assms(5) by auto
    have "buf_addrs b \<inter> set (iov_span (ps_src ps)) = {}"
      using live_in_pool[OF assms(1) live] assms(3) by (auto simp: slot_ready_def)
    with live_seg[OF assms(1) live len] len show ?thesis by (simp add: seg_span_iov_segs)
  qed
  moreover have "\<forall>b \<in> set ?bs. \<forall>c \<in> set ?bs. b \<noteq> c \<longrightarrow> buf_addrs b \<inter> buf_addrs c = {}"
    using live_apart[OF assms(1)] own(3) by blast
  ultimately obtain m r where c: "copy_all li d (iov_segs (ps_src ps)) ?len placed (lw_mem w) = Some (m, r)"
    "\<And>x. (\<forall>b \<in> set ?bs. x \<notin> buf_addrs b) \<Longrightarrow> m x = lw_mem w x"
    "r = Inr () \<Longrightarrow> \<forall>b \<in> set ?bs. map m (buf_span b) = map (lw_mem w) (iov_span (ps_src ps))"
    using copy_all_effect[OF assms(2), of "iov_segs (ps_src ps)" ?len placed d "lw_mem w"] assms(3) own(1)
    by (auto simp: slot_ready_def seg_span_iov_segs)
  have "m x = lw_mem w x" if "x \<in> pool_mem w - put_mem w" for x
    using that own(2) by (intro c(2)) (auto simp: put_mem_def)
  then have "local_step li w (w\<lparr>lw_mem := m\<rparr>)" by (intro local_step.writes) blast
  moreover have "m x = lw_mem w x" if "x \<notin> pool_mem w" for x
    using that own(3) live_in_pool[OF assms(1)] by (intro c(2)) blast
  ultimately show ?thesis using c(1,3) by blast
qed

lemma finish_effect:
  assumes "finish_slot k i placed w = Some (w', r)"
  shows "lw_mem w' = lw_mem w \<and> (case r of Inl _ \<Rightarrow> bt_get (lw_objects w') k = bt_get (lw_objects w) k
    | Inr _ \<Rightarrow> \<exists>obj. bt_get (lw_objects w) k = Some obj \<and> i < length (lo_slots obj) \<and>
        bt_get (lw_objects w') k = Some (obj\<lparr>lo_slots := (lo_slots obj)[i := (lo_slots obj ! i)\<lparr>ls_replicas :=
          ls_replicas (lo_slots obj ! i) @ placed_replicas placed, ls_writing := False\<rparr>]\<rparr>))"
  using assms by (cases "bt_get (lw_objects w) k") (auto simp: finish_slot_def Let_def bind_eq_Some_conv index_def split: if_splits)

text \<open>What one slot of a \<open>put\<close> does to the object, and which bytes its replicas hold.\<close>

definition slot_put :: "key \<Rightarrow> nat \<Rightarrow> put_slot \<Rightarrow> local_world \<Rightarrow> local_world \<Rightarrow> unit res \<Rightarrow> bool" where
  "slot_put k i ps w w' r \<longleftrightarrow> (case r of Inl _ \<Rightarrow> bt_get (lw_objects w') k = bt_get (lw_objects w) k
    | Inr _ \<Rightarrow> \<exists>obj placed. bt_get (lw_objects w) k = Some obj \<and> i < length (lo_slots obj) \<and> placed \<noteq> [] \<and>
        bt_get (lw_objects w') k = Some (obj\<lparr>lo_slots := (lo_slots obj)[i := (lo_slots obj ! i)\<lparr>ls_replicas :=
          ls_replicas (lo_slots obj ! i) @ placed_replicas placed, ls_writing := False\<rparr>]\<rparr>) \<and>
        (\<forall>b \<in> set (placed_bufs placed). map (lw_mem w') (buf_span b) = map (lw_mem w) (iov_span (ps_src ps))))"

lemma put_slot_effect:
  assumes "local_put_slot li k i ps w = Some (w', r)" "run_inv w" "engine_ok (li_engine li)" "slot_ready w ps"
  shows "(local_step li)\<^sup>*\<^sup>* w w' \<and> slot_put k i ps w w' r \<and> (\<forall>x. x \<notin> pool_mem w \<longrightarrow> lw_mem w' x = lw_mem w x)"
proof -
  let ?len = "ss_len (ps_spec ps)" and ?pl = "ss_placement (ps_spec ps)"
  from assms(1) obtain src0 where s0: "index (ps_src ps) 0 = Some src0"
    by (auto simp: local_put_slot_def bind_eq_Some_conv)
  show ?thesis
  proof (cases "resolve_targets (lw_pools w) ?pl")
    case (Inl e)
    with assms(1) s0 show ?thesis by (auto simp: local_put_slot_def slot_put_def Let_def)
  next
    case (Inr targets)
    with assms(1) s0 obtain w1 placed last_err where
      p: "place_targets (is_each_placement ?pl) (unat ?len) k targets [] None w = Some (w1, placed, last_err)"
      by (auto simp: local_put_slot_def bind_eq_Some_conv Let_def)
    have "0 < unat ?len" using assms(4) by (simp add: slot_ready_def unat_gt_0)
    note q = place_quiet[OF p assms(2) this, of li]
    then have q: "quiet li k w w1" "owns w1 (placed_bufs placed)" "\<forall>b \<in> set (placed_bufs placed). pb_len b = unat ?len"
      by (auto simp: owns_def placed_bufs_def)
    have inv: "run_inv w1" and run: "(local_step li)\<^sup>*\<^sup>* w w1" using quiet_inv[OF q(1) assms(2)] q(1) by (auto simp: quiet_def)
    have pm: "pool_mem w1 = pool_mem w" by (rule run_pool_mem[OF run assms(2)])
    note give = local_step.give_up[OF q(2)]
    show ?thesis
    proof (cases "placed = [] \<or> (is_each_placement ?pl \<and> last_err \<noteq> None)")
      case True
      with assms(1) s0 Inr p have "w' = let_go_all (placed_bufs placed) w1" "\<exists>e. r = Inl e"
        by (auto simp: local_put_slot_def Let_def)
      with rtranclp.rtrancl_into_rtrancl[OF run give] q(1) show ?thesis by (auto simp: slot_put_def quiet_def)
    next
      case False
      from copies_run[OF inv assms(3) _ q(2,3), of "iov_device src0"] assms(4) pm obtain m rc where
        c: "copy_all li (iov_device src0) (iov_segs (ps_src ps)) ?len placed (lw_mem w1) = Some (m, rc)"
        "local_step li w1 (w1\<lparr>lw_mem := m\<rparr>)" "\<And>x. x \<notin> pool_mem w \<Longrightarrow> m x = lw_mem w1 x"
        "rc = Inr () \<Longrightarrow> \<forall>b \<in> set (placed_bufs placed). map m (buf_span b) = map (lw_mem w1) (iov_span (ps_src ps))"
        by (auto simp: slot_ready_def)
      let ?w2 = "w1\<lparr>lw_mem := m\<rparr>"
      have own2: "owns ?w2 (placed_bufs placed)" using q(2) by (simp add: owns_def)
      have run2: "(local_step li)\<^sup>*\<^sup>* w ?w2" using run c(2) by (rule rtranclp.rtrancl_into_rtrancl)
      have same: "lw_mem w1 = lw_mem w" "bt_get (lw_objects w1) k = bt_get (lw_objects w) k" using q(1) by (simp_all add: quiet_def)
      show ?thesis
      proof (cases rc)
        case (Inl e)
        with False assms(1) s0 Inr p c(1) have "w' = let_go_all (placed_bufs placed) ?w2" "r = Inl e"
          by (auto simp: local_put_slot_def Let_def)
        with rtranclp.rtrancl_into_rtrancl[OF run2 local_step.give_up[OF own2]] same c(3) show ?thesis
          by (simp add: slot_put_def)
      next
        case (Inr u)
        with False assms(1) s0 \<open>resolve_targets _ _ = _\<close> p c(1) have f: "finish_slot k i placed ?w2 = Some (w', r)"
          by (auto simp: local_put_slot_def Let_def)
        from rtranclp.rtrancl_into_rtrancl[OF run2 local_step.finish[OF own2 f]] finish_effect[OF f] same c(3,4) Inr False
        show ?thesis by (cases r) (auto simp: slot_put_def)
      qed
    qed
  qed
qed

section \<open>A whole put\<close>

text \<open>The specification of an object and the replicas of one of its slots.\<close>

definition slot_at :: "local_world \<Rightarrow> key \<Rightarrow> nat \<Rightarrow> (object_spec \<times> lreplica list) option" where
  "slot_at w k j = (case bt_get (lw_objects w) k of None \<Rightarrow> None
     | Some obj \<Rightarrow> if j < length (lo_slots obj) then Some (lo_spec obj, ls_replicas (lo_slots obj ! j)) else None)"

text \<open>Every replica of the slot is pinned and holds these bytes, and there is one.\<close>

definition stored :: "local_world \<Rightarrow> key \<Rightarrow> object_spec \<Rightarrow> nat \<Rightarrow> bytes \<Rightarrow> bool" where
  "stored w k spec j bs \<longleftrightarrow> (\<exists>rs. slot_at w k j = Some (spec, rs) \<and> rs \<noteq> [] \<and>
     (\<forall>r \<in> set rs. \<exists>b. lr_data r = Pinned b \<and> map (lw_mem w) (buf_span b) = bs))"

lemma slot_at_mapped:
  assumes "slot_at w k j = Some (spec, rs)" "r \<in> set rs" "lr_data r = Pinned b"
  shows "0 < refs b (lw_objects w)"
proof -
  obtain obj where obj: "bt_get (lw_objects w) k = Some obj" "j < length (lo_slots obj)" "rs = ls_replicas (lo_slots obj ! j)"
    using assms(1) by (auto simp: slot_at_def split: option.splits if_splits)
  have "b \<in> set (slot_bufs (lo_slots obj ! j))"
    using assms(2,3) obj(3) by (auto simp: slot_bufs_def replica_bufs_def intro!: bexI[of _ r])
  then have "b \<in> set (lobj_bufs obj)" using obj(2) by (auto simp: lobj_bufs_def)
  then have "b \<in> set (all_bufs (lw_objects w))"
    using obj(1) by (force simp: all_bufs_def bt_get_map_of dest: map_of_SomeD)
  then show ?thesis by (simp add: all_bufs_refs)
qed

lemma mapped_keeps_bytes:
  assumes "(local_step li)\<^sup>*\<^sup>* w w'" "run_inv w" "0 < refs b (lw_objects w)" "b \<in> live w'"
  shows "map (lw_mem w') (buf_span b) = map (lw_mem w) (buf_span b)"
proof -
  have live: "b \<in> live w" using assms(3) by (simp add: live_iff)
  then have aged: "aged w b" using assms(2) by (simp add: run_inv_def)
  have "linv w" using assms(2) by (simp add: run_inv_def)
  from linv_refs_le[OF this, of b] assms(3) have "count_list (lw_placed w) b = 0" by linarith
  then have "b \<notin> set (lw_placed w)" by (simp add: count_list_0_iff)
  from run_keeps_bytes[OF assms(1,2) aged this assms(4)] have "\<forall>x \<in> buf_addrs b. lw_mem w' x = lw_mem w x" by simp
  moreover obtain p where "buf_fits b p" using live_fits[OF assms(2) live] by blast
  then have "set (buf_span b) \<subseteq> buf_addrs b" by (auto simp: buf_fits_def buf_span_def buf_addrs_def span_def)
  ultimately show ?thesis by auto
qed

lemma stored_keep:
  assumes "stored w k spec j bs" "(local_step li)\<^sup>*\<^sup>* w w'" "run_inv w" "slot_at w' k j = slot_at w k j"
  shows "stored w' k spec j bs"
proof -
  obtain rs where rs: "slot_at w k j = Some (spec, rs)" "rs \<noteq> []"
    "\<forall>r \<in> set rs. \<exists>b. lr_data r = Pinned b \<and> map (lw_mem w) (buf_span b) = bs"
    using assms(1) by (auto simp: stored_def)
  have "\<exists>b. lr_data r = Pinned b \<and> map (lw_mem w') (buf_span b) = bs" if r: "r \<in> set rs" for r
  proof -
    obtain b where b: "lr_data r = Pinned b" "map (lw_mem w) (buf_span b) = bs" using rs(3) r by blast
    have "0 < refs b (lw_objects w)" "0 < refs b (lw_objects w')"
      using slot_at_mapped[OF rs(1) r b(1)] slot_at_mapped[of w', OF _ r b(1)] rs(1) assms(4) by auto
    with mapped_keeps_bytes[OF assms(2,3)] b show ?thesis by (metis live_iff)
  qed
  with rs assms(4) show ?thesis by (simp add: stored_def)
qed

lemma slot_put_at:
  assumes "slot_put k i ps w w' r"
  shows "j \<noteq> i \<Longrightarrow> slot_at w' k j = slot_at w k j"
    "r = Inr () \<Longrightarrow> slot_at w k i = Some (spec, []) \<Longrightarrow> stored w' k spec i (map (lw_mem w) (iov_span (ps_src ps)))"
proof -
  show "j \<noteq> i \<Longrightarrow> slot_at w' k j = slot_at w k j"
    using assms by (cases r) (auto simp: slot_put_def slot_at_def)
  assume r: "r = Inr ()" and empty: "slot_at w k i = Some (spec, [])"
  with assms obtain obj placed where ob: "bt_get (lw_objects w) k = Some obj" "i < length (lo_slots obj)" "placed \<noteq> []"
    "bt_get (lw_objects w') k = Some (obj\<lparr>lo_slots := (lo_slots obj)[i := (lo_slots obj ! i)\<lparr>ls_replicas :=
          ls_replicas (lo_slots obj ! i) @ placed_replicas placed, ls_writing := False\<rparr>]\<rparr>)"
    "\<forall>b \<in> set (placed_bufs placed). map (lw_mem w') (buf_span b) = map (lw_mem w) (iov_span (ps_src ps))"
    by (auto simp: slot_put_def)
  then have "slot_at w' k i = Some (spec, placed_replicas placed)"
    using empty by (simp add: slot_at_def)
  with ob(3,5) show "stored w' k spec i (map (lw_mem w) (iov_span (ps_src ps)))"
    by (fastforce simp: stored_def placed_bufs_def placed_replicas_def)
qed

lemma unclaim_at: "unclaim k i w = Some w' \<Longrightarrow> slot_at w' k j = slot_at w k j"
  by (cases "j = i")
     (auto simp: unclaim_def slot_at_def bind_eq_Some_conv index_def set_objects_def split: option.splits if_splits)

lemma unclaim_mem: "unclaim k i w = Some w' \<Longrightarrow> lw_mem w' = lw_mem w"
  by (auto simp: unclaim_def bind_eq_Some_conv set_objects_def split: option.splits)

lemma put_iteration:
  assumes "local_put_slot li k i ps w = Some (w1, r)" "(if is_ok r then Some w1 else unclaim k i w1) = Some w2"
    and "run_inv w" "engine_ok (li_engine li)" "slot_ready w ps"
  shows "(local_step li)\<^sup>*\<^sup>* w w2" "\<forall>x. x \<notin> pool_mem w \<longrightarrow> lw_mem w2 x = lw_mem w x"
    "j \<noteq> i \<Longrightarrow> slot_at w2 k j = slot_at w k j"
    "r = Inr () \<Longrightarrow> slot_at w k i = Some (spec, []) \<Longrightarrow> stored w2 k spec i (map (lw_mem w) (iov_span (ps_src ps)))"
proof -
  note e = put_slot_effect[OF assms(1,3,4,5)]
  have "w2 = w1 \<or> unclaim k i w1 = Some w2" using assms(2) by (auto split: if_splits)
  then have u: "(local_step li)\<^sup>*\<^sup>* w1 w2" "lw_mem w2 = lw_mem w1" "\<And>j. slot_at w2 k j = slot_at w1 k j"
    using local_step.unclaim unclaim_mem unclaim_at by (auto intro: r_into_rtranclp)
  show "(local_step li)\<^sup>*\<^sup>* w w2" using e u(1) by (meson rtranclp_trans)
  show "\<forall>x. x \<notin> pool_mem w \<longrightarrow> lw_mem w2 x = lw_mem w x" using e u(2) by simp
  show "j \<noteq> i \<Longrightarrow> slot_at w2 k j = slot_at w k j" using slot_put_at(1)[of k i ps w w1 r j] e u(3) by simp
  show "stored w2 k spec i (map (lw_mem w) (iov_span (ps_src ps)))" if "r = Inr ()" "slot_at w k i = Some (spec, [])"
    using slot_put_at(2)[of k i ps w w1 r] that e assms(2) by (simp add: is_ok_def)
qed

lemma local_put_loop_effect:
  assumes "local_put_loop li k writable i pss w = Some (w', rs)" "run_inv w" "engine_ok (li_engine li)"
    and "\<forall>ps \<in> set pss. slot_ready w ps" "\<forall>j \<ge> i. index writable j = Some True \<longrightarrow> slot_at w k j = Some (spec, [])"
  shows "(local_step li)\<^sup>*\<^sup>* w w' \<and> (\<forall>x. x \<notin> pool_mem w \<longrightarrow> lw_mem w' x = lw_mem w x) \<and>
    (\<forall>j < i. slot_at w' k j = slot_at w k j) \<and> length rs = length pss \<and>
    (\<forall>j < length pss. rs ! j = Inr () \<longrightarrow> stored w' k spec (i + j) (map (lw_mem w) (iov_span (ps_src (pss ! j)))))"
  using assms
proof (induction pss arbitrary: i w rs)
  case (Cons ps pss)
  from Cons.prems(1) obtain ok where ok: "index writable i = Some ok" by (auto simp: bind_eq_Some_conv)
  show ?case
  proof (cases ok)
    case False
    with Cons.prems(1) ok obtain rs' e where l: "local_put_loop li k writable (Suc i) pss w = Some (w', rs')" "rs = Inl e # rs'"
      by (auto simp: bind_eq_Some_conv)
    have ih: "(local_step li)\<^sup>*\<^sup>* w w' \<and> (\<forall>x. x \<notin> pool_mem w \<longrightarrow> lw_mem w' x = lw_mem w x) \<and>
      (\<forall>j < Suc i. slot_at w' k j = slot_at w k j) \<and> length rs' = length pss \<and>
      (\<forall>j < length pss. rs' ! j = Inr () \<longrightarrow> stored w' k spec (Suc i + j) (map (lw_mem w) (iov_span (ps_src (pss ! j)))))"
      using Cons.prems(4,5) by (intro Cons.IH[OF l(1) Cons.prems(2,3)]) simp_all
    have "stored w' k spec (i + j) (map (lw_mem w) (iov_span (ps_src ((ps # pss) ! j))))"
      if "j < length (ps # pss)" "rs ! j = Inr ()" for j
      using that ih l(2) by (cases j) simp_all
    with ih l(2) show ?thesis by simp
  next
    case True
    with Cons.prems(1) ok obtain w1 r w2 rs' where p: "local_put_slot li k i ps w = Some (w1, r)"
      "(if is_ok r then Some w1 else unclaim k i w1) = Some w2"
      and l: "local_put_loop li k writable (Suc i) pss w2 = Some (w', rs')"
        "rs = map_err (with_context ''slot'' (CtxNum i)) r # rs'"
      by (auto simp: bind_eq_Some_conv)
    note it = put_iteration[OF p Cons.prems(2,3)]
    have ready: "slot_ready w ps" using Cons.prems(4) by simp
    note it = it[OF ready]
    have inv2: "run_inv w2" using run_run_inv[OF it(1) Cons.prems(2)] .
    have pm: "pool_mem w2 = pool_mem w" by (rule run_pool_mem[OF it(1) Cons.prems(2)])
    have ready2: "\<forall>ps \<in> set pss. slot_ready w2 ps" using Cons.prems(4) by (simp add: slot_ready_def pm)
    have empty2: "\<forall>j \<ge> Suc i. index writable j = Some True \<longrightarrow> slot_at w2 k j = Some (spec, [])"
      using Cons.prems(5) it(3) by simp
    note ih = Cons.IH[OF l(1) inv2 Cons.prems(3) ready2 empty2]
    have src: "map (lw_mem w2) (iov_span (ps_src p)) = map (lw_mem w) (iov_span (ps_src p))" if "p \<in> set pss" for p
      using it(2) Cons.prems(4) that by (auto simp: slot_ready_def)
    have first: "stored w' k spec i (map (lw_mem w) (iov_span (ps_src ps)))" if "rs ! 0 = Inr ()"
    proof -
      have r: "r = Inr ()" using that l(2) by (cases r) (simp_all add: map_err_def)
      have "slot_at w k i = Some (spec, [])" using Cons.prems(5) ok True by simp
      from stored_keep[OF it(4)[OF r this], of li w'] ih inv2 show ?thesis by simp
    qed
    have later: "stored w' k spec (i + Suc j) (map (lw_mem w) (iov_span (ps_src (pss ! j))))" if "j < length pss" "rs ! Suc j = Inr ()" for j
    proof -
      have "stored w' k spec (i + Suc j) (map (lw_mem w2) (iov_span (ps_src (pss ! j))))" using ih that l(2) by simp
      then show ?thesis unfolding src[OF nth_mem[OF that(1)]] .
    qed
    have "stored w' k spec (i + j) (map (lw_mem w) (iov_span (ps_src ((ps # pss) ! j))))"
      if "j < length (ps # pss)" "rs ! j = Inr ()" for j
      using that first later by (cases j) simp_all
    moreover have "(local_step li)\<^sup>*\<^sup>* w w'" using it(1) ih by (meson rtranclp_trans)
    ultimately show ?thesis using ih it(2,3) l(2) pm by simp
  qed
qed simp

lemma claim_at:
  assumes "claim k spec w = Inr (w1, writable)" "index writable j = Some True"
  shows "slot_at w1 k j = Some (spec, [])"
proof -
  obtain obj where w1: "lo_spec obj = spec" "w1 = set_objects (bt_insert (lw_objects w) k (claim_slots obj)) w" "writable = map claimable (lo_slots obj)"
  proof (cases "bt_get (lw_objects w) k")
    case None
    with assms(1) show ?thesis
      by (intro that[of "\<lparr>lo_spec = spec, lo_slots = replicate (length (os_slots spec)) \<lparr>ls_replicas = [], ls_writing = False\<rparr>\<rparr>"])
         (simp_all add: claim_def Let_def)
  next
    case (Some obj)
    with assms(1) show ?thesis by (intro that[of obj]) (auto simp: claim_def split: if_splits)
  qed
  then have j: "j < length (lo_slots obj)" "claimable (lo_slots obj ! j)"
    using assms(2) by (auto simp: index_def split: if_splits)
  with w1(1,2) show ?thesis
    by (simp add: slot_at_def set_objects_def claim_slots_def claimable_def)
qed

lemma local_put_effect:
  assumes "local_put li k op w = Some (w', r)" "run_inv w" "engine_ok (li_engine li)" "\<forall>ps \<in> set (op_slots op). slot_ready w ps"
  shows "(local_step li)\<^sup>*\<^sup>* w w' \<and> (\<forall>rp j. r = Inr rp \<longrightarrow> j < length (op_slots op) \<longrightarrow> rp_slots rp ! j = Inr () \<longrightarrow>
    stored w' k (op_put_spec op) j (map (lw_mem w) (iov_span (ps_src (op_slots op ! j)))))"
proof (cases "op_put_validate op")
  case (Inl e)
  with assms(1) show ?thesis by (auto simp: local_put_def)
next
  case (Inr u)
  show ?thesis
  proof (cases "claim k (op_put_spec op) w")
    case (Inl e)
    with Inr assms(1) show ?thesis by (auto simp: local_put_def)
  next
    case (Inr c)
    obtain w1 writable where c: "claim k (op_put_spec op) w = Inr (w1, writable)" using Inr by (cases c) simp
    with \<open>op_put_validate op = _\<close> assms(1) obtain rs where
      l: "local_put_loop li k writable 0 (op_slots op) w1 = Some (w', rs)" "r = Inr \<lparr>rp_slots = rs\<rparr>"
      by (auto simp: local_put_def bind_eq_Some_conv)
    have linv: "linv w" using assms(2) by (simp add: run_inv_def)
    have s: "local_step li w w1" by (rule local_step.claim[OF c])
    note cl = linv_claim[OF c linv]
    have inv1: "run_inv w1" by (rule step_run_inv[OF s assms(2)])
    have "\<forall>ps \<in> set (op_slots op). slot_ready w1 ps" using assms(4) cl(3) by (simp add: slot_ready_def pool_mem_def)
    from local_put_loop_effect[OF l(1) inv1 assms(3) this] claim_at[OF c] cl(6) s l(2) show ?thesis
      by (auto intro: converse_rtranclp_into_rtranclp)
  qed
qed

section \<open>get as a run\<close>

definition dst_ready :: "local_world \<Rightarrow> op_get \<Rightarrow> bool" where
  "dst_ready w op \<longleftrightarrow> segs_fit (iov_segs (og_dst op)) \<and> set (iov_span (og_dst op)) \<inter> pool_mem w = {}"

lemma drop_clones_run:
  assumes "mset bs \<subseteq># mset (lw_readers w)"
  shows "(local_step li)\<^sup>*\<^sup>* w (drop_clones bs w) \<and> lw_mem (drop_clones bs w) = lw_mem w"
  using assms
proof (induction bs arbitrary: w)
  case (Cons b bs)
  have b: "b \<in> set (lw_readers w)" using Cons.prems by (metis insert_subset_eq_iff mset.simps(2) set_mset_mset)
  have "mset bs \<subseteq># mset (lw_readers (drop_clone b w))"
    using Cons.prems by (simp add: drop_clone_def insert_subset_eq_iff)
  from Cons.IH[OF this] local_step.unpick[OF b, of li] show ?case
    by (auto simp: drop_clones_def drop_clone_def intro: converse_rtranclp_into_rtranclp)
qed (simp add: drop_clones_def)

lemma get_cases:
  assumes "local_get li k op w = Some (w', res)"
  obtains (early) e where "w' = w" "res = Inl e"
  | (range) d r n e where "get_pick li k op d (lw_objects w) = Some (Inr (r, n))" "res = Inl e"
      "w' = drop_clones (replica_bufs r) (clone_refs (replica_bufs r) w)"
  | (copy) d tot r n m c where "op_get_validate op = Inr (d, tot)" "get_pick li k op d (lw_objects w) = Some (Inr (r, n))"
      "get_range_ok op tot n" "local_copy (li_gpus li) (li_engine li) (lr_device r) (ldata_segs (lr_data r))
         (og_src_offset op) d (iov_segs (og_dst op)) tot (lw_mem w) = Some (m, c)"
      "w' = drop_clones (replica_bufs r) ((clone_refs (replica_bufs r) w)\<lparr>lw_mem := m\<rparr>)" "is_ok res = is_ok c"
proof (cases "op_get_validate op")
  case (Inl e)
  with assms early show thesis by (auto simp: local_get_def)
next
  case (Inr v)
  obtain d tot where v: "op_get_validate op = Inr (d, tot)" using Inr by (cases v) simp
  with assms obtain x where x: "get_pick li k op d (lw_objects w) = Some x" by (auto simp: local_get_def bind_eq_Some_conv)
  show thesis
  proof (cases x)
    case (Inl e)
    with assms v x early show thesis by (auto simp: local_get_def)
  next
    case (Inr y)
    obtain r n where y: "y = (r, n)" by (cases y)
    show thesis
    proof (cases "get_range_ok op tot n")
      case False
      with assms v x Inr y range[of d r n] show thesis by (auto simp: local_get_def Let_def)
    next
      case True
      then obtain m c where "local_copy (li_gpus li) (li_engine li) (lr_device r) (ldata_segs (lr_data r))
         (og_src_offset op) d (iov_segs (og_dst op)) tot (lw_mem w) = Some (m, c)"
        using assms v x Inr y by (auto simp: local_get_def Let_def bind_eq_Some_conv clone_refs_def)
      moreover from this assms v x Inr y True have "w' = drop_clones (replica_bufs r) ((clone_refs (replica_bufs r) w)\<lparr>lw_mem := m\<rparr>)"
        "is_ok res = is_ok c"
        by (auto simp: local_get_def Let_def clone_refs_def and_then_def is_ok_def split: sum.splits)
      ultimately show thesis using copy v x Inr y True by blast
    qed
  qed
qed

lemma local_get_run:
  assumes "local_get li k op w = Some (w', res)" "run_inv w" "engine_ok (li_engine li)" "dst_ready w op"
  shows "(local_step li)\<^sup>*\<^sup>* w w'"
  using assms(1)
proof (cases rule: get_cases)
  case (range d r n e)
  have "mset (replica_bufs r) \<subseteq># mset (lw_readers (clone_refs (replica_bufs r) w))" by (simp add: clone_refs_def)
  from drop_clones_run[OF this] local_step.pick[OF range(1)] range(3) show ?thesis
    by (auto intro: converse_rtranclp_into_rtranclp)
next
  case (copy d tot r n m c)
  let ?w1 = "clone_refs (replica_bufs r) w"
  have "m x = lw_mem w x" if "x \<notin> set (iov_span (og_dst op))" for x
    using local_copy_frame[OF copy(4) assms(3)] assms(4) that by (simp add: dst_ready_def seg_span_iov_segs)
  then have "\<forall>x \<in> pool_mem ?w1 - put_mem ?w1. m x = lw_mem ?w1 x"
    using assms(4) by (auto simp: dst_ready_def clone_refs_def pool_mem_def)
  from local_step.writes[OF this] have 2: "local_step li ?w1 (?w1\<lparr>lw_mem := m\<rparr>)" .
  have "mset (replica_bufs r) \<subseteq># mset (lw_readers (?w1\<lparr>lw_mem := m\<rparr>))" by (simp add: clone_refs_def)
  from drop_clones_run[OF this] local_step.pick[OF copy(2)] 2 copy(5) show ?thesis
    by (auto intro: converse_rtranclp_into_rtranclp)
qed simp

lemma get_pick_at:
  assumes "get_pick li k op d (lw_objects w) = Some (Inr (r, n))" "slot_at w k (unat (og_slot op)) = Some (spec, rs)"
  shows "r \<in> set rs" "n = ss_len (os_slots spec ! unat (og_slot op))"
  using assms
  by (auto simp: get_pick_def slot_at_def Let_def bind_eq_Some_conv index_def nearest_replica_def
      split: option.splits if_splits dest!: min_by_key_in)

lemma local_get_effect:
  assumes "local_get li k op w = Some (w', Inr rg)" "run_inv w" "engine_ok (li_engine li)" "dst_ready w op"
    and "stored w k spec (unat (og_slot op)) bs" "length bs = unat (ss_len (os_slots spec ! unat (og_slot op)))"
    and "distinct (iov_span (og_dst op))"
  shows "map (lw_mem w') (iov_span (og_dst op)) = take (iov_total (og_dst op)) (drop (unat (og_src_offset op)) bs)"
  using assms(1)
proof (cases rule: get_cases)
  case (copy d tot r n m c)
  let ?off = "og_src_offset op" and ?dst = "og_dst op"
  obtain rs where rs: "slot_at w k (unat (og_slot op)) = Some (spec, rs)"
    "\<forall>r \<in> set rs. \<exists>b. lr_data r = Pinned b \<and> map (lw_mem w) (buf_span b) = bs"
    using assms(5) by (auto simp: stored_def)
  note p = get_pick_at[OF copy(2) rs(1)]
  obtain b where b: "lr_data r = Pinned b" "map (lw_mem w) (buf_span b) = bs" using rs(2) p(1) by blast
  have live: "b \<in> live w" using slot_at_mapped[OF rs(1) p(1) b(1)] by (simp add: live_iff)
  have len: "pb_len b = unat n" using b(2) assms(6) p(2) by (metis buf_span_def length_map length_span)
  note sg = live_seg[OF assms(2) live len]
  have src: "ldata_segs (lr_data r) = [(buf_as_ptr b, n)]" by (simp add: ldata_segs_def b(1) len)
  have tot: "unat tot = iov_total ?dst" using copy(1) by (simp add: op_get_validate_def validate_iovs_Inr)
  have range: "unat ?off + unat tot \<le> unat n"
    using copy(3) by (auto simp: get_range_ok_def checked_add_Some word_le_nat_alt split: option.splits)
  have apart: "set (iov_span ?dst) \<inter> set (buf_span b) = {}"
    using sg(3) live_in_pool[OF assms(2) live] assms(4) by (auto simp: dst_ready_def)
  from copy(6) have ok: "c = Inr ()" by (cases c) (simp_all add: is_ok_def)
  have "\<exists>m' r'. local_copy (li_gpus li) (li_engine li) (lr_device r) [(buf_as_ptr b, n)] ?off d (iov_segs ?dst) tot (lw_mem w) = Some (m', r') \<and>
    copied (lw_mem w) (take (unat tot) (drop (unat ?off) (buf_span b))) (take (unat tot) (iov_span ?dst)) m' r'"
    using local_copy_copied[OF assms(3) sg(1), of "iov_segs ?dst" ?off tot] range tot apart assms(4,7)
    unfolding sg(2) seg_span_iov_segs by (simp add: dst_ready_def)
  then have "map m (iov_span ?dst) = take (unat tot) (drop (unat ?off) bs)"
    using copy(4) ok tot b(2) unfolding src by (auto simp: copied_def take_map drop_map)
  moreover have "mset (replica_bufs r) \<subseteq># mset (lw_readers ((clone_refs (replica_bufs r) w)\<lparr>lw_mem := m\<rparr>))" by (simp add: clone_refs_def)
  from drop_clones_run[OF this] have "lw_mem w' = m" by (simp add: copy(5))
  ultimately show ?thesis by (simp add: tot)
qed simp_all

end
