(* ===== verification/Pega_Local_Props.thy ===== *)
theory Pega_Local_Props
  imports Pega_Local_Run
begin

text \<open>
  The CUDA backend end to end: whole operations are runs of the critical sections, a \<open>put\<close>
  and a \<open>get\<close> compose to a copy, and an interleaving in which a slot is written twice.
\<close>

section \<open>Properties\<close>

lemma drop_objects_run: "(local_step li)\<^sup>*\<^sup>* w (fold drop_object ks w)"
proof (induction ks arbitrary: w)
  case (Cons k ks)
  from local_step.remove[of li w k] Cons[of "drop_object k w"] show ?case
    by (simp add: converse_rtranclp_into_rtranclp)
qed simp



section \<open>A concrete round trip\<close>

definition lex_region :: mem_region where
  "lex_region = with_id 1 4096 64 (Cpu 0)"

definition lex_slot :: put_slot where
  "lex_slot = \<lparr>ps_spec = \<lparr>ss_len = 4, ss_placement = Anywhere\<rparr>, ps_src = [region_iov lex_region 0 4]\<rparr>"

definition lex_get :: op_get where
  "lex_get = \<lparr>og_slot = 0, og_src_offset = 1, og_dst = [region_iov lex_region 16 3]\<rparr>"

definition lex_mem :: host_mem where
  "lex_mem = write_bytes (lw_mem lex0) 2097152 (read_bytes (lw_mem lex0) 4096 4)"

lemma host_engine_ok: "engine_ok host_engine"
  using host_copy_ok by (simp add: engine_ok_def host_engine_def)

lemma lex_slot_facts:
  "ss_len (ps_spec lex_slot) = 4" "ss_placement (ps_spec lex_slot) = Anywhere" "iov_segs [region_iov lex_region 0 4] = [(4096, 4)]"
  "ps_src lex_slot = [region_iov lex_region 0 4]" "iov_device (region_iov lex_region i j) = Cpu 0"
  by (simp_all add: lex_slot_def iov_segs_def region_iov_def lex_region_def with_id_def iov_as_ptr_def iov_device_def)

lemma lex_put_slot: "local_put_slot lex_li [1] 0 lex_slot lex1 = Some (lex3\<lparr>lw_mem := lex_mem\<rparr>, Inr ())"
proof -
  have "pool_alloc 4 lex_pool = Some (Some (lex_full, lex_buf))"
    by (simp add: pool_eval lex_pool_def lex_full_def lex_buf_def)
  then have t: "try_alloc 0 4 lex1 = Some (lex2, Some lex_buf)"
    by (simp add: try_alloc_def lex2_def lex1_def lex0_def set_objects_def set_pool_def hold_def)
  have p: "place_targets False 4 [1] [(0, False)] [] None lex1 = Some (lex2, [(0, False, lex_buf)], None)"
    using t by (simp add: alloc_or_evict_def) (simp add: lex1_def lex0_def set_objects_def)
  have c: "copy_all lex_li (Cpu 0) [(4096, 4)] 4 [(0, False, lex_buf)] (lw_mem lex2) = Some (lex_mem, Inr ())"
    by (simp add: local_copy_def zip_copy_def zip_loop.simps checked_add_def checked_sub_def host_copy_def
        buf_as_ptr_def lex_buf_def lex_mem_def lex2_def lex1_def set_objects_def)
  have "finish_slot [1] 0 [(0, False, lex_buf)] (lex2\<lparr>lw_mem := lex_mem\<rparr>) = Some (lex3\<lparr>lw_mem := lex_mem\<rparr>, Inr ())"
    by (simp add: finish_slot_def lex_defs Let_def index_def placed_replicas_def placed_bufs_def let_go_all_def
        let_go_def drop_ref_def referenced_def all_bufs_def lobj_bufs_def slot_bufs_def replica_bufs_def)
  moreover have "resolve_targets (lw_pools lex1) Anywhere = Inr [(0, False)]"
    by (simp add: resolve_targets_def lex1_def lex0_def set_objects_def)
  ultimately show ?thesis
    using p c by (simp add: local_put_slot_def lex_slot_facts index_def is_each_placement_def del: place_targets.simps copy_all.simps)
qed

lemma lex_put: "local_put lex_li [1] (op_put_new [lex_slot]) lex0 = Some (lex3\<lparr>lw_mem := lex_mem\<rparr>, Inr \<lparr>rp_slots = [Inr ()]\<rparr>)"
proof -
  have "op_put_validate (op_put_new [lex_slot]) = Inr ()"
    by (simp add: op_put_validate_def op_put_new_def validate_iovs_def in_bounds_def iov_device_def
        region_iov_def with_id_def checked_add_def lex_slot_def lex_region_def)
  moreover have "claim [1] (op_put_spec (op_put_new [lex_slot])) lex0 = Inr (lex1, [True])"
    by (simp add: claim_def lex_defs claim_slots_def claimable_def op_put_spec_def op_put_new_def lex_slot_def)
  ultimately show ?thesis
    using lex_put_slot by (simp add: local_put_def op_put_new_def index_def is_ok_def map_err_def)
qed

lemma lex_ready: "\<forall>ps \<in> set (op_slots (op_put_new [lex_slot])). slot_ready lex0 ps" "dst_ready lex0 lex_get" "distinct (iov_span (og_dst lex_get))"
proof -
  have pool: "pool_mem lex0 = pool_addrs lex_pool" by (auto simp: pool_mem_def lex0_def)
  have out: "x \<notin> pool_addrs lex_pool" if "x < 2097152" for x
  proof -
    have "\<not> unat (x - 2097152) < 2097152"
      using that by (simp add: unat_sub_if_size word_less_nat_alt word_size)
    then show ?thesis by (simp add: pool_addrs_def lex_pool_def span_mem)
  qed
  show "\<forall>ps \<in> set (op_slots (op_put_new [lex_slot])). slot_ready lex0 ps"
    by (simp add: slot_ready_def op_put_new_def lex_slot_facts pool segs_fit_def)
       (simp add: iov_span_def span_def upt_rec region_iov_def lex_region_def with_id_def iov_as_ptr_def out)
  show "dst_ready lex0 lex_get"
    by (simp add: dst_ready_def lex_get_def pool segs_fit_def iov_segs_def iov_span_def span_def upt_rec region_iov_def
        lex_region_def with_id_def iov_as_ptr_def out)
  show "distinct (iov_span (og_dst lex_get))"
    by (simp add: lex_get_def iov_span_def span_def upt_rec region_iov_def lex_region_def with_id_def iov_as_ptr_def)
qed

lemma lex_get_returns: "\<exists>w rg. local_get lex_li [1] lex_get (lex3\<lparr>lw_mem := lex_mem\<rparr>) = Some (w, Inr rg)"
proof -
  have v: "op_get_validate lex_get = Inr (Cpu 0, 3)"
    by (simp add: op_get_validate_def validate_iovs_def in_bounds_def iov_device_def region_iov_def with_id_def
        checked_add_def lex_get_def lex_region_def)
  have "get_pick lex_li [1] lex_get (Cpu 0) (lw_objects lex3) = Some (Inr (lex_replica, 4))"
    by (simp add: get_pick_def lex_defs index_def nearest_replica_def lex_get_def)
  moreover have "\<exists>m. local_copy (li_gpus lex_li) (li_engine lex_li) (lr_device lex_replica) (ldata_segs (lr_data lex_replica)) 1 (Cpu 0)
      (iov_segs (og_dst lex_get)) 3 lex_mem = Some (m, Inr ())"
    by (simp add: local_copy_def zip_copy_def zip_loop.simps checked_add_def checked_sub_def host_copy_def lex_replica_def
        ldata_segs_def buf_as_ptr_def lex_buf_def lex_get_def iov_segs_def region_iov_def lex_region_def with_id_def iov_as_ptr_def word_le_nat_alt)
  moreover have "get_range_ok lex_get 3 4" "og_src_offset lex_get = 1"
    by (simp_all add: get_range_ok_def checked_add_def lex_get_def)
  ultimately show ?thesis
    using v by (auto simp: local_get_def clone_refs_def and_then_def)
qed

lemma lex_li_engine: "engine_ok (li_engine lex_li)"
  by (simp add: lex_li_def host_engine_ok)



section \<open>A slot written twice\<close>

text \<open>
  Two \<open>put\<close>s of the same key, with a \<open>remove\<close> of that key between their first phases: the
  first has claimed the slot and allocated, the key goes, the second claims it again, and
  both then enter phase 3.
\<close>

definition race_finish :: "pinned_buf \<Rightarrow> pinned_buf \<Rightarrow> local_world \<Rightarrow> (local_world \<times> unit res list) outcome" where
  "race_finish a b w = do {
     (w1, r1) \<leftarrow> finish_slot [1] 0 [(0, False, a)] w;
     (w2, r2) \<leftarrow> finish_slot [1] 0 [(0, False, b)] w1;
     Some (w2, [r1, r2])
   }"

definition race_claim :: "local_world \<Rightarrow> (local_world \<times> pinned_buf) outcome" where
  "race_claim w = (case claim [1] lex_spec w of
      Inl _ \<Rightarrow> None
    | Inr (w1, writable) \<Rightarrow> if writable = [True] then do {
        (w2, b) \<leftarrow> try_alloc 0 4 w1;
        b \<leftarrow> b;
        Some (w2, b)
      } else None)"

definition race_run :: "local_world \<Rightarrow> (local_world \<times> unit res list) outcome" where
  "race_run w = do {
     (w1, a) \<leftarrow> race_claim w;
     (w2, b) \<leftarrow> race_claim (drop_object [1] w1);
     race_finish a b w2
   }"

definition race_pool :: "nat \<Rightarrow> (nat \<times> nat) list \<Rightarrow> pinned_pool" where
  "race_pool n fs = \<lparr>pp_numa = 0, pp_base = 2097152, pp_len = 4194304, pp_registered = True, pp_free = fs, pp_serial = n\<rparr>"

definition race_buf :: "nat \<Rightarrow> pinned_buf" where
  "race_buf n = \<lparr>pb_serial = n, pb_numa = 0, pb_base = 2097152, pb_off = n * 2097152, pb_reserved = 2097152, pb_len = 4\<rparr>"

definition race_world :: "lobjects \<Rightarrow> (key \<times> u32) list \<Rightarrow> pinned_pool \<Rightarrow> pinned_buf list \<Rightarrow> local_world" where
  "race_world objs q p bs = \<lparr>lw_counter = 1, lw_state = \<lparr>lst_objects = objs, lst_fifo = [Cpu 0 \<mapsto> q]\<rparr>, lw_pools = [(0, p)],
     lw_placed = bs, lw_readers = [], lw_mem = (\<lambda>a. ucast a + 3)\<rparr>"

definition race_replica :: "nat \<Rightarrow> lreplica" where
  "race_replica n = \<lparr>lr_device = Cpu 0, lr_tier = Dram, lr_misplaced = False, lr_data = Pinned (race_buf n)\<rparr>"

lemma race_alloc:
  "pool_alloc 4 (race_pool 0 [(0, 4194304)]) = Some (Some (race_pool 1 [(2097152, 2097152)], race_buf 0))"
  "pool_alloc 4 (race_pool 1 [(2097152, 2097152)]) = Some (Some (race_pool 2 [], race_buf 1))"
  by (simp_all add: pool_eval race_pool_def race_buf_def)

lemma race_claims:
  "race_claim (race_world [] [] (race_pool 0 [(0, 4194304)]) []) =
     Some (race_world [([1], lex_object True [])] [] (race_pool 1 [(2097152, 2097152)]) [race_buf 0], race_buf 0)"
  "race_claim (race_world [] [] (race_pool 1 [(2097152, 2097152)]) [race_buf 0]) =
     Some (race_world [([1], lex_object True [])] [] (race_pool 2 []) [race_buf 1, race_buf 0], race_buf 1)"
  by (simp_all add: race_claim_def claim_def race_world_def lex_object_def lex_spec_def claim_slots_def claimable_def
      try_alloc_def race_alloc set_objects_def set_pool_def hold_def del: One_nat_def)

text \<open>
  Both \<open>put\<close>s report the slot as written, and it ends up with a replica of each: a slot is
  not written once when a \<open>remove\<close> of its key falls between the phases of a \<open>put\<close>.
\<close>

theorem local_slot_written_twice:
  "\<exists>w. race_run (race_world [] [] (race_pool 0 [(0, 4194304)]) []) = Some (w, [Inr (), Inr ()]) \<and>
     slot_at w [1] 0 = Some (lex_spec, [race_replica 0, race_replica 1])"
proof -
  have "drop_object [1] (race_world [([1], lex_object True [])] [] (race_pool 1 [(2097152, 2097152)]) [race_buf 0]) =
      race_world [] [] (race_pool 1 [(2097152, 2097152)]) [race_buf 0]"
    by (simp add: drop_object_def race_world_def lex_object_def lobj_bufs_def slot_bufs_def drop_refs_def set_objects_def)
  moreover have "race_buf 0 \<noteq> race_buf 1" by (simp add: race_buf_def)
  then have "\<exists>w. race_finish (race_buf 0) (race_buf 1) (race_world [([1], lex_object True [])] [] (race_pool 2 []) [race_buf 1, race_buf 0]) =
      Some (w, [Inr (), Inr ()]) \<and> slot_at w [1] 0 = Some (lex_spec, [race_replica 0, race_replica 1])"
    by (simp add: race_finish_def finish_slot_def race_world_def lex_object_def Let_def index_def placed_replicas_def placed_bufs_def
        let_go_all_def let_go_def drop_ref_def referenced_def all_bufs_def lobj_bufs_def slot_bufs_def replica_bufs_def
        slot_at_def race_replica_def)
  ultimately show ?thesis
    unfolding race_run_def by (simp add: race_claims del: One_nat_def)
qed

end
