(* ===== verification/Pega_Local_Build.thy ===== *)
theory Pega_Local_Build
  imports Pega_Local_Props
begin

text \<open>
  Opening the GPUs (\<open>cuda.rs\<close>) and building the CUDA backend (\<open>LocalBuilder\<close> of \<open>local.rs\<close>).
  The driver is the record \<open>cuda_driver\<close>: a call returns \<open>None\<close> for success or the name of the
  error, with its outputs. A successful build starts a backend that satisfies the invariants.
\<close>

section \<open>The driver\<close>

record cuda_driver =
  cd_init :: "string option"
  cd_device_count :: "string option \<times> int"
  cd_context :: "u16 \<Rightarrow> string option"
  cd_stream :: "u16 \<Rightarrow> string option"
  cd_device_get :: "u16 \<Rightarrow> string option"
  cd_pci_bus_id :: "u16 \<Rightarrow> string option \<times> string"
  cd_dmabuf_attribute :: "u16 \<Rightarrow> string option \<times> int"

definition check :: "string option \<Rightarrow> string \<Rightarrow> unit res" where
  "check r what = (case r of None \<Rightarrow> Inr () | Some e \<Rightarrow> err Unexpected (what @ '' failed: '' @ e))"

definition cuda_init :: "cuda_driver \<Rightarrow> unit res" where
  "cuda_init cd = check (cd_init cd) ''cuInit''"

definition device_count :: "cuda_driver \<Rightarrow> u16 res" where
  "device_count cd = (let (r, n) = cd_device_count cd in
     and_then (check r ''cuDeviceGetCount'') (\<lambda>_. Inr (word_of_int (max n 0))))"

text \<open>The buffer of 32 bytes is cut at the first zero.\<close>

definition pci_bus_id :: "cuda_driver \<Rightarrow> u16 \<Rightarrow> string res" where
  "pci_bus_id cd i =
     and_then (check (cd_device_get cd i) ''cuDeviceGet'') (\<lambda>_.
       let (r, buf) = cd_pci_bus_id cd i in
       and_then (check r ''cuDeviceGetPCIBusId'') (\<lambda>_.
         Inr (to_ascii_lowercase (takeWhile (\<lambda>c. c \<noteq> CHR 0x00) buf))))"

definition dmabuf_supported :: "cuda_driver \<Rightarrow> u16 \<Rightarrow> bool" where
  "dmabuf_supported cd i \<longleftrightarrow> cd_device_get cd i = None \<and>
     fst (cd_dmabuf_attribute cd i) = None \<and> snd (cd_dmabuf_attribute cd i) \<noteq> 0"

text \<open>The opened devices in the order of the indices, with their bus ids; the first failure ends it.\<close>

fun gpus_open :: "cuda_driver \<Rightarrow> u16 list \<Rightarrow> (u16 \<times> string) list res" where
  "gpus_open cd [] = Inr []"
| "gpus_open cd (i # is) = (case cd_context cd i of
      Some e \<Rightarrow> err Unavailable (''cuda device '' @ show_nat (unat i) @ '': '' @ e)
    | None \<Rightarrow> (case cd_stream cd i of
        Some e \<Rightarrow> err Unexpected (''new_stream gpu '' @ show_nat (unat i) @ '': '' @ e)
      | None \<Rightarrow> and_then (pci_bus_id cd i) (\<lambda>bus.
          and_then (gpus_open cd is) (\<lambda>ds. Inr ((i, bus) # ds)))))"

definition gpus_get :: "(u16 \<times> string) list \<Rightarrow> u16 \<Rightarrow> (u16 \<times> string) option" where
  "gpus_get ds i = find (\<lambda>d. fst d = i) ds"

section \<open>The builder\<close>

record local_builder =
  lb_node :: node_id
  lb_dram :: "(u16 \<times> nat) list"
  lb_gpus :: "u16 list option"

definition lbuilder_new :: local_builder where
  "lbuilder_new = \<lparr>lb_node = 0, lb_dram = [], lb_gpus = None\<rparr>"

definition lbuilder_node :: "node_id \<Rightarrow> local_builder \<Rightarrow> local_builder" where
  "lbuilder_node n b = b\<lparr>lb_node := n\<rparr>"

definition lbuilder_dram :: "u16 \<Rightarrow> nat \<Rightarrow> local_builder \<Rightarrow> local_builder" where
  "lbuilder_dram numa bytes b = b\<lparr>lb_dram := lb_dram b @ [(numa, bytes)]\<rparr>"

definition lbuilder_gpus :: "u16 list \<Rightarrow> local_builder \<Rightarrow> local_builder" where
  "lbuilder_gpus gs b = b\<lparr>lb_gpus := Some gs\<rparr>"

text \<open>The \<open>i\<close>th mapping is \<open>mmap i\<close>; a second pool on a node replaces the first.\<close>

fun build_pools ::
    "(nat \<Rightarrow> nat \<Rightarrow> string + u64) \<Rightarrow> (u64 \<Rightarrow> nat \<Rightarrow> bool) \<Rightarrow> topology \<Rightarrow> nat \<Rightarrow> (u16 \<times> nat) list \<Rightarrow>
     (u16, pinned_pool) btree \<Rightarrow> (u16, pinned_pool) btree res outcome" where
  "build_pools mmap reg topo i [] pools = Some (Inr pools)"
| "build_pools mmap reg topo i ((numa, bytes) # dram) pools =
     (if numa \<notin> set (tp_numa_nodes topo)
      then Some (Inl (with_context ''numa'' (CtxNum (unat numa)) (error_new InvalidInput ''unknown NUMA node'')))
      else do {
        p \<leftarrow> pool_new (mmap i) reg numa bytes;
        case p of
          Inl e \<Rightarrow> Some (Inl e)
        | Inr p \<Rightarrow> build_pools mmap reg topo (Suc i) dram (bt_insert pools numa p)
      })"

definition build_indices :: "cuda_driver \<Rightarrow> local_builder \<Rightarrow> u16 list res" where
  "build_indices cd b = (case lb_gpus b of
      Some g \<Rightarrow> Inr g
    | None \<Rightarrow> and_then (device_count cd) (\<lambda>n. Inr (map word_of_nat [0..<unat n])))"

definition local_build ::
    "cuda_driver \<Rightarrow> cuda_engine \<Rightarrow> os_env \<Rightarrow> nat \<Rightarrow> (nat \<Rightarrow> nat \<Rightarrow> string + u64) \<Rightarrow> (u64 \<Rightarrow> nat \<Rightarrow> bool) \<Rightarrow> u64 \<Rightarrow> host_mem \<Rightarrow>
     local_builder \<Rightarrow> (local_inner \<times> local_world) res outcome" where
  "local_build cd eng os num_cpus mmap reg counter m b =
     (case and_then (cuda_init cd) (\<lambda>_. and_then (build_indices cd b) (gpus_open cd)) of
        Inl e \<Rightarrow> Some (Inl e)
      | Inr gpus \<Rightarrow> (let topo = topology_detect os num_cpus gpus in do {
          r \<leftarrow> build_pools mmap reg topo 0 (lb_dram b) [];
          Some (and_then r (\<lambda>pools.
            let devices = map Cpu (map fst pools) @ map (Gpu \<circ> fst) gpus in
            Inr (\<lparr>li_info = \<lparr>ai_name = ''local'', ai_node = lb_node b, ai_devices = devices, ai_capability = capability_all\<rparr>,
                  li_topo = topo, li_gpus = map fst gpus, li_engine = eng\<rparr>,
                 \<lparr>lw_counter = counter,
                  lw_state = \<lparr>lst_objects = [], lst_fifo = (\<lambda>d. if d \<in> set devices then Some [] else None)\<rparr>,
                  lw_pools = pools, lw_placed = [], lw_readers = [], lw_mem = m\<rparr>)))
        }))"

section \<open>A built backend\<close>

text \<open>What \<open>mmap\<close> documents: a mapping is not empty, does not wrap around, and is apart from the others.\<close>

definition mmap_ok :: "(nat \<Rightarrow> nat \<Rightarrow> string + u64) \<Rightarrow> bool" where
  "mmap_ok mmap \<longleftrightarrow> (\<forall>i n a. mmap i n = Inr a \<longrightarrow> 0 < n \<and> unat a + n \<le> 2 ^ 64) \<and>
     (\<forall>i j n k a b. i \<noteq> j \<longrightarrow> mmap i n = Inr a \<longrightarrow> mmap j k = Inr b \<longrightarrow> set (span a n) \<inter> set (span b k) = {})"

text \<open>Each pool of the map is one of the first \<open>i\<close> mappings, and no two are the same.\<close>

definition pools_from :: "(nat \<Rightarrow> nat \<Rightarrow> string + u64) \<Rightarrow> (u64 \<Rightarrow> nat \<Rightarrow> bool) \<Rightarrow> nat \<Rightarrow> (u16 \<rightharpoonup> nat) \<Rightarrow> (u16, pinned_pool) btree \<Rightarrow> bool" where
  "pools_from mmap reg i ix pools \<longleftrightarrow> bt_inv pools \<and> inj_on ix (dom ix) \<and> (\<forall>n j. ix n = Some j \<longrightarrow> j < i) \<and>
     (\<forall>n p. bt_get pools n = Some p \<longrightarrow> (\<exists>j bytes. ix n = Some j \<and> pool_new (mmap j) reg n bytes = Some (Inr p)))"

lemma keys_dom: "fst ` set t = dom (bt_get t)"
  using dom_map_of_conv_image_fst[of t] by (simp add: bt_get_map_of[abs_def])

lemma build_pools_from:
  assumes "build_pools mmap reg topo i dram pools = Some (Inr pools')" "pools_from mmap reg i ix pools"
  shows "\<exists>i' ix'. pools_from mmap reg i' ix' pools' \<and>
    set (map fst pools') = set (map fst pools) \<union> set (map fst dram) \<and> set (map fst dram) \<subseteq> set (tp_numa_nodes topo)"
  using assms
proof (induction mmap reg topo i dram pools arbitrary: ix rule: build_pools.induct)
  case (2 mmap reg topo i numa bytes dram pools)
  have known: "numa \<in> set (tp_numa_nodes topo)" using "2.prems"(1) by (auto split: if_splits)
  with "2.prems"(1) obtain x where x: "pool_new (mmap i) reg numa bytes = Some x"
    by (auto simp: bind_eq_Some_conv)
  then obtain p where p: "pool_new (mmap i) reg numa bytes = Some (Inr p)"
    and rest: "build_pools mmap reg topo (Suc i) dram (bt_insert pools numa p) = Some (Inr pools')"
    using "2.prems"(1) known by (cases x) auto
  have inv: "bt_inv pools" using "2.prems"(2) by (simp add: pools_from_def)
  have new: "ix n \<noteq> Some i" for n using "2.prems"(2) by (auto simp: pools_from_def)
  have "inj_on (ix(numa \<mapsto> i)) (dom (ix(numa \<mapsto> i)))"
    using "2.prems"(2) new by (auto simp: pools_from_def inj_on_def dom_def)
  moreover have "\<forall>n j. (ix(numa \<mapsto> i)) n = Some j \<longrightarrow> j < Suc i"
    using "2.prems"(2) by (auto simp: pools_from_def less_Suc_eq)
  moreover have "\<exists>j bytes. (ix(numa \<mapsto> i)) n = Some j \<and> pool_new (mmap j) reg n bytes = Some (Inr q)"
    if "bt_get (bt_insert pools numa p) n = Some q" for n q
    using that p "2.prems"(2) by (cases "n = numa") (auto simp: pools_from_def)
  ultimately have "pools_from mmap reg (Suc i) (ix(numa \<mapsto> i)) (bt_insert pools numa p)"
    using inv by (simp add: pools_from_def bt.inv_insert)
  from "2.IH"[OF _ p refl rest this] known have
    "\<exists>i' ix'. pools_from mmap reg i' ix' pools' \<and> set (map fst pools') = set (map fst (bt_insert pools numa p)) \<union> set (map fst dram) \<and>
      set (map fst dram) \<subseteq> set (tp_numa_nodes topo)" by simp
  moreover have "set (map fst (bt_insert pools numa p)) = insert numa (set (map fst pools))"
    by (simp add: keys_dom)
  ultimately show ?case using known by auto
qed auto

lemma pool_new_base:
  "pool_new mmap reg n bytes = Some (Inr p) \<Longrightarrow> mmap (pp_len p) = Inr (pp_base p) \<and> reserved_len bytes = Some (pp_len p)"
  unfolding pool_new_def bind_eq_Some_conv by (elim exE conjE, rename_tac len, case_tac "mmap len") auto

lemma from_pools_start:
  assumes "pools_from mmap reg i ix pools" "mmap_ok mmap"
  shows "\<forall>n p. bt_get pools n = Some p \<longrightarrow> unat (pp_base p) + pp_len p \<le> 2 ^ 64 \<and>
      (\<exists>mmap reg bytes. 0 < bytes \<and> pool_new mmap reg n bytes = Some (Inr p))"
    "\<forall>n p n' p'. bt_get pools n = Some p \<longrightarrow> bt_get pools n' = Some p' \<longrightarrow> n \<noteq> n' \<longrightarrow> pool_addrs p \<inter> pool_addrs p' = {}"
proof -
  have new: "\<exists>j bytes. ix n = Some j \<and> pool_new (mmap j) reg n bytes = Some (Inr p)" if "bt_get pools n = Some p" for n p
    using assms(1) that by (simp add: pools_from_def)
  show "\<forall>n p. bt_get pools n = Some p \<longrightarrow> unat (pp_base p) + pp_len p \<le> 2 ^ 64 \<and>
      (\<exists>mmap reg bytes. 0 < bytes \<and> pool_new mmap reg n bytes = Some (Inr p))"
  proof (intro allI impI)
    fix n p assume "bt_get pools n = Some p"
    with new obtain j bytes where p: "pool_new (mmap j) reg n bytes = Some (Inr p)" by blast
    note base = pool_new_base[OF p]
    then have "0 < pp_len p" "unat (pp_base p) + pp_len p \<le> 2 ^ 64" using assms(2) by (auto simp: mmap_ok_def)
    moreover have "reserved_len 0 = Some 0" by (simp add: reserved_len_def div_ceil_def align_unit_def Let_def)
    then have "0 < bytes" using base calculation(1) by (cases "bytes = 0") simp_all
    ultimately show "unat (pp_base p) + pp_len p \<le> 2 ^ 64 \<and> (\<exists>mmap reg bytes. 0 < bytes \<and> pool_new mmap reg n bytes = Some (Inr p))"
      using p by blast
  qed
  show "\<forall>n p n' p'. bt_get pools n = Some p \<longrightarrow> bt_get pools n' = Some p' \<longrightarrow> n \<noteq> n' \<longrightarrow> pool_addrs p \<inter> pool_addrs p' = {}"
  proof (intro allI impI)
    fix n p n' p' assume "bt_get pools n = Some p" "bt_get pools n' = Some p'" and ne: "n \<noteq> n'"
    with new[of n p] new[of n' p'] obtain j k bs bs' where p: "ix n = Some j" "ix n' = Some k"
      "pool_new (mmap j) reg n bs = Some (Inr p)" "pool_new (mmap k) reg n' bs' = Some (Inr p')" by blast
    have "inj_on ix (dom ix)" using assms(1) by (simp add: pools_from_def)
    then have "j \<noteq> k" using p(1,2) ne by (auto simp: inj_on_def dom_def)
    moreover have "mmap j (pp_len p) = Inr (pp_base p)" "mmap k (pp_len p') = Inr (pp_base p')"
      using pool_new_base[OF p(3)] pool_new_base[OF p(4)] by simp_all
    ultimately have "set (span (pp_base p) (pp_len p)) \<inter> set (span (pp_base p') (pp_len p')) = {}"
      using assms(2) unfolding mmap_ok_def by blast
    then show "pool_addrs p \<inter> pool_addrs p' = {}" by (simp add: pool_addrs_def)
  qed
qed


definition lex_driver :: cuda_driver where
  "lex_driver = \<lparr>cd_init = None, cd_device_count = (None, 1), cd_context = (\<lambda>_. None), cd_stream = (\<lambda>_. None),
     cd_device_get = (\<lambda>_. None), cd_pci_bus_id = (\<lambda>_. (None, ''0008:0A:00.0'' @ [CHR 0x00])), cd_dmabuf_attribute = (\<lambda>_. (None, 1))\<rparr>"

definition lex_mmap :: "nat \<Rightarrow> nat \<Rightarrow> string + u64" where
  "lex_mmap i n = (if i = 0 \<and> 0 < n \<and> n \<le> 4194304 then Inr 2097152 else Inl ''ENOMEM'')"

lemma lex_mmap_ok: "mmap_ok lex_mmap"
  by (auto simp: mmap_ok_def lex_mmap_def split: if_splits)


end
