(* ===== verification/Pega_Rdma_Map.thy ===== *)
theory Pega_Rdma_Map
  imports Pega_Numa Pega_Btree
begin

text \<open>
  Registered memory of the RDMA engine (\<open>rc_backend/state.rs\<close>, \<open>engine.rs\<close>): the map of
  registrations with its overlap check and predecessor lookup, and the descriptor a peer uses
  to address a region. Lengths of type \<open>usize\<close> are 64-bit words here.
\<close>

section \<open>Errors\<close>

datatype transfer_error =
    InvalidArgument string
  | MemoryNotRegistered u64
  | DeviceNotFound string
  | AddressResolution string
  | Backend string
  | Unimplemented string

type_synonym 'a tres = "transfer_error + 'a"

fun hex_digits :: "nat \<Rightarrow> string" where
  "hex_digits n = (if n < 16 then [''0123456789abcdef'' ! n] else hex_digits (n div 16) @ [''0123456789abcdef'' ! (n mod 16)])"

declare hex_digits.simps [simp del]

definition show_hex :: "nat \<Rightarrow> string" where
  "show_hex n = ''0x'' @ hex_digits n"

section \<open>Regions\<close>

text \<open>A registration with one NIC: its local and remote key.\<close>

record verbs_mr =
  vm_lkey :: u32
  vm_rkey :: u32

record mem_entry =
  me_base :: u64
  me_len :: u64
  me_numa :: numa_node
  me_mrs :: "verbs_mr list"

type_synonym local_map = "(u64, mem_entry) btree"

definition overlap_error :: "mem_entry \<Rightarrow> mem_entry \<Rightarrow> transfer_error" where
  "overlap_error e x = Backend (''memory region ['' @ show_hex (unat (me_base e)) @ '', len='' @ show_hex (unat (me_len e)) @
     '') overlaps registered region ['' @ show_hex (unat (me_base x)) @ '', len='' @ show_hex (unat (me_len x)) @ '')'')"

text \<open>The registered region that overlaps \<open>[base, stop)\<close>: the predecessor or the successor of \<open>base\<close>.\<close>

definition map_overlap :: "u64 \<Rightarrow> u64 \<Rightarrow> local_map \<Rightarrow> mem_entry option outcome" where
  "map_overlap base stop m = do {
     before \<leftarrow> (case bt_prev m base of
         None \<Rightarrow> Some None
       | Some (_, p) \<Rightarrow> do {
           p_end \<leftarrow> checked_add (me_base p) (me_len p);
           Some (if base < p_end then Some p else None)
         });
     Some (case before of
         Some p \<Rightarrow> Some p
       | None \<Rightarrow> (case bt_next m base of
           None \<Rightarrow> None
         | Some (next_base, x) \<Rightarrow> if next_base < stop then Some x else None))
   }"

definition map_insert :: "mem_entry \<Rightarrow> local_map \<Rightarrow> local_map tres outcome" where
  "map_insert e m =
     (if me_len e = 0 then Some (Inl (InvalidArgument ''len must be non-zero''))
      else case checked_add (me_base e) (me_len e) of
          None \<Rightarrow> Some (Inl (InvalidArgument ''memory region overflows address space''))
        | Some stop \<Rightarrow> do {
            x \<leftarrow> map_overlap (me_base e) stop m;
            Some (case x of
                Some x \<Rightarrow> Inl (overlap_error e x)
              | None \<Rightarrow> Inr (bt_insert m (me_base e) e))
          })"

definition map_remove :: "u64 \<Rightarrow> local_map \<Rightarrow> local_map \<times> mem_entry option" where
  "map_remove base m = (bt_remove m base, bt_get m base)"

definition find_entry :: "local_map \<Rightarrow> u64 \<Rightarrow> u64 \<Rightarrow> mem_entry option outcome" where
  "find_entry m ptr len = (case checked_add ptr len of
      None \<Rightarrow> Some None
    | Some stop \<Rightarrow> (case bt_prev m ptr of
        None \<Rightarrow> Some None
      | Some (_, e) \<Rightarrow> do {
          e_end \<leftarrow> checked_add (me_base e) (me_len e);
          Some (if stop \<le> e_end then Some e else None)
        }))"

record region_desc =
  rd_addr :: u64
  rd_len :: u64
  rd_rkeys :: "u32 list"

definition desc_contains :: "region_desc \<Rightarrow> u64 \<Rightarrow> u64 \<Rightarrow> bool" where
  "desc_contains r ptr len = (case checked_add ptr len of
      None \<Rightarrow> False
    | Some stop \<Rightarrow> ptr \<ge> rd_addr r \<and> stop \<le> saturating_add (rd_addr r) (rd_len r))"

section \<open>Ranges\<close>

definition range_of :: "u64 \<Rightarrow> u64 \<Rightarrow> nat set" where
  "range_of a n = {unat a..<unat a + unat n}"

definition entry_range :: "mem_entry \<Rightarrow> nat set" where
  "entry_range e = range_of (me_base e) (me_len e)"

text \<open>Every registration is under its base, is not empty, does not wrap, and overlaps no other.\<close>

definition entry_ok :: "mem_entry \<Rightarrow> bool" where
  "entry_ok e \<longleftrightarrow> 0 < unat (me_len e) \<and> unat (me_base e) + unat (me_len e) < 2 ^ 64"

definition map_ok :: "local_map \<Rightarrow> bool" where
  "map_ok m \<longleftrightarrow> bt_inv m \<and> (\<forall>k e. bt_get m k = Some e \<longrightarrow> k = me_base e \<and> entry_ok e) \<and>
     (\<forall>k e k' e'. bt_get m k = Some e \<longrightarrow> bt_get m k' = Some e' \<longrightarrow> k \<noteq> k' \<longrightarrow> entry_range e \<inter> entry_range e' = {})"

lemma entry_end: "entry_ok e \<Longrightarrow> \<exists>x. checked_add (me_base e) (me_len e) = Some x \<and> unat x = unat (me_base e) + unat (me_len e)"
  by (cases "checked_add (me_base e) (me_len e)") (auto simp: entry_ok_def checked_add_Some checked_add_None)

lemma range_before:
  assumes "entry_ok e" "entry_ok p" "entry_range e \<inter> entry_range p = {}" "unat (me_base e) < unat (me_base p)"
  shows "unat (me_base e) + unat (me_len e) \<le> unat (me_base p)"
proof (rule ccontr)
  assume "\<not> ?thesis"
  with assms have "unat (me_base p) \<in> entry_range e \<inter> entry_range p"
    by (auto simp: entry_range_def range_of_def entry_ok_def)
  with assms(3) show False by blast
qed

lemma map_get:
  assumes "map_ok m" "bt_get m k = Some e"
  shows "k = me_base e" "entry_ok e" "bt_get m (me_base e) = Some e"
  using assms by (auto simp: map_ok_def)

text \<open>What lies at or below an address is below the end of its predecessor.\<close>

lemma map_prev:
  assumes "map_ok m" "bt_prev m base = Some (k, p)" "bt_get m k' = Some e" "me_base e \<le> base"
  shows "e = p \<or> unat (me_base e) + unat (me_len e) \<le> unat (me_base p)"
proof -
  have inv: "bt_inv m" using assms(1) by (simp add: map_ok_def)
  note prev = bt_prev_Some[OF inv assms(2)]
  note gp = map_get[OF assms(1) prev(1)] and ge = map_get[OF assms(1,3)]
  show ?thesis
  proof (cases "k' = k")
    case True
    then show ?thesis using assms(3) prev(1) by simp
  next
    case False
    have "k' \<le> k" using prev(3)[OF assms(3)] ge(1) assms(4) by simp
    with False have "unat (me_base e) < unat (me_base p)" using ge(1) gp(1) by (simp add: word_less_nat_alt[symmetric])
    moreover have "entry_range e \<inter> entry_range p = {}" using assms(1,3) prev(1) False unfolding map_ok_def by blast
    ultimately show ?thesis using range_before ge(2) gp(2) by blast
  qed
qed

lemma map_overlap_Some:
  assumes "map_ok m" "unat base < unat stop"
  shows "\<exists>x. map_overlap base stop m = Some x \<and>
    (case x of None \<Rightarrow> (\<forall>k e. bt_get m k = Some e \<longrightarrow> entry_range e \<inter> {unat base..<unat stop} = {})
     | Some e \<Rightarrow> bt_get m (me_base e) = Some e \<and> entry_range e \<inter> {unat base..<unat stop} \<noteq> {})"
proof -
  have inv: "bt_inv m" using assms(1) by (simp add: map_ok_def)
  have nxt: "case (case bt_next m base of None \<Rightarrow> None | Some (n, x) \<Rightarrow> if n < stop then Some x else None) of
      None \<Rightarrow> (\<forall>k e. bt_get m k = Some e \<longrightarrow> base \<le> me_base e \<longrightarrow> entry_range e \<inter> {unat base..<unat stop} = {})
    | Some e \<Rightarrow> bt_get m (me_base e) = Some e \<and> entry_range e \<inter> {unat base..<unat stop} \<noteq> {}"
  proof (cases "bt_next m base")
    case None
    then have "\<not> base \<le> me_base e" if "bt_get m k = Some e" for k e
      using bt_next_None[OF None, of "(k, e)"] that map_get(1)[OF assms(1) that]
      by (auto simp: bt_get_map_of dest: map_of_SomeD)
    with None show ?thesis by auto
  next
    case (Some ne)
    obtain n x where ne: "bt_next m base = Some (n, x)" using Some by (cases ne) simp
    note nx = bt_next_Some[OF inv ne] and gx = map_get[OF assms(1) bt_next_Some(1)[OF inv ne]]
    show ?thesis
    proof (cases "n < stop")
      case True
      have "unat n \<in> entry_range x \<inter> {unat base..<unat stop}"
        using True nx(2) gx(1,2) by (auto simp: entry_range_def range_of_def entry_ok_def word_less_nat_alt word_le_nat_alt)
      then show ?thesis using True ne gx(3) by auto
    next
      case False
      have "entry_range e \<inter> {unat base..<unat stop} = {}" if "bt_get m k = Some e" "base \<le> me_base e" for k e
        using nx(3)[OF that(1)] map_get(1)[OF assms(1) that(1)] that(2) False
        by (auto simp: entry_range_def range_of_def word_less_nat_alt word_le_nat_alt)
      with False ne show ?thesis by auto
    qed
  qed
  show ?thesis
  proof (cases "bt_prev m base")
    case None
    then have "base \<le> me_base e" if "bt_get m k = Some e" for k e
      using bt_prev_None[OF inv None, of "(k, e)"] that map_get(1)[OF assms(1) that]
      by (auto simp: bt_get_map_of less_imp_le dest: map_of_SomeD)
    with None nxt show ?thesis by (auto simp: map_overlap_def split: option.splits)
  next
    case (Some kp)
    obtain k p where kp: "bt_prev m base = Some (k, p)" using Some by (cases kp) simp
    note prev = bt_prev_Some[OF inv kp] and gp = map_get[OF assms(1) bt_prev_Some(1)[OF inv kp]]
    obtain p_end where pe: "checked_add (me_base p) (me_len p) = Some p_end" "unat p_end = unat (me_base p) + unat (me_len p)"
      using entry_end[OF gp(2)] by blast
    show ?thesis
    proof (cases "base < p_end")
      case True
      have "unat base \<in> entry_range p \<inter> {unat base..<unat stop}"
        using True prev(2) gp(1) pe(2) assms(2) by (auto simp: entry_range_def range_of_def word_less_nat_alt word_le_nat_alt)
      with True kp pe(1) gp(3) show ?thesis by (auto simp: map_overlap_def)
    next
      case False
      have low: "entry_range e \<inter> {unat base..<unat stop} = {}" if "bt_get m k' = Some e" "me_base e \<le> base" for k' e
        using map_prev[OF assms(1) kp that] False pe(2) prev(2) gp(1)
        by (auto simp: entry_range_def range_of_def word_less_nat_alt word_le_nat_alt)
      then have "\<forall>k e. bt_get m k = Some e \<longrightarrow> entry_range e \<inter> {unat base..<unat stop} = {}"
        if "\<forall>k e. bt_get m k = Some e \<longrightarrow> base \<le> me_base e \<longrightarrow> entry_range e \<inter> {unat base..<unat stop} = {}"
        using that by (meson linorder_le_cases)
      with False kp pe(1) nxt show ?thesis by (auto simp: map_overlap_def split: option.splits)
    qed
  qed
qed

section \<open>Registration and lookup\<close>

definition admissible :: "local_map \<Rightarrow> mem_entry \<Rightarrow> bool" where
  "admissible m e \<longleftrightarrow> entry_ok e \<and> (\<forall>k x. bt_get m k = Some x \<longrightarrow> entry_range x \<inter> entry_range e = {})"

lemma map_insert_exact:
  assumes "map_ok m"
  shows "\<exists>r. map_insert e m = Some r \<and> (case r of
      Inl _ \<Rightarrow> \<not> admissible m e
    | Inr m' \<Rightarrow> admissible m e \<and> m' = bt_insert m (me_base e) e)"
proof (cases "me_len e = 0 \<or> checked_add (me_base e) (me_len e) = None")
  case True
  then have "\<not> entry_ok e" by (auto simp: entry_ok_def checked_add_None)
  with True show ?thesis by (auto simp: map_insert_def admissible_def)
next
  case False
  then obtain stop where stop: "checked_add (me_base e) (me_len e) = Some stop" by auto
  then have range: "unat stop = unat (me_base e) + unat (me_len e)" by (simp add: checked_add_Some)
  have len: "0 < unat (me_len e)" using False by (simp add: unat_gt_0)
  have ok: "entry_ok e" using range len unat_bound[of stop] by (simp add: entry_ok_def)
  have er: "entry_range e = {unat (me_base e)..<unat stop}" by (simp add: entry_range_def range_of_def range)
  obtain x where x: "map_overlap (me_base e) stop m = Some x"
    "case x of None \<Rightarrow> (\<forall>k e'. bt_get m k = Some e' \<longrightarrow> entry_range e' \<inter> entry_range e = {})
     | Some e' \<Rightarrow> bt_get m (me_base e') = Some e' \<and> entry_range e' \<inter> entry_range e \<noteq> {}"
  proof -
    have "unat (me_base e) < unat stop" using len range by linarith
    from map_overlap_Some[OF assms this, folded er] that show thesis by blast
  qed
  show ?thesis
    using x ok False stop by (cases x) (auto simp: map_insert_def admissible_def)
qed

lemma map_ok_insert:
  assumes "map_ok m" "admissible m e"
  shows "map_ok (bt_insert m (me_base e) e)"
proof -
  have "bt_inv m" using assms(1) by (simp add: map_ok_def)
  then show ?thesis
    using assms unfolding map_ok_def admissible_def
    by (auto simp: bt.inv_insert split: if_splits; blast)
qed

lemma map_ok_remove: "map_ok m \<Longrightarrow> map_ok (fst (map_remove base m))"
  unfolding map_ok_def map_remove_def by (auto simp: bt.inv_remove bt.get_remove split: if_splits; blast)

lemma find_entry_exact:
  assumes "map_ok m" "len \<noteq> 0"
  shows "\<exists>x. find_entry m ptr len = Some x \<and>
    (\<forall>e. x = Some e \<longleftrightarrow> bt_get m (me_base e) = Some e \<and> range_of ptr len \<subseteq> entry_range e)"
proof (cases "checked_add ptr len")
  case None
  then have "2 ^ 64 \<le> unat ptr + unat len" by (simp add: checked_add_None)
  then have "\<not> range_of ptr len \<subseteq> entry_range e" if "bt_get m (me_base e) = Some e" for e
    using map_get(2)[OF assms(1) that] unat_bound[of ptr]
    by (auto simp: entry_ok_def entry_range_def range_of_def atLeastLessThan_subset_iff)
  with None show ?thesis by (auto simp: find_entry_def)
next
  case (Some stop)
  have inv: "bt_inv m" using assms(1) by (simp add: map_ok_def)
  have stop: "unat stop = unat ptr + unat len" using Some by (simp add: checked_add_Some)
  have len: "0 < unat len" using assms(2) by (simp add: unat_gt_0)
  have sub: "range_of ptr len \<subseteq> entry_range e \<longleftrightarrow> me_base e \<le> ptr \<and> unat stop \<le> unat (me_base e) + unat (me_len e)" for e
    using len by (auto simp: range_of_def entry_range_def atLeastLessThan_subset_iff word_le_nat_alt stop)
  show ?thesis
  proof (cases "bt_prev m ptr")
    case None
    have "\<not> me_base e \<le> ptr" if "bt_get m (me_base e) = Some e" for e
      using bt_prev_None[OF inv None, of "(me_base e, e)"] that by (auto simp: bt_get_map_of dest: map_of_SomeD)
    with Some None sub show ?thesis by (auto simp: find_entry_def)
  next
    case kp: (Some kp)
    obtain k p where kp: "bt_prev m ptr = Some (k, p)" using kp by (cases kp) simp
    note prev = bt_prev_Some[OF inv kp] and gp = map_get[OF assms(1) bt_prev_Some(1)[OF inv kp]]
    obtain p_end where pe: "checked_add (me_base p) (me_len p) = Some p_end" "unat p_end = unat (me_base p) + unat (me_len p)"
      using entry_end[OF gp(2)] by blast
    have uniq: "e = p" if "bt_get m (me_base e) = Some e" "me_base e \<le> ptr" "unat stop \<le> unat (me_base e) + unat (me_len e)" for e
      using map_prev[OF assms(1) kp that(1,2)] that(3) prev(2) gp(1) len stop by (auto simp: word_le_nat_alt)
    have "range_of ptr len \<subseteq> entry_range p \<longleftrightarrow> stop \<le> p_end"
      unfolding sub using prev(2) gp(1) pe(2) by (simp add: word_le_nat_alt)
    with Some kp pe(1) gp(3) uniq show ?thesis unfolding sub by (auto simp: find_entry_def)
  qed
qed

text \<open>The maps that registrations and their removal lead to.\<close>

inductive map_run :: "local_map \<Rightarrow> bool" where
  map_start: "map_run []"
| map_registered: "map_run m \<Longrightarrow> map_insert e m = Some (Inr m') \<Longrightarrow> map_run m'"
| map_unregistered: "map_run m \<Longrightarrow> map_remove base m = (m', x) \<Longrightarrow> map_run m'"

lemma map_run_ok: "map_run m \<Longrightarrow> map_ok m"
proof (induction rule: map_run.induct)
  case map_start
  then show ?case by (simp add: map_ok_def bt_inv_def)
next
  case (map_registered m e m')
  with map_insert_exact[of m e] map_ok_insert[of m e] show ?case by auto
next
  case (map_unregistered m base m' x)
  with map_ok_remove[of m base] show ?case by simp
qed

text \<open>
  C14. Registered memory of the RDMA engine: a registration is accepted exactly when it is not
  empty, does not wrap around and overlaps no other, and it never replaces one; a transfer of
  at least one byte finds a registration exactly when one covers it whole, and then finds
  that one. Neither ever panics, after any sequence of registrations and removals.
\<close>

theorem registration_exact:
  assumes "map_run m"
  shows "(\<exists>r. map_insert e m = Some r \<and> (\<forall>m'. r = Inr m' \<longleftrightarrow> admissible m e \<and> m' = bt_insert m (me_base e) e) \<and>
      (\<forall>m'. r = Inr m' \<longrightarrow> bt_get m (me_base e) = None)) \<and>
    (len \<noteq> 0 \<longrightarrow> (\<exists>x. find_entry m ptr len = Some x \<and>
      (\<forall>e. x = Some e \<longleftrightarrow> bt_get m (me_base e) = Some e \<and> range_of ptr len \<subseteq> entry_range e)))"
proof -
  have ok: "map_ok m" using assms by (rule map_run_ok)
  have new: "bt_get m (me_base e) = None" if "admissible m e"
  proof (cases "bt_get m (me_base e)")
    case (Some x)
    then have "unat (me_base e) \<in> entry_range x \<inter> entry_range e"
      using map_get[OF ok Some] that by (auto simp: admissible_def entry_range_def range_of_def entry_ok_def)
    with Some that show ?thesis by (auto simp: admissible_def)
  qed
  obtain r where "map_insert e m = Some r" "case r of Inl _ \<Rightarrow> \<not> admissible m e | Inr m' \<Rightarrow> admissible m e \<and> m' = bt_insert m (me_base e) e"
    using map_insert_exact[OF ok] by blast
  then have "\<exists>r. map_insert e m = Some r \<and> (\<forall>m'. r = Inr m' \<longleftrightarrow> admissible m e \<and> m' = bt_insert m (me_base e) e) \<and>
      (\<forall>m'. r = Inr m' \<longrightarrow> bt_get m (me_base e) = None)"
    using new by (intro exI[of _ r]) (cases r; auto)
  with find_entry_exact[OF ok, of len ptr] show ?thesis by blast
qed

theorem registration_exact_witness:
  "\<exists>e m. map_run m \<and> map_insert e [] = Some (Inr m) \<and> find_entry m 4128 16 = Some (Some e) \<and> find_entry m 4200 200 = Some None"
proof -
  let ?e = "\<lparr>me_base = 4096, me_len = 256, me_numa = 0, me_mrs = []\<rparr>"
  have ins: "map_insert ?e [] = Some (Inr [(4096, ?e)])"
    by (simp add: map_insert_def map_overlap_def checked_add_def)
  then have run: "map_run [(4096, ?e)]" by (rule map_registered[OF map_start])
  have "\<exists>x. find_entry [(4096, ?e)] 4128 16 = Some x \<and> (\<forall>e. x = Some e \<longleftrightarrow>
      bt_get [(4096, ?e)] (me_base e) = Some e \<and> range_of 4128 16 \<subseteq> entry_range e)"
    using registration_exact[OF run, of ?e 16 4128] by simp
  then have "find_entry [(4096, ?e)] 4128 16 = Some (Some ?e)"
    by (auto simp: range_of_def entry_range_def)
  moreover have "find_entry [(4096, ?e)] 4200 200 = Some None"
    by (simp add: find_entry_def checked_add_def word_le_nat_alt)
  ultimately show ?thesis using ins run by blast
qed

end
