(* ===== verification/Pega_Rdma_Session.thy ===== *)
theory Pega_Rdma_Session
  imports Pega_Rdma_Map
begin

text \<open>
  The worker of a queue pair (\<open>rc_backend/session.rs\<close>): posting a batch in chains of work
  requests and collecting their completions. The queue pair with its completion queue is the
  record \<open>rc_dev\<close> over a device state. The loop runs as long as the completions take, so it has
  fuel, one unit per poll; for a queue pair that completes what was posted to it there is
  enough fuel for the batch to return.
\<close>

section \<open>Work requests\<close>

definition max_wr_chain_ops :: nat where
  "max_wr_chain_ops = 4"

definition max_send_wr :: nat where
  "max_send_wr = 128"

datatype transfer_op = OpRead | OpWrite

record rdma_op =
  ro_mr :: verbs_mr
  ro_local :: u64
  ro_remote :: u64
  ro_len :: u64
  ro_rkey :: u32

record work_request =
  wr_number :: u64
  wr_op :: transfer_op
  wr_rkey :: u32
  wr_remote :: u64
  wr_lkey :: u32
  wr_local :: u64
  wr_bytes :: u32

record completion =
  wc_number :: u64
  wc_status :: u32
  wc_opcode :: u32
  wc_vendor :: u32

datatype poll_result = Polled "completion list" | PollEmpty | PollError string

text \<open>Posting a chain returns \<open>None\<close> or the text of the error; status 0 is success.\<close>

record 'q rc_dev =
  dev_post :: "'q \<Rightarrow> work_request list \<Rightarrow> 'q \<times> string option"
  dev_poll :: "'q \<Rightarrow> 'q \<times> poll_result"

definition construct_wr :: "u64 \<Rightarrow> transfer_op \<Rightarrow> rdma_op \<Rightarrow> work_request" where
  "construct_wr n op r = \<lparr>wr_number = n, wr_op = op, wr_rkey = ro_rkey r, wr_remote = ro_remote r,
     wr_lkey = vm_lkey (ro_mr r), wr_local = ro_local r, wr_bytes = ucast (ro_len r)\<rparr>"

fun construct_chain :: "rdma_op list \<Rightarrow> u64 \<Rightarrow> transfer_op \<Rightarrow> work_request list tres" where
  "construct_chain [] n op = Inr []"
| "construct_chain (r # rs) n op =
     (if ro_len r > 0xFFFFFFFF then Inl (InvalidArgument ''len exceeds RDMA SGE length limit'')
      else and_then (construct_chain rs (n + 1) op) (\<lambda>wrs. Inr (construct_wr n op r # wrs)))"

definition post_rdma_wr_chain :: "'q rc_dev \<Rightarrow> 'q \<Rightarrow> rdma_op list \<Rightarrow> u64 \<Rightarrow> transfer_op \<Rightarrow> 'q \<times> nat tres" where
  "post_rdma_wr_chain dev q ops first_wr_id op =
     (if ops = [] then (q, Inr 0)
      else case construct_chain ops first_wr_id op of
          Inl e \<Rightarrow> (q, Inl e)
        | Inr wrs \<Rightarrow> (case dev_post dev q wrs of
            (q', Some e) \<Rightarrow> (q', Inl (Backend e))
          | (q', None) \<Rightarrow> (q', Inr (length ops))))"

section \<open>A batch\<close>

type_synonym inflight = "(u64, u64) btree"

fun track :: "rdma_op list \<Rightarrow> u64 \<Rightarrow> inflight \<Rightarrow> u64 \<times> inflight" where
  "track [] n fl = (n, fl)"
| "track (r # rs) n fl = track rs (n + 1) (bt_insert fl n (ro_len r))"

text \<open>The operations from \<open>next_idx\<close> on are the list \<open>todo\<close>.\<close>

function post_loop ::
    "'q rc_dev \<Rightarrow> transfer_op \<Rightarrow> 'q \<Rightarrow> rdma_op list \<Rightarrow> u64 \<Rightarrow> inflight \<Rightarrow> 'q \<times> (rdma_op list \<times> u64 \<times> inflight) tres" where
  "post_loop dev op q todo n fl =
     (if todo = [] \<or> \<not> length fl < max_send_wr then (q, Inr (todo, n, fl))
      else let chain_len = min (min max_wr_chain_ops (max_send_wr - length fl)) (length todo) in
        case post_rdma_wr_chain dev q (take chain_len todo) n op of
          (q', Inl e) \<Rightarrow> (q', Inl e)
        | (q', Inr posted) \<Rightarrow>
            if posted = 0 then (q', Inr (todo, n, fl))
            else let (n', fl') = track (take posted todo) n fl in post_loop dev op q' (drop posted todo) n' fl')"
  by auto
termination
  by (relation "measure (\<lambda>(dev, op, q, todo, n, fl). length todo)") auto

declare post_loop.simps [simp del]

definition completion_error :: "u32 \<Rightarrow> completion \<Rightarrow> transfer_error" where
  "completion_error qpn c = Backend (''send completion failed: local_qpn='' @ show_nat (unat qpn) @ '', status='' @
     show_nat (unat (wc_status c)) @ '', opcode='' @ show_nat (unat (wc_opcode c)) @ '', vendor_err='' @ show_nat (unat (wc_vendor c)))"

fun complete_loop :: "u32 \<Rightarrow> completion list \<Rightarrow> inflight \<Rightarrow> u64 \<Rightarrow> (inflight \<times> u64) tres" where
  "complete_loop qpn [] fl transferred = Inr (fl, transferred)"
| "complete_loop qpn (c # cs) fl transferred = (case bt_get fl (wc_number c) of
      None \<Rightarrow> complete_loop qpn cs fl transferred
    | Some bytes \<Rightarrow>
        if wc_status c \<noteq> 0 then Inl (completion_error qpn c)
        else complete_loop qpn cs (bt_remove fl (wc_number c)) (saturating_add transferred bytes))"

definition poll_once :: "'q rc_dev \<Rightarrow> u32 \<Rightarrow> 'q \<Rightarrow> inflight \<Rightarrow> u64 \<Rightarrow> 'q \<times> (inflight \<times> u64) tres" where
  "poll_once dev qpn q fl transferred = (case dev_poll dev q of
      (q', Polled cs) \<Rightarrow> (q', complete_loop qpn cs fl transferred)
    | (q', PollEmpty) \<Rightarrow> (q', Inr (fl, transferred))
    | (q', PollError e) \<Rightarrow> (q', Inl (Backend (''poll send CQ failed: local_qpn='' @ show_nat (unat qpn) @ '', '' @ e))))"

text \<open>\<open>None\<close>: the loop is still waiting after \<open>fuel\<close> polls.\<close>

fun exec_loop ::
    "nat \<Rightarrow> 'q rc_dev \<Rightarrow> u32 \<Rightarrow> transfer_op \<Rightarrow> 'q \<Rightarrow> rdma_op list \<Rightarrow> u64 \<Rightarrow> inflight \<Rightarrow> u64 \<Rightarrow> ('q \<times> u64 tres) option" where
  "exec_loop fuel dev qpn op q todo n fl transferred =
     (if todo = [] \<and> fl = [] then Some (q, Inr transferred)
      else case fuel of
          0 \<Rightarrow> None
        | Suc fuel \<Rightarrow> (case post_loop dev op q todo n fl of
            (q1, Inl e) \<Rightarrow> Some (q1, Inl e)
          | (q1, Inr (todo', n', fl')) \<Rightarrow> (case poll_once dev qpn q1 fl' transferred of
              (q2, Inl e) \<Rightarrow> Some (q2, Inl e)
            | (q2, Inr (fl'', transferred')) \<Rightarrow> exec_loop fuel dev qpn op q2 todo' n' fl'' transferred')))"

declare exec_loop.simps [simp del]

definition execute_batch :: "nat \<Rightarrow> 'q rc_dev \<Rightarrow> u32 \<Rightarrow> 'q \<Rightarrow> rdma_op list \<Rightarrow> transfer_op \<Rightarrow> ('q \<times> u64 tres) option" where
  "execute_batch fuel dev qpn q ops op =
     (if ops = [] then Some (q, Inr 0) else exec_loop fuel dev qpn op q ops 1 [] 0)"

text \<open>
  The worker thread on the commands of its channel; each carries whether the session could
  still be upgraded when it was received. The first that finds the session gone ends it.
\<close>

definition session_invalidated :: "u64 tres" where
  "session_invalidated = Inl (Backend ''session invalidated before batch execution'')"

fun worker_loop :: "nat \<Rightarrow> 'q rc_dev \<Rightarrow> u32 \<Rightarrow> 'q \<Rightarrow> (bool \<times> rdma_op list \<times> transfer_op) list \<Rightarrow> ('q \<times> u64 tres list) option" where
  "worker_loop fuel dev qpn q [] = Some (q, [])"
| "worker_loop fuel dev qpn q ((alive, ops, op) # cmds) =
     (if \<not> alive then Some (q, session_invalidated # map (\<lambda>_. session_invalidated) cmds)
      else do {
        (q1, r) \<leftarrow> execute_batch fuel dev qpn q ops op;
        (q2, rs) \<leftarrow> worker_loop fuel dev qpn q1 cmds;
        Some (q2, r # rs)
      })"

lemma worker_replies: "worker_loop fuel dev qpn q cmds = Some (q', rs) \<Longrightarrow> length rs = length cmds"
  by (induction fuel dev qpn q cmds arbitrary: q' rs rule: worker_loop.induct) (auto simp: bind_eq_Some_conv split: if_splits)

section \<open>A queue pair that works\<close>

text \<open>
  What the verbs document of a healthy reliable connection: a chain that fits the send queue
  is accepted and sent in order, completions arrive in that order and report success, and a
  request that was posted completes after finitely many empty polls. \<open>out\<close> are the numbers of
  the outstanding requests, \<open>sent\<close> all requests so far, \<open>wait\<close> bounds the empty polls.
\<close>

definition dev_ok :: "'q rc_dev \<Rightarrow> ('q \<Rightarrow> u64 list) \<Rightarrow> ('q \<Rightarrow> work_request list) \<Rightarrow> ('q \<Rightarrow> nat) \<Rightarrow> bool" where
  "dev_ok dev out sent wait \<longleftrightarrow>
     (\<forall>q wrs. length (out q) + length wrs \<le> max_send_wr \<longrightarrow> (\<exists>q'. dev_post dev q wrs = (q', None) \<and>
        out q' = out q @ map wr_number wrs \<and> sent q' = sent q @ wrs)) \<and>
     (\<forall>q. \<exists>q' r. dev_poll dev q = (q', r) \<and> sent q' = sent q \<and> (case r of
        PollError _ \<Rightarrow> False
      | PollEmpty \<Rightarrow> out q' = out q \<and> (out q \<noteq> [] \<longrightarrow> wait q' < wait q)
      | Polled cs \<Rightarrow> out q = map wc_number cs @ out q' \<and> (\<forall>c \<in> set cs. wc_status c = 0) \<and>
          (cs = [] \<longrightarrow> out q \<noteq> [] \<longrightarrow> wait q' < wait q)))"

text \<open>The requests of a list of operations, and their numbers with the lengths.\<close>

fun chain_wrs :: "transfer_op \<Rightarrow> u64 \<Rightarrow> rdma_op list \<Rightarrow> work_request list" where
  "chain_wrs op n [] = []"
| "chain_wrs op n (r # rs) = construct_wr n op r # chain_wrs op (n + 1) rs"

fun numbered :: "u64 \<Rightarrow> rdma_op list \<Rightarrow> (u64 \<times> u64) list" where
  "numbered n [] = []"
| "numbered n (r # rs) = (n, ro_len r) # numbered (n + 1) rs"

definition sge_ok :: "rdma_op \<Rightarrow> bool" where
  "sge_ok r \<longleftrightarrow> ro_len r \<le> 0xFFFFFFFF"

lemma length_chain_wrs [simp]: "length (chain_wrs op n rs) = length rs"
  by (induction rs arbitrary: n) simp_all

lemma length_numbered [simp]: "length (numbered n rs) = length rs"
  by (induction rs arbitrary: n) simp_all

lemma chain_wrs_append: "chain_wrs op n (rs @ ss) = chain_wrs op n rs @ chain_wrs op (n + word_of_nat (length rs)) ss"
  by (induction rs arbitrary: n) (simp_all add: add.assoc)

lemma numbered_append: "numbered n (rs @ ss) = numbered n rs @ numbered (n + word_of_nat (length rs)) ss"
  by (induction rs arbitrary: n) (simp_all add: add.assoc)

lemma chain_numbers: "map wr_number (chain_wrs op n rs) = map fst (numbered n rs)"
  by (induction rs arbitrary: n) (simp_all add: construct_wr_def)

lemma numbered_keys: "map fst (numbered n rs) = map (\<lambda>i. n + word_of_nat i) [0..<length rs]"
  by (induction rs arbitrary: n) (simp_all add: upt_conv_Cons map_Suc_upt[symmetric] add.assoc del: upt_Suc)

lemma numbered_distinct: "length rs \<le> 2 ^ 64 \<Longrightarrow> distinct (map fst (numbered n rs))"
  unfolding numbered_keys by (auto simp: distinct_map intro!: inj_onI intro: addr_inj)

lemma construct_chain_ok: "\<forall>r \<in> set rs. sge_ok r \<Longrightarrow> construct_chain rs n op = Inr (chain_wrs op n rs)"
  by (induction rs arbitrary: n) (auto simp: sge_ok_def)

lemma post_chain_ok:
  assumes "dev_ok dev out sent wait" "rs \<noteq> []" "\<forall>r \<in> set rs. sge_ok r" "length (out q) + length rs \<le> max_send_wr"
  shows "\<exists>q'. post_rdma_wr_chain dev q rs n op = (q', Inr (length rs)) \<and> out q' = out q @ map fst (numbered n rs) \<and>
    sent q' = sent q @ chain_wrs op n rs"
proof -
  obtain q' where "dev_post dev q (chain_wrs op n rs) = (q', None)" "out q' = out q @ map wr_number (chain_wrs op n rs)"
    "sent q' = sent q @ chain_wrs op n rs"
    using assms(1,4) unfolding dev_ok_def by (metis length_chain_wrs)
  with assms(2,3) show ?thesis by (simp add: post_rdma_wr_chain_def construct_chain_ok chain_numbers)
qed

lemma track_effect:
  "track rs n fl = (n', fl') \<Longrightarrow> bt_inv fl \<Longrightarrow> length rs \<le> 2 ^ 64 \<Longrightarrow> n' = n + word_of_nat (length rs) \<and> bt_inv fl' \<and>
   bt_get fl' = bt_get fl ++ map_of (numbered n rs)"
proof (induction rs arbitrary: n fl)
  case (Cons r rs)
  have d: "map_of (numbered (n + 1) rs) n = None"
    using numbered_distinct[OF Cons.prems(3), of n] by (simp add: map_of_eq_None_iff)
  have "bt_inv (bt_insert fl n (ro_len r))" using Cons.prems(2) by (simp add: bt.inv_insert)
  from Cons.IH[OF _ this, of "n + 1"] Cons.prems(1,3) d show ?case
    by (auto simp: add.assoc map_add_def fun_eq_iff split: option.splits)
qed simp

text \<open>The requests in flight are those of the operations \<open>infl\<close>, numbered from \<open>a\<close>.\<close>

definition flying :: "('q \<Rightarrow> u64 list) \<Rightarrow> 'q \<Rightarrow> u64 \<Rightarrow> inflight \<Rightarrow> u64 \<Rightarrow> rdma_op list \<Rightarrow> bool" where
  "flying out q n fl a infl \<longleftrightarrow> bt_inv fl \<and> bt_get fl = map_of (numbered a infl) \<and> out q = map fst (numbered a infl) \<and>
     n = a + word_of_nat (length infl) \<and> length infl \<le> max_send_wr"

lemma bt_length: "bt_inv t \<Longrightarrow> length t = card (dom (bt_get t))"
  using distinct_card[of "map fst t"]
  by (simp add: bt_inv_def bt_get_map_of[abs_def] dom_map_of_conv_image_fst strict_sorted_iff)

lemma flying_length:
  assumes "flying out q n fl a infl"
  shows "length fl = length infl" "length (out q) = length infl" "fl = [] \<longleftrightarrow> infl = []"
proof -
  have d: "distinct (map fst (numbered a infl))"
    using assms by (intro numbered_distinct) (simp add: flying_def max_send_wr_def)
  have "length fl = card (dom (map_of (numbered a infl)))" using assms bt_length[of fl] by (simp add: flying_def)
  also have "\<dots> = length infl"
    using distinct_card[OF d] by (simp add: dom_map_of_conv_image_fst)
  finally show len: "length fl = length infl" .
  then show "fl = [] \<longleftrightarrow> infl = []" by (metis length_0_conv)
  show "length (out q) = length infl" using assms by (simp add: flying_def)
qed

lemma post_loop_effect:
  assumes "dev_ok dev out sent wait" "flying out q n fl a infl" "\<forall>r \<in> set todo. sge_ok r"
  defines "k \<equiv> min (length todo) (max_send_wr - length infl)"
  shows "\<exists>q' fl'. post_loop dev op q todo n fl = (q', Inr (drop k todo, n + word_of_nat k, fl')) \<and>
    flying out q' (n + word_of_nat k) fl' a (infl @ take k todo) \<and> sent q' = sent q @ chain_wrs op n (take k todo) \<and> (k = 0 \<longrightarrow> q' = q)"
  using assms(1-3) unfolding k_def
proof (induction dev op q todo n fl arbitrary: infl rule: post_loop.induct)
  case (1 dev op q todo n fl)
  note len = flying_length[OF "1.prems"(2)]
  show ?case
  proof (cases "todo = [] \<or> \<not> length fl < max_send_wr")
    case True
    with len "1.prems"(2) show ?thesis by (subst post_loop.simps) (auto simp: flying_def)
  next
    case False
    define j where "j = min (min max_wr_chain_ops (max_send_wr - length fl)) (length todo)"
    have j: "0 < j" "j \<le> length todo" "length infl + j \<le> max_send_wr"
      using False len(1) by (auto simp: j_def max_wr_chain_ops_def)
    let ?chain = "take j todo"
    have c: "length ?chain = j" "?chain \<noteq> []" using j by auto
    obtain q1 where p: "post_rdma_wr_chain dev q ?chain n op = (q1, Inr j)" "out q1 = out q @ map fst (numbered n ?chain)"
      "sent q1 = sent q @ chain_wrs op n ?chain"
      using post_chain_ok[OF "1.prems"(1) c(2), of q n op] "1.prems"(3) c(1) j(3) len(2)
      by (auto dest: in_set_takeD)
    obtain n1 fl1 where t: "track ?chain n fl = (n1, fl1)" by fastforce
    have nn: "n = a + word_of_nat (length infl)" using "1.prems"(2) by (simp add: flying_def)
    have fly: "flying out q1 n1 fl1 a (infl @ ?chain)"
    proof -
      have tr: "n1 = n + word_of_nat j" "bt_inv fl1" "bt_get fl1 = bt_get fl ++ map_of (numbered n ?chain)"
        using track_effect[OF t] "1.prems"(2) c(1) j(3) by (auto simp: flying_def max_send_wr_def)
      have "distinct (map fst (numbered a (infl @ ?chain)))"
        using j(3) c(1) by (intro numbered_distinct) (simp add: max_send_wr_def)
      then have d: "distinct (map fst (numbered a infl @ numbered n ?chain))" by (simp add: numbered_append nn)
      have "map_of (numbered a infl) ++ map_of (numbered n ?chain) = map_of (numbered a infl @ numbered n ?chain)"
        using d map_add_comm[of "map_of (numbered a infl)" "map_of (numbered n ?chain)"]
        by (simp add: dom_map_of_conv_image_fst)
      then show ?thesis
        using tr p(2) "1.prems"(2) c(1) j(3) by (auto simp: flying_def numbered_append nn add.assoc)
    qed
    have unfold: "post_loop dev op q todo n fl = post_loop dev op q1 (drop j todo) n1 fl1"
      using False p(1) t j(1) by (subst post_loop.simps) (simp add: j_def[symmetric] Let_def)
    let ?k = "min (length (drop j todo)) (max_send_wr - length (infl @ ?chain))"
    have "\<exists>q' fl'. post_loop dev op q1 (drop j todo) n1 fl1 = (q', Inr (drop ?k (drop j todo), n1 + word_of_nat ?k, fl')) \<and>
      flying out q' (n1 + word_of_nat ?k) fl' a ((infl @ ?chain) @ take ?k (drop j todo)) \<and>
      sent q' = sent q1 @ chain_wrs op n1 (take ?k (drop j todo)) \<and> (?k = 0 \<longrightarrow> q' = q1)"
      using "1.IH"[OF False j_def p(1)[symmetric] refl _ t[symmetric] refl "1.prems"(1) fly] j(1) "1.prems"(3)
      by (auto dest: in_set_dropD)
    then obtain q' fl' where r: "post_loop dev op q1 (drop j todo) n1 fl1 = (q', Inr (drop ?k (drop j todo), n1 + word_of_nat ?k, fl'))"
      "flying out q' (n1 + word_of_nat ?k) fl' a ((infl @ ?chain) @ take ?k (drop j todo))"
      "sent q' = sent q1 @ chain_wrs op n1 (take ?k (drop j todo))" by blast
    define K where "K = min (length todo) (max_send_wr - length infl)"
    define k' where "k' = ?k"
    note r = r[folded k'_def]
    have K: "K = j + k'" using j c(1) by (auto simp: K_def k'_def)
    have n1: "n1 = n + word_of_nat j" using track_effect[OF t] "1.prems"(2) c(1) j(3) by (auto simp: flying_def max_send_wr_def)
    have "take K todo = ?chain @ take k' (drop j todo)" "drop K todo = drop k' (drop j todo)"
      unfolding K by (simp_all add: take_add add.commute)
    moreover have "n1 + word_of_nat k' = n + word_of_nat K" unfolding K n1 by (simp add: add.assoc)
    moreover have "K \<noteq> 0" unfolding K using j(1) by simp
    ultimately show ?thesis
      unfolding K_def[symmetric] using r p(3) unfold c(1) by (simp add: chain_wrs_append n1[symmetric])
  qed
qed

lemma complete_loop_effect:
  assumes "map wc_number cs = map fst (numbered a (take (length cs) infl))" "length cs \<le> length infl" "length infl \<le> 2 ^ 64"
    and "\<forall>c \<in> set cs. wc_status c = 0" "bt_inv fl" "bt_get fl = map_of (numbered a infl)"
    and "unat tr + sum_list (map (unat \<circ> ro_len) (take (length cs) infl)) < 2 ^ 64"
  shows "\<exists>fl' tr'. complete_loop qpn cs fl tr = Inr (fl', tr') \<and> bt_inv fl' \<and>
    bt_get fl' = map_of (numbered (a + word_of_nat (length cs)) (drop (length cs) infl)) \<and>
    unat tr' = unat tr + sum_list (map (unat \<circ> ro_len) (take (length cs) infl))"
  using assms
proof (induction cs arbitrary: a infl fl tr)
  case (Cons c cs)
  then obtain r rs where infl: "infl = r # rs" by (cases infl) auto
  have num: "wc_number c = a" "map wc_number cs = map fst (numbered (a + 1) (take (length cs) rs))"
    using Cons.prems(1) by (simp_all add: infl)
  have d: "distinct (map fst (numbered a infl))" by (rule numbered_distinct[OF Cons.prems(3)])
  then have none: "map_of (numbered (a + 1) rs) a = None" by (simp add: infl map_of_eq_None_iff)
  have inv: "bt_inv (bt_remove fl a)" using Cons.prems(5) by (simp add: bt.inv_remove)
  have get: "bt_get (bt_remove fl a) = map_of (numbered (a + 1) rs)"
    using Cons.prems(5,6) none by (auto simp: bt.get_remove infl fun_eq_iff)
  have le: "unat tr + unat (ro_len r) < 2 ^ 64" using Cons.prems(7) by (simp add: infl)
  then have add: "unat (saturating_add tr (ro_len r)) = unat tr + unat (ro_len r)" by (simp add: unat_saturating_add)
  have "\<exists>fl' tr'. complete_loop qpn cs (bt_remove fl a) (saturating_add tr (ro_len r)) = Inr (fl', tr') \<and> bt_inv fl' \<and>
    bt_get fl' = map_of (numbered (a + 1 + word_of_nat (length cs)) (drop (length cs) rs)) \<and>
    unat tr' = unat (saturating_add tr (ro_len r)) + sum_list (map (unat \<circ> ro_len) (take (length cs) rs))"
    using Cons.prems(2,3,4,7) by (intro Cons.IH[OF num(2) _ _ _ inv get]) (simp_all add: infl add)
  then obtain fl' tr' where ih: "complete_loop qpn cs (bt_remove fl a) (saturating_add tr (ro_len r)) = Inr (fl', tr')" "bt_inv fl'"
    "bt_get fl' = map_of (numbered (a + 1 + word_of_nat (length cs)) (drop (length cs) rs))"
    "unat tr' = unat tr + unat (ro_len r) + sum_list (map (unat \<circ> ro_len) (take (length cs) rs))"
    unfolding add by blast
  have "bt_get fl (wc_number c) = Some (ro_len r)" using Cons.prems(6) num(1) by (simp add: infl)
  then have "complete_loop qpn (c # cs) fl tr = Inr (fl', tr')" using Cons.prems(4) num(1) ih(1) by simp
  with ih(2-4) show ?case by (simp add: infl add.assoc comp_def)
qed simp

definition op_bytes :: "rdma_op list \<Rightarrow> nat" where
  "op_bytes rs = sum_list (map (unat \<circ> ro_len) rs)"

lemma op_bytes_simps [simp]: "op_bytes [] = 0" "op_bytes (r # rs) = unat (ro_len r) + op_bytes rs" "op_bytes (rs @ ss) = op_bytes rs + op_bytes ss"
  by (simp_all add: op_bytes_def)

text \<open>One poll of a working queue pair completes the first \<open>j\<close> requests in flight.\<close>

lemma poll_effect:
  assumes "dev_ok dev out sent wait" "flying out q n fl a infl" "unat tr + op_bytes infl < 2 ^ 64"
  shows "\<exists>q' j fl' tr'. poll_once dev qpn q fl tr = (q', Inr (fl', tr')) \<and> j \<le> length infl \<and>
    flying out q' n fl' (a + word_of_nat j) (drop j infl) \<and> sent q' = sent q \<and> unat tr' = unat tr + op_bytes (take j infl) \<and>
    (j = 0 \<longrightarrow> infl \<noteq> [] \<longrightarrow> wait q' < wait q)"
proof -
  obtain q' r where p: "dev_poll dev q = (q', r)" "sent q' = sent q" "case r of
        PollError _ \<Rightarrow> False
      | PollEmpty \<Rightarrow> out q' = out q \<and> (out q \<noteq> [] \<longrightarrow> wait q' < wait q)
      | Polled cs \<Rightarrow> out q = map wc_number cs @ out q' \<and> (\<forall>c \<in> set cs. wc_status c = 0) \<and>
          (cs = [] \<longrightarrow> out q \<noteq> [] \<longrightarrow> wait q' < wait q)"
    using assms(1) unfolding dev_ok_def by meson
  have out: "out q = map fst (numbered a infl)" "out q \<noteq> [] \<longleftrightarrow> infl \<noteq> []"
    using assms(2) flying_length(2)[OF assms(2)] by (simp add: flying_def, metis length_0_conv)
  show ?thesis
  proof (cases r)
    case (Polled cs)
    let ?j = "length cs"
    have cs: "map fst (numbered a infl) = map wc_number cs @ out q'" "\<forall>c \<in> set cs. wc_status c = 0"
      using p(3) Polled out(1) by auto
    then have j: "?j \<le> length infl" by (metis length_append length_map length_numbered le_add1)
    have split: "numbered a infl = numbered a (take ?j infl) @ numbered (a + word_of_nat ?j) (drop ?j infl)"
      using numbered_append[of a "take ?j infl" "drop ?j infl"] j by simp
    then have keys: "map wc_number cs = map fst (numbered a (take ?j infl))" "out q' = map fst (numbered (a + word_of_nat ?j) (drop ?j infl))"
      using cs(1) j by (simp_all add: append_eq_append_conv)
    have "op_bytes (take ?j infl) \<le> op_bytes infl" by (metis append_take_drop_id le_add1 op_bytes_simps(3))
    then have sum: "unat tr + sum_list (map (unat \<circ> ro_len) (take ?j infl)) < 2 ^ 64"
      using assms(3) by (simp add: op_bytes_def)
    have fl: "bt_inv fl" "bt_get fl = map_of (numbered a infl)" "length infl \<le> 2 ^ 64" "n = a + word_of_nat (length infl)"
      using assms(2) by (simp_all add: flying_def max_send_wr_def)
    obtain fl' tr' where c: "complete_loop qpn cs fl tr = Inr (fl', tr')" "bt_inv fl'"
      "bt_get fl' = map_of (numbered (a + word_of_nat ?j) (drop ?j infl))"
      "unat tr' = unat tr + sum_list (map (unat \<circ> ro_len) (take ?j infl))"
      using complete_loop_effect[OF keys(1) j fl(3) cs(2) fl(1,2) sum] by blast
    have "n = a + word_of_nat ?j + word_of_nat (length (drop ?j infl))"
      using fl(4) j by (simp add: of_nat_diff)
    then have "flying out q' n fl' (a + word_of_nat ?j) (drop ?j infl)"
      using c(2,3) keys(2) assms(2) j unfolding flying_def by auto
    moreover have "?j = 0 \<longrightarrow> infl \<noteq> [] \<longrightarrow> wait q' < wait q" using p(3) Polled out(2) by simp
    moreover have "poll_once dev qpn q fl tr = (q', Inr (fl', tr'))" using p(1) Polled c(1) by (simp add: poll_once_def)
    ultimately show ?thesis using p(2) j c(4) by (auto simp: op_bytes_def)
  next
    case PollEmpty
    then have "flying out q' n fl a infl" using p(3) assms(2) by (simp add: flying_def)
    with PollEmpty p out(2) show ?thesis
      by (intro exI[of _ q'] exI[of _ 0] exI[of _ fl] exI[of _ tr]) (simp add: poll_once_def)
  next
    case (PollError e)
    with p(3) show ?thesis by simp
  qed
qed

lemma exec_loop_returns:
  assumes "dev_ok dev out sent wait"
  shows "mm = (length todo, length infl, wait q) \<Longrightarrow> flying out q n fl a infl \<Longrightarrow> \<forall>r \<in> set todo. sge_ok r \<Longrightarrow> unat tr + op_bytes infl + op_bytes todo < 2 ^ 64 \<Longrightarrow>
    \<exists>fuel q' tr'. exec_loop fuel dev qpn op q todo n fl tr = Some (q', Inr tr') \<and> unat tr' = unat tr + op_bytes infl + op_bytes todo \<and>
      out q' = [] \<and> sent q' = sent q @ chain_wrs op n todo"
proof (induction mm arbitrary: q n fl a infl todo tr
    rule: wf_induct_rule[OF wf_lex_prod[OF wf_less_than wf_lex_prod[OF wf_less_than wf_less_than]]])
  case (1 mm q n fl a infl todo tr)
  show ?case
  proof (cases "todo = [] \<and> fl = []")
    case True
    with flying_length[OF "1.prems"(2)] have "infl = []" "out q = []" by auto
    with True show ?thesis by (intro exI[of _ 0] exI[of _ q] exI[of _ tr]) (simp add: exec_loop.simps)
  next
    case False
    let ?k = "min (length todo) (max_send_wr - length infl)"
    obtain q1 fl1 where p: "post_loop dev op q todo n fl = (q1, Inr (drop ?k todo, n + word_of_nat ?k, fl1))"
      "flying out q1 (n + word_of_nat ?k) fl1 a (infl @ take ?k todo)" "sent q1 = sent q @ chain_wrs op n (take ?k todo)" "?k = 0 \<longrightarrow> q1 = q"
      using post_loop_effect[OF assms "1.prems"(2,3)] by blast
    define k where "k = ?k"
    note p = p[folded k_def]
    have bytes: "op_bytes (take k todo) + op_bytes (drop k todo) = op_bytes todo"
      by (metis append_take_drop_id op_bytes_simps(3))
    then have sum: "unat tr + op_bytes (infl @ take k todo) < 2 ^ 64" using "1.prems"(4) by simp
    obtain q2 j fl2 tr2 where r: "poll_once dev qpn q1 fl1 tr = (q2, Inr (fl2, tr2))" "j \<le> length (infl @ take k todo)"
      "flying out q2 (n + word_of_nat k) fl2 (a + word_of_nat j) (drop j (infl @ take k todo))" "sent q2 = sent q1"
      "unat tr2 = unat tr + op_bytes (take j (infl @ take k todo))"
      "j = 0 \<longrightarrow> infl @ take k todo \<noteq> [] \<longrightarrow> wait q2 < wait q1"
      using poll_effect[OF assms p(2) sum, of qpn] by blast
    define fly where "fly = infl @ take k todo"
    have ne: "fly \<noteq> []"
      using False flying_length[OF "1.prems"(2)] "1.prems"(2) by (auto simp: fly_def k_def flying_def max_send_wr_def)
    have fb: "op_bytes (take j fly) + op_bytes (drop j fly) = op_bytes fly" by (metis append_take_drop_id op_bytes_simps(3))
    have klen: "k \<le> length todo" by (simp add: k_def)
    have k0: "q1 = q" if "k = 0" using p(4) that by simp
    have less: "((length (drop k todo), length (drop j fly), wait q2), mm) \<in> less_than <*lex*> less_than <*lex*> less_than"
      unfolding "1.prems"(1) using r(6) ne k0 klen by (cases "k = 0"; cases "j = 0") (auto simp: fly_def)
    have "\<exists>fuel q' tr'. exec_loop fuel dev qpn op q2 (drop k todo) (n + word_of_nat k) fl2 tr2 = Some (q', Inr tr') \<and>
        unat tr' = unat tr2 + op_bytes (drop j fly) + op_bytes (drop k todo) \<and> out q' = [] \<and>
        sent q' = sent q2 @ chain_wrs op (n + word_of_nat k) (drop k todo)"
    proof (rule "1.IH"[OF less refl])
      show "flying out q2 (n + word_of_nat k) fl2 (a + word_of_nat j) (drop j fly)" using r(3) by (simp add: fly_def)
      show "\<forall>r \<in> set (drop k todo). sge_ok r" using "1.prems"(3) by (auto dest: in_set_dropD)
      show "unat tr2 + op_bytes (drop j fly) + op_bytes (drop k todo) < 2 ^ 64"
        using r(5) fb bytes "1.prems"(4) by (simp add: fly_def)
    qed
    then obtain fuel q' tr' where e: "exec_loop fuel dev qpn op q2 (drop k todo) (n + word_of_nat k) fl2 tr2 = Some (q', Inr tr')"
      "unat tr' = unat tr2 + op_bytes (drop j fly) + op_bytes (drop k todo)" "out q' = []"
      "sent q' = sent q2 @ chain_wrs op (n + word_of_nat k) (drop k todo)" by blast
    have "exec_loop (Suc fuel) dev qpn op q todo n fl tr = Some (q', Inr tr')"
      using False p(1) r(1) e(1) by (subst exec_loop.simps) auto
    moreover have "sent q' = sent q @ chain_wrs op n todo"
      using e(4) r(4) p(3) chain_wrs_append[of op n "take k todo" "drop k todo"] klen by simp
    moreover have "unat tr' = unat tr + op_bytes infl + op_bytes todo"
      using e(2) r(5) fb bytes by (simp add: fly_def)
    ultimately show ?thesis using e(3) by blast
  qed
qed

section \<open>Properties\<close>

text \<open>
  C9. A batch on a working queue pair returns, with the number of bytes of the batch; every
  operation has been posted exactly once, in order, and the send queue never held more than
  the requests it was created for, for batches of any length.
\<close>

theorem execute_batch_delivers:
  assumes "dev_ok dev out sent wait" "out q = []" "\<forall>r \<in> set ops. sge_ok r" "op_bytes ops < 2 ^ 64"
  shows "\<exists>fuel q' n. execute_batch fuel dev qpn q ops op = Some (q', Inr n) \<and> unat n = op_bytes ops \<and>
    out q' = [] \<and> sent q' = sent q @ chain_wrs op 1 ops"
proof (cases "ops = []")
  case True
  with assms(2) show ?thesis by (simp add: execute_batch_def)
next
  case False
  have "flying out q 1 [] 1 []" using assms(2) by (simp add: flying_def bt_inv_def fun_eq_iff)
  from exec_loop_returns[OF assms(1) refl this assms(3), of 0 qpn op] assms(4) False show ?thesis
    by (simp add: execute_batch_def)
qed

text \<open>A queue pair that completes one request per poll, in order.\<close>

definition step_dev :: "(u64 list \<times> work_request list) rc_dev" where
  "step_dev = \<lparr>dev_post = (\<lambda>(ids, wrs) chain. ((ids @ map wr_number chain, wrs @ chain), None)),
     dev_poll = (\<lambda>(ids, wrs). case ids of [] \<Rightarrow> ((ids, wrs), PollEmpty)
       | i # rest \<Rightarrow> ((rest, wrs), Polled [\<lparr>wc_number = i, wc_status = 0, wc_opcode = 0, wc_vendor = 0\<rparr>]))\<rparr>"

lemma step_dev_ok: "dev_ok step_dev fst snd (\<lambda>_. 0)"
  unfolding dev_ok_def
proof (intro conjI allI impI)
  fix q :: "u64 list \<times> work_request list"
  show "\<exists>q' r. dev_poll step_dev q = (q', r) \<and> snd q' = snd q \<and> (case r of
        PollError _ \<Rightarrow> False
      | PollEmpty \<Rightarrow> fst q' = fst q \<and> (fst q \<noteq> [] \<longrightarrow> 0 < (0 :: nat))
      | Polled cs \<Rightarrow> fst q = map wc_number cs @ fst q' \<and> (\<forall>c \<in> set cs. wc_status c = 0) \<and>
          (cs = [] \<longrightarrow> fst q \<noteq> [] \<longrightarrow> 0 < (0 :: nat)))"
    by (cases q; cases "fst q") (auto simp: step_dev_def)
qed (auto simp: step_dev_def)

definition rdma_op_of :: "u64 \<Rightarrow> u64 \<Rightarrow> rdma_op" where
  "rdma_op_of remote len = \<lparr>ro_mr = \<lparr>vm_lkey = 1, vm_rkey = 2\<rparr>, ro_local = 4096, ro_remote = remote, ro_len = len, ro_rkey = 3\<rparr>"

theorem execute_batch_delivers_witness:
  "\<exists>fuel q' n. execute_batch fuel step_dev 7 ([], []) [rdma_op_of 0 5, rdma_op_of 8 6] OpRead = Some (q', Inr n) \<and>
     unat n = 11 \<and> map wr_remote (snd q') = [0, 8]"
proof -
  let ?ops = "[rdma_op_of 0 5, rdma_op_of 8 6]"
  have "\<forall>r \<in> set ?ops. sge_ok r" "op_bytes ?ops < 2 ^ 64" "op_bytes ?ops = 11"
    by (simp_all add: sge_ok_def rdma_op_of_def)
  from execute_batch_delivers[OF step_dev_ok _ this(1,2), of "([], [])" 7 OpRead] this(3) obtain fuel q' n where
    e: "execute_batch fuel step_dev 7 ([], []) ?ops OpRead = Some (q', Inr n)" "unat n = 11" "snd q' = chain_wrs OpRead 1 ?ops"
    by auto
  then have "map wr_remote (snd q') = [0, 8]" by (simp add: construct_wr_def rdma_op_of_def)
  with e(1,2) show ?thesis by (intro exI[of _ fuel] exI[of _ q'] exI[of _ n]) simp
qed

text \<open>
  A batch that fails after some of its requests were posted leaves them in flight, and the
  next batch numbers its requests from 1 again: here a request that is rejected for its
  length follows four that were posted, and the batch after it reports its read as complete
  on the completion of an old request, while its own is still outstanding.
\<close>

theorem stale_completion_ends_batch:
  "\<exists>q1 q2 e. execute_batch 1 step_dev 7 ([], []) (map (rdma_op_of 0) [1, 1, 1, 1, 0x100000000]) OpRead = Some (q1, Inl e) \<and>
     execute_batch 1 step_dev 7 q1 [rdma_op_of 64 9] OpRead = Some (q2, Inr 9) \<and>
     fst q2 = [2, 3, 4, 1] \<and> wr_number (last (snd q2)) = 1 \<and> wr_remote (last (snd q2)) = 64"
  by (simp add: execute_batch_def exec_loop.simps post_loop.simps post_rdma_wr_chain_def max_send_wr_def max_wr_chain_ops_def
      step_dev_def rdma_op_of_def construct_wr_def poll_once_def saturating_add_def)

end
