(* ===== verification/Pega_Rdma_Batch.thy ===== *)
theory Pega_Rdma_Batch
  imports Pega_Rdma_Session "HOL-Library.Multiset"
begin

text \<open>
  Which NIC and which queue pair carry a transfer (\<open>rc_backend/mod.rs\<close>): the round robin over
  the NICs of a NUMA node, the resolution of the descriptors of a batch, and the spreading of
  the operations over the queue pairs of a connection. A session is its number on its NIC.
\<close>

section \<open>Round robin\<close>

record nic_group =
  ng_indices :: "nat list"
  ng_counter :: u64

definition nic_next :: "nic_group \<Rightarrow> (nic_group \<times> nat) outcome" where
  "nic_next g = (if ng_indices g = [] then panic
     else Some (g\<lparr>ng_counter := ng_counter g + 1\<rparr>, ng_indices g ! (unat (ng_counter g) mod length (ng_indices g))))"

record numa_rr =
  rr_groups :: "numa_node \<rightharpoonup> nic_group"
  rr_fallback :: nic_group

definition push_index :: "nat \<times> numa_node \<Rightarrow> (numa_node \<rightharpoonup> nat list) \<Rightarrow> (numa_node \<rightharpoonup> nat list)" where
  "push_index = (\<lambda>(i, node) m. if is_valid node
     then m(node \<mapsto> (case m node of None \<Rightarrow> [] | Some is \<Rightarrow> is) @ [i]) else m)"

text \<open>The argument is the NUMA nodes of the NICs.\<close>

definition rr_from_runtimes :: "numa_node list \<Rightarrow> numa_rr" where
  "rr_from_runtimes nodes = \<lparr>rr_groups = (\<lambda>n. map_option (\<lambda>is. \<lparr>ng_indices = is, ng_counter = 0\<rparr>)
       (fold push_index (enumerate 0 nodes) Map.empty n)),
     rr_fallback = \<lparr>ng_indices = [0..<length nodes], ng_counter = 0\<rparr>\<rparr>"

definition rr_pick :: "numa_node \<Rightarrow> numa_rr \<Rightarrow> (numa_rr \<times> nat) outcome" where
  "rr_pick numa rr = (case (if is_valid numa then rr_groups rr numa else None) of
      Some g \<Rightarrow> do {
        (g', i) \<leftarrow> nic_next g;
        Some (rr\<lparr>rr_groups := (rr_groups rr)(numa \<mapsto> g')\<rparr>, i)
      }
    | None \<Rightarrow> do {
        (g', i) \<leftarrow> nic_next (rr_fallback rr);
        Some (rr\<lparr>rr_fallback := g'\<rparr>, i)
      })"

section \<open>Resolution\<close>

record transfer_desc =
  td_local :: u64
  td_remote :: u64
  td_len :: u64
  td_region :: region_desc

definition resolve_desc :: "local_map \<Rightarrow> transfer_desc \<Rightarrow> numa_rr \<Rightarrow> (numa_rr \<times> (nat \<times> rdma_op) tres) outcome" where
  "resolve_desc registered d rr =
     (if td_len d = 0 then Some (rr, Inl (InvalidArgument ''len must be non-zero''))
      else do {
        x \<leftarrow> find_entry registered (td_local d) (td_len d);
        case x of
          None \<Rightarrow> Some (rr, Inl (MemoryNotRegistered (td_local d)))
        | Some e \<Rightarrow>
            if \<not> desc_contains (td_region d) (td_remote d) (td_len d)
            then Some (rr, Inl (InvalidArgument ''remote range not covered by its region descriptor''))
            else do {
              (rr', nic) \<leftarrow> rr_pick (me_numa e) rr;
              case index (rd_rkeys (td_region d)) nic of
                None \<Rightarrow> Some (rr', Inl (InvalidArgument ''region descriptor has no rkey for paired NIC''))
              | Some rkey \<Rightarrow> do {
                  mr \<leftarrow> index (me_mrs e) nic;
                  Some (rr', Inr (nic, \<lparr>ro_mr = mr, ro_local = td_local d, ro_remote = td_remote d,
                    ro_len = td_len d, ro_rkey = rkey\<rparr>))
                }
            }
      })"

fun resolve_all ::
    "local_map \<Rightarrow> transfer_desc list \<Rightarrow> rdma_op list list \<Rightarrow> numa_rr \<Rightarrow> (numa_rr \<times> rdma_op list list tres) outcome" where
  "resolve_all registered [] per_nic rr = Some (rr, Inr per_nic)"
| "resolve_all registered (d # ds) per_nic rr = do {
     (rr', x) \<leftarrow> resolve_desc registered d rr;
     case x of
       Inl e \<Rightarrow> Some (rr', Inl e)
     | Inr (nic, op) \<Rightarrow> do {
         ops \<leftarrow> index per_nic nic;
         resolve_all registered ds (per_nic[nic := ops @ [op]]) rr'
       }
   }"

section \<open>Spreading\<close>

fun fill_buckets :: "u64 \<Rightarrow> nat \<Rightarrow> rdma_op list \<Rightarrow> rdma_op list list \<Rightarrow> rdma_op list list outcome" where
  "fill_buckets rot i [] buckets = Some buckets"
| "fill_buckets rot i (r # rs) buckets =
     (if buckets = [] then panic
      else let b = unat (rot + word_of_nat i) mod length buckets in
        fill_buckets rot (Suc i) rs (buckets[b := buckets ! b @ [r]]))"

text \<open>The sessions of a NIC and the rotation, the work of that NIC, and what each session gets.\<close>

definition nic_work :: "'s list \<times> u64 \<Rightarrow> rdma_op list \<Rightarrow> ('s \<times> rdma_op list) list outcome" where
  "nic_work sr ops = (if ops = [] then Some []
     else do {
       buckets \<leftarrow> fill_buckets (snd sr) 0 ops (replicate (length (fst sr)) []);
       Some (filter (\<lambda>(_, b). b \<noteq> []) (zip (fst sr) buckets))
     })"

fun spread :: "('s list \<times> u64) list \<Rightarrow> rdma_op list list \<Rightarrow> ('s \<times> rdma_op list) list outcome" where
  "spread conn [] = Some []"
| "spread [] (ops # rest) = (if ops = [] then spread [] rest else panic)"
| "spread (sr # conn) (ops # rest) = do {
     a \<leftarrow> nic_work sr ops;
     b \<leftarrow> spread conn rest;
     Some (a @ b)
   }"

text \<open>Everything of a batch up to the posting: the registrations, the sessions of the connection per NIC.\<close>

definition plan_batch ::
    "nat \<Rightarrow> local_map \<Rightarrow> ('s list \<times> u64) list \<Rightarrow> transfer_desc list \<Rightarrow> numa_rr \<Rightarrow>
     (numa_rr \<times> ('s \<times> rdma_op list) list tres) outcome" where
  "plan_batch nic_count registered conn descs rr =
     (if descs = [] then Some (rr, Inr [])
      else do {
        (rr', x) \<leftarrow> resolve_all registered descs (replicate nic_count []) rr;
        case x of
          Inl e \<Rightarrow> Some (rr', Inl e)
        | Inr per_nic \<Rightarrow> do {
            work \<leftarrow> spread conn per_nic;
            Some (rr', Inr work)
          }
      })"

section \<open>Picking a NIC\<close>

definition nics_on :: "numa_node list \<Rightarrow> numa_node \<Rightarrow> nat list" where
  "nics_on nodes n = filter (\<lambda>i. nodes ! i = n) [0..<length nodes]"

text \<open>The groups are the NICs of each valid node, the fallback is all of them.\<close>

definition rr_ok :: "numa_node list \<Rightarrow> numa_rr \<Rightarrow> bool" where
  "rr_ok nodes rr \<longleftrightarrow> nodes \<noteq> [] \<and> ng_indices (rr_fallback rr) = [0..<length nodes] \<and>
     (\<forall>n. map_option ng_indices (rr_groups rr n) = (if is_valid n \<and> nics_on nodes n \<noteq> [] then Some (nics_on nodes n) else None))"

lemma push_index_fold:
  "fold push_index (enumerate k nodes) m n =
     (let js = map (\<lambda>i. k + i) (nics_on nodes n) in
      if is_valid n \<and> js \<noteq> [] then Some ((case m n of None \<Rightarrow> [] | Some is \<Rightarrow> is) @ js) else m n)"
proof (induction nodes arbitrary: k m)
  case (Cons a nodes)
  have "nics_on (a # nodes) n = (if a = n then [0] else []) @ map Suc (nics_on nodes n)"
    by (simp add: nics_on_def upt_conv_Cons map_Suc_upt[symmetric] filter_map comp_def del: upt_Suc)
  moreover have "enumerate k (a # nodes) = (k, a) # enumerate (Suc k) nodes" by simp
  ultimately show ?case
    using Cons[of "Suc k" "push_index (k, a) m"] by (auto simp: push_index_def Let_def comp_def)
qed (simp add: nics_on_def)

lemma rr_from_ok: "nodes \<noteq> [] \<Longrightarrow> rr_ok nodes (rr_from_runtimes nodes)"
  by (simp add: rr_ok_def rr_from_runtimes_def push_index_fold Let_def option.map_comp comp_def)

definition near :: "numa_node list \<Rightarrow> numa_node \<Rightarrow> nat \<Rightarrow> bool" where
  "near nodes n i \<longleftrightarrow> i < length nodes \<and> (is_valid n \<longrightarrow> n \<in> set nodes \<longrightarrow> nodes ! i = n)"

lemma nic_next_in:
  assumes "ng_indices g \<noteq> []"
  shows "\<exists>g' i. nic_next g = Some (g', i) \<and> i \<in> set (ng_indices g) \<and> ng_indices g' = ng_indices g"
  using assms by (auto simp: nic_next_def)

lemma rr_pick_near:
  assumes "rr_ok nodes rr"
  shows "\<exists>rr' i. rr_pick n rr = Some (rr', i) \<and> near nodes n i \<and> rr_ok nodes rr'"
proof (cases "is_valid n \<and> nics_on nodes n \<noteq> []")
  case True
  then have "map_option ng_indices (rr_groups rr n) = Some (nics_on nodes n)" using assms by (simp add: rr_ok_def)
  then obtain g where g: "rr_groups rr n = Some g" "ng_indices g = nics_on nodes n" by auto
  obtain g' i where p: "nic_next g = Some (g', i)" "i \<in> set (nics_on nodes n)" "ng_indices g' = nics_on nodes n"
    using nic_next_in[of g] g(2) True by auto
  let ?rr = "rr\<lparr>rr_groups := (rr_groups rr)(n \<mapsto> g')\<rparr>"
  have "map_option ng_indices (rr_groups ?rr na) = (if is_valid na \<and> nics_on nodes na \<noteq> [] then Some (nics_on nodes na) else None)" for na
    using assms True p(3) by (cases "na = n") (simp_all add: rr_ok_def)
  then have "rr_ok nodes ?rr" using assms by (simp add: rr_ok_def)
  moreover have "near nodes n i" using p(2) by (simp add: near_def nics_on_def)
  ultimately show ?thesis using True g(1) p(1) by (simp add: rr_pick_def)
next
  case False
  then have "map_option ng_indices (rr_groups rr n) = None" using assms unfolding rr_ok_def by (metis (full_types))
  then have none: "(if is_valid n then rr_groups rr n else None) = None" by simp
  have ne: "ng_indices (rr_fallback rr) \<noteq> []" using assms by (simp add: rr_ok_def)
  obtain g' i where p: "nic_next (rr_fallback rr) = Some (g', i)" "i < length nodes" "ng_indices g' = [0..<length nodes]"
    using nic_next_in[OF ne] assms by (auto simp: rr_ok_def)
  have "n \<notin> set nodes" if "is_valid n" using False that by (auto simp: nics_on_def filter_empty_conv in_set_conv_nth)
  then have "near nodes n i" using p(2) by (auto simp: near_def)
  moreover have "rr_ok nodes (rr\<lparr>rr_fallback := g'\<rparr>)" using assms p(3) by (simp add: rr_ok_def)
  ultimately show ?thesis using p(1) none by (simp add: rr_pick_def)
qed

section \<open>A batch is planned completely\<close>

definition entries_ok :: "nat \<Rightarrow> local_map \<Rightarrow> bool" where
  "entries_ok n m \<longleftrightarrow> map_ok m \<and> (\<forall>k e. bt_get m k = Some e \<longrightarrow> length (me_mrs e) = n)"

text \<open>The operation that carries out a descriptor on a NIC.\<close>

definition serves :: "numa_node list \<Rightarrow> local_map \<Rightarrow> transfer_desc \<Rightarrow> nat \<times> rdma_op \<Rightarrow> bool" where
  "serves nodes m d a \<longleftrightarrow> (\<exists>e. bt_get m (me_base e) = Some e \<and> range_of (td_local d) (td_len d) \<subseteq> entry_range e \<and>
     desc_contains (td_region d) (td_remote d) (td_len d) \<and> near nodes (me_numa e) (fst a) \<and> fst a < length (rd_rkeys (td_region d)) \<and>
     snd a = \<lparr>ro_mr = me_mrs e ! fst a, ro_local = td_local d, ro_remote = td_remote d, ro_len = td_len d,
       ro_rkey = rd_rkeys (td_region d) ! fst a\<rparr>)"

definition unservable :: "nat \<Rightarrow> local_map \<Rightarrow> transfer_desc \<Rightarrow> bool" where
  "unservable n m d \<longleftrightarrow> td_len d = 0 \<or> (\<forall>e. bt_get m (me_base e) = Some e \<longrightarrow> \<not> range_of (td_local d) (td_len d) \<subseteq> entry_range e) \<or>
     \<not> desc_contains (td_region d) (td_remote d) (td_len d) \<or> length (rd_rkeys (td_region d)) < n"

lemma resolve_desc_effect:
  assumes "entries_ok (length nodes) m" "rr_ok nodes rr"
  shows "\<exists>rr' x. resolve_desc m d rr = Some (rr', x) \<and> rr_ok nodes rr' \<and>
    (case x of Inl _ \<Rightarrow> unservable (length nodes) m d | Inr a \<Rightarrow> serves nodes m d a)"
proof (cases "td_len d = 0")
  case True
  with assms(2) show ?thesis by (simp add: resolve_desc_def unservable_def)
next
  case False
  have ok: "map_ok m" using assms(1) by (simp add: entries_ok_def)
  obtain y where y: "find_entry m (td_local d) (td_len d) = Some y"
    "\<forall>e. y = Some e \<longleftrightarrow> bt_get m (me_base e) = Some e \<and> range_of (td_local d) (td_len d) \<subseteq> entry_range e"
    using find_entry_exact[OF ok False] by blast
  show ?thesis
  proof (cases y)
    case None
    with y False assms(2) show ?thesis by (auto simp: resolve_desc_def unservable_def)
  next
    case (Some e)
    then have e: "bt_get m (me_base e) = Some e" "range_of (td_local d) (td_len d) \<subseteq> entry_range e" using y(2) by auto
    have mrs: "length (me_mrs e) = length nodes" using assms(1) e(1) by (simp add: entries_ok_def)
    obtain rr' i where p: "rr_pick (me_numa e) rr = Some (rr', i)" "near nodes (me_numa e) i" "rr_ok nodes rr'"
      using rr_pick_near[OF assms(2)] by blast
    then have i: "i < length nodes" by (simp add: near_def)
    show ?thesis
    proof (cases "desc_contains (td_region d) (td_remote d) (td_len d) \<and> i < length (rd_rkeys (td_region d))")
      case True
      with False y(1) Some e p mrs i show ?thesis by (auto simp: resolve_desc_def serves_def index_def)
    next
      case F: False
      with False y(1) Some p i assms(2) show ?thesis
        by (cases "desc_contains (td_region d) (td_remote d) (td_len d)") (auto simp: resolve_desc_def unservable_def index_def)
    qed
  qed
qed

definition ops_on :: "nat \<Rightarrow> (nat \<times> rdma_op) list \<Rightarrow> rdma_op list" where
  "ops_on j as = map snd (filter (\<lambda>a. fst a = j) as)"

lemma resolve_all_effect:
  assumes "entries_ok (length nodes) m" "rr_ok nodes rr" "length per_nic = length nodes"
  shows "\<exists>rr' x. resolve_all m ds per_nic rr = Some (rr', x) \<and> rr_ok nodes rr' \<and>
    (case x of Inl _ \<Rightarrow> (\<exists>d \<in> set ds. unservable (length nodes) m d)
     | Inr per \<Rightarrow> (\<exists>as. list_all2 (serves nodes m) ds as \<and> length per = length nodes \<and>
         (\<forall>j < length nodes. per ! j = per_nic ! j @ ops_on j as)))"
  using assms(2,3)
proof (induction ds arbitrary: per_nic rr)
  case Nil
  then show ?case by (auto simp: ops_on_def)
next
  case (Cons d ds)
  obtain rr1 x1 where r: "resolve_desc m d rr = Some (rr1, x1)" "rr_ok nodes rr1"
    "case x1 of Inl _ \<Rightarrow> unservable (length nodes) m d | Inr a \<Rightarrow> serves nodes m d a"
    using resolve_desc_effect[OF assms(1) Cons.prems(1)] by blast
  show ?case
  proof (cases x1)
    case (Inl e)
    with r show ?thesis by auto
  next
    case (Inr a)
    obtain nic op where a: "a = (nic, op)" by (cases a)
    then have nic: "nic < length nodes" "serves nodes m d (nic, op)" using r(3) Inr by (auto simp: serves_def near_def)
    let ?per = "per_nic[nic := per_nic ! nic @ [op]]"
    obtain rr' x where ih: "resolve_all m ds ?per rr1 = Some (rr', x)" "rr_ok nodes rr'"
      "case x of Inl _ \<Rightarrow> (\<exists>d \<in> set ds. unservable (length nodes) m d)
       | Inr per \<Rightarrow> (\<exists>as. list_all2 (serves nodes m) ds as \<and> length per = length nodes \<and>
         (\<forall>j < length nodes. per ! j = ?per ! j @ ops_on j as))"
      using Cons.IH[OF r(2), of ?per] Cons.prems(2) by auto
    have step: "resolve_all m (d # ds) per_nic rr = Some (rr', x)"
      using r(1) Inr a ih(1) nic(1) Cons.prems(2) by (simp add: index_def)
    show ?thesis
    proof (cases x)
      case (Inl e)
      with step ih show ?thesis by auto
    next
      case (Inr per)
      then obtain as where as: "list_all2 (serves nodes m) ds as" "length per = length nodes"
        "\<forall>j < length nodes. per ! j = ?per ! j @ ops_on j as" using ih(3) by auto
      have "per ! j = per_nic ! j @ ops_on j ((nic, op) # as)" if "j < length nodes" for j
        using as(3) that Cons.prems(2) by (cases "j = nic") (auto simp: ops_on_def)
      with as(1,2) nic(2) step ih(2) Inr show ?thesis
        by (intro exI[of _ rr'] exI[of _ x]) (auto intro!: exI[of _ "(nic, op) # as"])
    qed
  qed
qed

lemma mset_concat_update:
  "i < length xss \<Longrightarrow> mset (concat (xss[i := xss ! i @ [x]])) = add_mset x (mset (concat xss))"
  by (induction xss arbitrary: i) (auto split: nat.splits)

lemma fill_buckets_effect:
  "buckets \<noteq> [] \<Longrightarrow> \<exists>bs. fill_buckets rot i rs buckets = Some bs \<and> length bs = length buckets \<and>
     mset (concat bs) = mset rs + mset (concat buckets)"
proof (induction rs arbitrary: i buckets)
  case (Cons r rs)
  let ?b = "unat (rot + word_of_nat i) mod length buckets"
  have b: "?b < length buckets" using Cons.prems by simp
  let ?bs = "buckets[?b := buckets ! ?b @ [r]]"
  from Cons.IH[of ?bs "Suc i"] Cons.prems mset_concat_update[OF b] show ?case by (auto simp: Let_def)
qed simp

lemma concat_filter_nonempty:
  "length ss = length bs \<Longrightarrow> concat (map snd (filter (\<lambda>(_, b). b \<noteq> []) (zip ss bs))) = concat bs"
  by (induction ss bs rule: list_induct2) auto

definition work_ok :: "'s list \<times> u64 \<Rightarrow> rdma_op list \<Rightarrow> ('s \<times> rdma_op list) list \<Rightarrow> bool" where
  "work_ok sr ops work \<longleftrightarrow> (\<forall>(x, b) \<in> set work. x \<in> set (fst sr) \<and> b \<noteq> []) \<and> mset (concat (map snd work)) = mset ops"

lemma nic_work_effect:
  assumes "fst sr \<noteq> []"
  shows "\<exists>work. nic_work sr ops = Some work \<and> work_ok sr ops work"
proof (cases "ops = []")
  case True
  then show ?thesis by (simp add: nic_work_def work_ok_def)
next
  case False
  have ne: "replicate (length (fst sr)) ([] :: rdma_op list) \<noteq> []" using assms by simp
  obtain bs where bs: "fill_buckets (snd sr) 0 ops (replicate (length (fst sr)) []) = Some bs"
    "length bs = length (fst sr)" "mset (concat bs) = mset ops"
    using fill_buckets_effect[OF ne, of "snd sr" 0 ops] by auto
  have "\<forall>(x, b) \<in> set (filter (\<lambda>(_, b). b \<noteq> []) (zip (fst sr) bs)). x \<in> set (fst sr) \<and> b \<noteq> []"
    by (auto dest: set_zip_leftD)
  with bs concat_filter_nonempty[OF bs(2)[symmetric]] False show ?thesis
    by (simp add: nic_work_def work_ok_def)
qed

lemma spread_effect:
  "length conn = length per \<Longrightarrow> \<forall>sr \<in> set conn. fst sr \<noteq> [] \<Longrightarrow>
   \<exists>works. spread conn per = Some (concat works) \<and> length works = length per \<and> (\<forall>j < length per. work_ok (conn ! j) (per ! j) (works ! j))"
proof (induction conn per rule: list_induct2)
  case Nil
  then show ?case by simp
next
  case (Cons sr conn ops per)
  obtain a where a: "nic_work sr ops = Some a" "work_ok sr ops a" using nic_work_effect[of sr ops] Cons.prems by auto
  obtain works where w: "spread conn per = Some (concat works)" "length works = length per"
    "\<forall>j < length per. work_ok (conn ! j) (per ! j) (works ! j)" using Cons by auto
  have "\<forall>j < length (ops # per). work_ok ((sr # conn) ! j) ((ops # per) ! j) ((a # works) ! j)"
    using a(2) w(3) by (auto simp: less_Suc_eq_0_disj)
  with a(1) w(1,2) show ?case by (intro exI[of _ "a # works"]) simp
qed

text \<open>
  A batch is planned without panic. Either some descriptor cannot be served (empty, local
  range not registered, remote range not covered, no key for the paired NIC) and nothing is
  posted at all; or every descriptor becomes exactly one operation, with the keys of its NIC,
  on a NIC of the memory's own NUMA node if that node has one, and each NIC's operations go
  to its sessions, none lost, none twice, none to a session of another NIC.
\<close>

theorem batch_plan_exact:
  assumes "entries_ok (length nodes) m" "rr_ok nodes rr" "length conn = length nodes" "\<forall>sr \<in> set conn. fst sr \<noteq> []"
  shows "\<exists>rr' x. plan_batch (length nodes) m conn descs rr = Some (rr', x) \<and> rr_ok nodes rr' \<and> (case x of
      Inl _ \<Rightarrow> (\<exists>d \<in> set descs. unservable (length nodes) m d)
    | Inr work \<Rightarrow> (\<exists>as works. list_all2 (serves nodes m) descs as \<and> work = concat works \<and> length works = length nodes \<and>
        (\<forall>j < length nodes. work_ok (conn ! j) (ops_on j as) (works ! j))))"
proof (cases "descs = []")
  case True
  have "work_ok (conn ! j) (ops_on j []) (replicate (length nodes) [] ! j)" if "j < length nodes" for j
    using that by (simp add: work_ok_def ops_on_def)
  moreover have "concat (replicate (length nodes) []) = []" by simp
  ultimately show ?thesis
    using True assms(2) by (simp add: plan_batch_def) (intro exI[of _ "replicate (length nodes) []"], simp)
next
  case False
  have len: "length (replicate (length nodes) []) = length nodes" by simp
  obtain rr' x where r: "resolve_all m descs (replicate (length nodes) []) rr = Some (rr', x)" "rr_ok nodes rr'"
    "case x of Inl _ \<Rightarrow> (\<exists>d \<in> set descs. unservable (length nodes) m d)
     | Inr per \<Rightarrow> (\<exists>as. list_all2 (serves nodes m) descs as \<and> length per = length nodes \<and>
         (\<forall>j < length nodes. per ! j = replicate (length nodes) [] ! j @ ops_on j as))"
    using resolve_all_effect[OF assms(1,2) len, of descs] by blast
  show ?thesis
  proof (cases x)
    case (Inl e)
    with r False show ?thesis by (auto simp: plan_batch_def)
  next
    case (Inr per)
    then obtain as where as: "list_all2 (serves nodes m) descs as" "length per = length nodes" "\<forall>j < length nodes. per ! j = ops_on j as"
      using r(3) by auto
    obtain works where w: "spread conn per = Some (concat works)" "length works = length per"
      "\<forall>j < length per. work_ok (conn ! j) (per ! j) (works ! j)"
      using spread_effect[of conn per] assms(3,4) as(2) by auto
    have "plan_batch (length nodes) m conn descs rr = Some (rr', Inr (concat works))"
      using False r(1) Inr w(1) by (simp add: plan_batch_def)
    with r(2) as w show ?thesis by (intro exI[of _ rr'] exI[of _ "Inr (concat works)"]) auto
  qed
qed

theorem batch_plan_exact_witness:
  "\<exists>rr' work. plan_batch 2 [(4096, \<lparr>me_base = 4096, me_len = 256, me_numa = 1, me_mrs = [\<lparr>vm_lkey = 1, vm_rkey = 1\<rparr>, \<lparr>vm_lkey = 2, vm_rkey = 2\<rparr>]\<rparr>)]
      [([''a''], 0), ([''b'', ''c''], 1)]
      [\<lparr>td_local = 4100, td_remote = 0, td_len = 8, td_region = \<lparr>rd_addr = 0, rd_len = 64, rd_rkeys = [7, 8]\<rparr>\<rparr>]
      (rr_from_runtimes [0, 1]) = Some (rr', Inr work) \<and> concat (map snd work) =
      [\<lparr>ro_mr = \<lparr>vm_lkey = 2, vm_rkey = 2\<rparr>, ro_local = 4100, ro_remote = 0, ro_len = 8, ro_rkey = 8\<rparr>]"
proof -
  let ?e = "\<lparr>me_base = 4096, me_len = 256, me_numa = 1, me_mrs = [\<lparr>vm_lkey = 1, vm_rkey = 1\<rparr>, \<lparr>vm_lkey = 2, vm_rkey = 2\<rparr>]\<rparr> :: mem_entry"
  let ?m = "[(4096, ?e)]" and ?conn = "[([''a''], 0), ([''b'', ''c''], 1)] :: (string list \<times> u64) list" and ?nodes = "[0, 1] :: numa_node list"
  let ?d = "\<lparr>td_local = 4100, td_remote = 0, td_len = 8, td_region = \<lparr>rd_addr = 0, rd_len = 64, rd_rkeys = [7, 8]\<rparr>\<rparr> :: transfer_desc"
  have "map_insert ?e [] = Some (Inr ?m)" by (simp add: map_insert_def map_overlap_def checked_add_def)
  then have "map_ok ?m" using map_run_ok[OF map_registered[OF map_start]] by blast
  then have m: "entries_ok (length ?nodes) ?m" by (simp add: entries_ok_def)
  have rr: "rr_ok ?nodes (rr_from_runtimes ?nodes)" by (rule rr_from_ok) simp
  have sub: "range_of 4100 8 \<subseteq> entry_range ?e" by (simp add: range_of_def entry_range_def)
  have con: "desc_contains (td_region ?d) (td_remote ?d) (td_len ?d)"
    by (simp add: desc_contains_def checked_add_def saturating_add_def word_le_nat_alt)
  have serv: "\<not> unservable (length ?nodes) ?m ?d" using sub con by (auto simp: unservable_def intro!: exI[of _ ?e])
  obtain rr' x where p: "plan_batch (length ?nodes) ?m ?conn [?d] (rr_from_runtimes ?nodes) = Some (rr', x)" "case x of
      Inl _ \<Rightarrow> (\<exists>d \<in> set [?d]. unservable (length ?nodes) ?m d)
    | Inr work \<Rightarrow> (\<exists>as works. list_all2 (serves ?nodes ?m) [?d] as \<and> work = concat works \<and> length works = length ?nodes \<and>
        (\<forall>j < length ?nodes. work_ok (?conn ! j) (ops_on j as) (works ! j)))"
    using batch_plan_exact[OF m rr, of ?conn "[?d]"] by auto
  then obtain as works where w: "x = Inr (concat works)" "list_all2 (serves ?nodes ?m) [?d] as" "length works = length ?nodes"
    "\<forall>j < length ?nodes. work_ok (?conn ! j) (ops_on j as) (works ! j)"
    using serv by (cases x) auto
  then obtain a where a: "as = [a]" "serves ?nodes ?m ?d a" by (auto simp: list_all2_Cons1)
  have "fst a = 1" "snd a = \<lparr>ro_mr = \<lparr>vm_lkey = 2, vm_rkey = 2\<rparr>, ro_local = 4100, ro_remote = 0, ro_len = 8, ro_rkey = 8\<rparr>"
    using a(2) by (auto simp: serves_def near_def is_valid_def less_Suc_eq numeral_2_eq_2 split: if_splits)
  moreover obtain w0 w1 where "works = [w0, w1]" using w(3) by (auto simp: length_Suc_conv)
  ultimately have "concat (map snd (concat works)) =
      [\<lparr>ro_mr = \<lparr>vm_lkey = 2, vm_rkey = 2\<rparr>, ro_local = 4100, ro_remote = 0, ro_len = 8, ro_rkey = 8\<rparr>]"
    using w(4) a(1) by (auto simp: work_ok_def ops_on_def less_Suc_eq numeral_2_eq_2)
  with p(1) w(1) show ?thesis by (intro exI[of _ rr'] exI[of _ "concat works"]) (simp add: numeral_2_eq_2)
qed

end
