(* ===== verification/Pega_Rdma_Topo.thy ===== *)
theory Pega_Rdma_Topo
  imports Pega_Numa "HOL-Library.Char_ord"
begin

text \<open>
  Topology of GPUs, NICs and CPUs (\<open>rdma_topo.rs\<close>) over the contents of sysfs and the output of
  \<open>nvidia-smi\<close>. The summary is written to the log and is not modelled, except for the grouping
  of devices under their root port that it computes.
\<close>

section \<open>PCI addresses\<close>

definition normalize_pci_addr :: "string \<Rightarrow> string" where
  "normalize_pci_addr addr =
     (let addr = to_ascii_lowercase (trim addr);
          colon_count = length (filter (\<lambda>c. c = CHR '':'') addr) in
      if colon_count = 2 then
        (case split_once (CHR '':'') addr of
           Some (domain, rest) \<Rightarrow>
             if length domain > 4 then drop (length domain - 4) domain @ '':'' @ rest else addr
         | None \<Rightarrow> addr)
      else if colon_count = 1 then ''0000:'' @ addr
      else addr)"

definition read_numa_node_sysfs :: "os_env \<Rightarrow> string \<Rightarrow> numa_node" where
  "read_numa_node_sysfs os pci_addr = (case os_read os (''/sys/bus/pci/devices/'' @ pci_addr @ ''/numa_node'') of
      Inl _ \<Rightarrow> node_unknown
    | Inr s \<Rightarrow> (case parse_i32 (trim s) of
        None \<Rightarrow> node_unknown
      | Some n \<Rightarrow> if n \<ge> 0 then word_of_int n else node_unknown))"

definition nic_numa_node :: "os_env \<Rightarrow> string \<Rightarrow> numa_node" where
  "nic_numa_node os nic_name = (case os_link os (''/sys/class/infiniband/'' @ nic_name @ ''/device'') of
      None \<Rightarrow> node_unknown
    | Some pci_addr \<Rightarrow> if pci_addr = [] then node_unknown else read_numa_node_sysfs os pci_addr)"

definition get_pcie_path :: "os_env \<Rightarrow> string \<Rightarrow> string list" where
  "get_pcie_path os pci_addr = (case os_canonical os (''/sys/bus/pci/devices/'' @ pci_addr) of
      None \<Rightarrow> []
    | Some path \<Rightarrow> filter (\<lambda>s. CHR '':'' \<in> set s \<and> CHR ''.'' \<in> set s \<and> \<not> starts_with s ''pci'') (split_on (CHR ''/'') path))"

definition pcie_gen_table :: "(string \<times> string) list" where
  "pcie_gen_table = [(''2.5'', ''1.0''), (''5.0'', ''2.0''), (''8.0'', ''3.0''), (''16.0'', ''4.0''), (''32.0'', ''5.0''), (''64.0'', ''6.0'')]"

definition gts_to_pcie_gen :: "string \<Rightarrow> string" where
  "gts_to_pcie_gen speed = (let token = takeWhile (\<lambda>c. \<not> is_space c) (trim_start speed) in
     case map_of pcie_gen_table token of Some pcie_gen \<Rightarrow> pcie_gen | None \<Rightarrow> ''?'')"

definition read_pcie_link_info :: "os_env \<Rightarrow> string \<Rightarrow> string option" where
  "read_pcie_link_info os pci_addr =
     (let base = ''/sys/bus/pci/devices/'' @ pci_addr in
      case (os_read os (path_join base ''max_link_speed''), os_read os (path_join base ''max_link_width'')) of
        (Inr speed_raw, Inr width_raw) \<Rightarrow>
          (let pcie_gen = gts_to_pcie_gen (trim speed_raw); width = trim width_raw in
           if pcie_gen = ''?'' \<or> width = [] then None else Some (''PCIe '' @ pcie_gen @ '' x'' @ width))
      | _ \<Rightarrow> None)"

definition format_pci_device :: "os_env \<Rightarrow> string \<Rightarrow> string \<Rightarrow> string" where
  "format_pci_device os name pci_addr = (case read_pcie_link_info os pci_addr of
      Some link \<Rightarrow> name @ '' ('' @ pci_addr @ '', '' @ link @ '')''
    | None \<Rightarrow> name @ '' ('' @ pci_addr @ '')'')"

section \<open>Detection\<close>

record gpu_info =
  gi_id :: u32
  gi_pci :: string
  gi_numa :: numa_node

record nic_info =
  ni_name :: string
  ni_pci :: string
  ni_numa :: numa_node

record numa_group =
  gr_node :: numa_node
  gr_gpus :: "gpu_info list"
  gr_nics :: "nic_info list"
  gr_cpus :: "nat list"

definition gpu_of_line :: "os_env \<Rightarrow> string \<Rightarrow> gpu_info option" where
  "gpu_of_line os line = (case split_once (CHR '','') line of
      None \<Rightarrow> None
    | Some (idx_str, addr_str) \<Rightarrow> (case parse_u32 (trim idx_str) of
        None \<Rightarrow> None
      | Some device_id \<Rightarrow> (let pci_addr = normalize_pci_addr addr_str in
          Some \<lparr>gi_id = device_id, gi_pci = pci_addr, gi_numa = read_numa_node_sysfs os pci_addr\<rparr>)))"

definition detect_gpus :: "os_env \<Rightarrow> gpu_info list" where
  "detect_gpus os =
     (case os_command os [''nvidia-smi'', ''--query-gpu=index,pci.bus_id'', ''--format=csv,noheader''] of
        Some (True, stdout) \<Rightarrow> sort_key gi_id (List.map_filter (gpu_of_line os) (text_lines stdout))
      | _ \<Rightarrow> [])"

definition nic_has_active_port :: "os_env \<Rightarrow> string \<Rightarrow> bool" where
  "nic_has_active_port os dev = (case os_dir os (path_join dev ''ports'') of
      Inl _ \<Rightarrow> False
    | Inr ports \<Rightarrow> list_ex (\<lambda>port. case os_read os (path_join (path_join (path_join dev ''ports'') port) ''state'') of
        Inl _ \<Rightarrow> False
      | Inr s \<Rightarrow> starts_with (trim_start s) ''4:'') ports)"

definition ib_dir :: string where
  "ib_dir = ''/sys/class/infiniband''"

definition nic_of_entry :: "os_env \<Rightarrow> string \<Rightarrow> nic_info option" where
  "nic_of_entry os name = (let path = path_join ib_dir name in
     if \<not> nic_has_active_port os path then None
     else case os_link os (path_join path ''device'') of
         None \<Rightarrow> None
       | Some pci_addr \<Rightarrow>
           if pci_addr = [] then None
           else Some \<lparr>ni_name = name, ni_pci = pci_addr, ni_numa = read_numa_node_sysfs os pci_addr\<rparr>)"

definition enumerate_rdma_nics :: "os_env \<Rightarrow> nic_info list" where
  "enumerate_rdma_nics os =
     (if \<not> os_exists os ib_dir then []
      else case os_dir os ib_dir of
          Inl _ \<Rightarrow> []
        | Inr names \<Rightarrow> sort_key ni_name (List.map_filter (nic_of_entry os) names))"

text \<open>A \<open>BTreeSet\<close> of node ids is the sorted list of its elements.\<close>

definition node_ids :: "gpu_info list \<Rightarrow> nic_info list \<Rightarrow> (u32, nat list) btree \<Rightarrow> u32 list" where
  "node_ids gpus nics cpu_topo = remdups_adj (sort
     (filter is_valid (map gi_numa gpus) @ filter is_valid (map ni_numa nics) @ map fst cpu_topo))"

definition group_of :: "gpu_info list \<Rightarrow> nic_info list \<Rightarrow> (u32, nat list) btree \<Rightarrow> u32 \<Rightarrow> numa_group" where
  "group_of gpus nics cpu_topo node = \<lparr>gr_node = node,
     gr_gpus = sort_key gi_id (filter (\<lambda>g. gi_numa g = node) gpus),
     gr_nics = sort_key ni_name (filter (\<lambda>n. ni_numa n = node) nics),
     gr_cpus = (case bt_get cpu_topo node of Some cpus \<Rightarrow> cpus | None \<Rightarrow> [])\<rparr>"

definition system_detect :: "os_env \<Rightarrow> numa_group list" where
  "system_detect os =
     (let gpus = detect_gpus os; nics = enumerate_rdma_nics os;
          cpu_topo = (case read_cpu_topology_from_sysfs os of Inr m \<Rightarrow> m | Inl _ \<Rightarrow> []) in
      map (group_of gpus nics cpu_topo) (node_ids gpus nics cpu_topo))"

fun nics_for_gpu :: "numa_group list \<Rightarrow> u32 \<Rightarrow> nic_info list" where
  "nics_for_gpu [] device_id = []"
| "nics_for_gpu (gr # grs) device_id =
     (if list_ex (\<lambda>g. gi_id g = device_id) (gr_gpus gr) then gr_nics gr else nics_for_gpu grs device_id)"

text \<open>The devices of a group under their root port.\<close>

definition push_device :: "string \<Rightarrow> string \<Rightarrow> (string, string list) btree \<Rightarrow> (string, string list) btree" where
  "push_device root label m = bt_insert m root ((case bt_get m root of None \<Rightarrow> [] | Some ls \<Rightarrow> ls) @ [label])"

definition pcie_root :: "os_env \<Rightarrow> string \<Rightarrow> string" where
  "pcie_root os pci_addr = (case get_pcie_path os pci_addr of [] \<Rightarrow> ''?'' | root # _ \<Rightarrow> root)"

definition pcie_tree :: "os_env \<Rightarrow> numa_group \<Rightarrow> (string, string list) btree" where
  "pcie_tree os gr =
     (let m = fold (\<lambda>g m. if gi_pci g = [] then m
         else push_device (pcie_root os (gi_pci g)) (format_pci_device os (''GPU '' @ show_nat (unat (gi_id g))) (gi_pci g)) m)
         (gr_gpus gr) [] in
      fold (\<lambda>n m. push_device (pcie_root os (ni_pci n)) (format_pci_device os (ni_name n) (ni_pci n)) m) (gr_nics gr) m)"

section \<open>Groups\<close>

lemma sorted_remdups_strict: "sorted xs \<Longrightarrow> sorted_wrt (<) (remdups_adj (xs :: 'a::linorder list))"
  by (induction xs rule: remdups_adj.induct) auto

lemma node_ids_sorted: "sorted_wrt (<) (node_ids gpus nics cpus)"
  unfolding node_ids_def by (rule sorted_remdups_strict) simp

lemma node_ids_set:
  "set (node_ids gpus nics cpus) = {n \<in> gi_numa ` set gpus. is_valid n} \<union> {n \<in> ni_numa ` set nics. is_valid n} \<union> fst ` set cpus"
  unfolding node_ids_def by auto

lemma sort_filter_sorted: "sorted (map f xs) \<Longrightarrow> sort_key f (filter P xs) = filter P xs"
  by (simp add: sorted_filter sort_key_id_if_sorted)

lemma nics_sorted: "sorted (map ni_name (enumerate_rdma_nics os))"
  by (simp add: enumerate_rdma_nics_def split: sum.splits)

lemma gpus_sorted: "sorted (map gi_id (detect_gpus os))"
  by (auto simp: detect_gpus_def split: option.splits bool.splits)

lemma nics_for_gpu_map:
  assumes "n \<in> set ns" "g \<in> set gpus" "gi_numa g = n" "distinct (map gi_id gpus)"
  shows "nics_for_gpu (map (group_of gpus nics cpus) ns) (gi_id g) = sort_key ni_name (filter (\<lambda>x. ni_numa x = n) nics)"
  using assms(1)
proof (induction ns)
  case (Cons k ns)
  have "list_ex (\<lambda>x. gi_id x = gi_id g) (gr_gpus (group_of gpus nics cpus k)) \<longleftrightarrow> k = n"
    using assms(2-4) by (auto simp: group_of_def list_ex_iff distinct_map inj_on_def)
  with Cons show ?case by (auto simp: group_of_def)
qed simp


text \<open>One GPU and two NICs, of which only one is on the node of the GPU.\<close>

definition topo_os :: os_env where
  "topo_os = \<lparr>os_exists = (\<lambda>p. p = ib_dir),
     os_dir = (\<lambda>p. if p = ib_dir then Inr [''mlx5_1'', ''mlx5_0''] else Inr [''1'']),
     os_read = (\<lambda>p. if p = ''/sys/bus/pci/devices/0000:19:00.0/numa_node'' then Inr ''1'' else Inr ''4: ACTIVE''),
     os_link = (\<lambda>p. if p = ''/sys/class/infiniband/mlx5_0/device'' then Some ''0000:19:00.0'' else Some ''0000:2a:00.0''),
     os_canonical = (\<lambda>_. None), os_command = (\<lambda>_. Some (True, ''0, 00000000:19:00.0'')),
     os_set_affinity = (\<lambda>_. Inr ()), os_spawn = Inr (), os_page_size = 4096, os_move_pages = (\<lambda>_. None)\<rparr>"

lemmas char_eval = trim_def trim_start_def is_space_def of_char_def char_of_def bit_0

lemma topo_os_eval [simp]:
  "read_numa_node_sysfs topo_os ''0000:19:00.0'' = 1" "read_numa_node_sysfs topo_os ''0000:2a:00.0'' = node_unknown"
  "nic_has_active_port topo_os ''/sys/class/infiniband/mlx5_0''" "nic_has_active_port topo_os ''/sys/class/infiniband/mlx5_1''"
  by (simp_all add: read_numa_node_sysfs_def nic_has_active_port_def topo_os_def path_join_def ib_dir_def starts_with_def
      parse_i32_def parse_unsigned_def digit_val_def char_eval)

lemma gpu_line_eval:
  "gpu_of_line topo_os ''0, 00000000:19:00.0'' = Some \<lparr>gi_id = 0, gi_pci = ''0000:19:00.0'', gi_numa = 1\<rparr>"
proof -
  have "normalize_pci_addr '' 00000000:19:00.0'' = ''0000:19:00.0''"
    by (simp add: normalize_pci_addr_def to_ascii_lowercase_def char_eval)
  moreover have "parse_u32 (trim ''0'') = Some 0" by (simp add: parse_u32_def parse_unsigned_def digit_val_def char_eval)
  ultimately show ?thesis by (simp add: gpu_of_line_def Let_def)
qed


text \<open>
  The address is cut to the last four digits of its domain, so a domain above \<open>0xffff\<close> (as
  behind a volume management device) is read as another one.
\<close>

lemma large_domain_aliases: "normalize_pci_addr ''00010000:19:00.0'' = normalize_pci_addr ''00000000:19:00.0''"
  by (simp add: normalize_pci_addr_def to_ascii_lowercase_def trim_def trim_start_def is_space_def of_char_def char_of_def bit_0)

end
