(* ===== verification/Pega_Rdma_Runtime.thy ===== *)
theory Pega_Rdma_Runtime
  imports Pega_Rdma_Map Pega_Rdma_Topo
begin

text \<open>
  Opening a NIC (\<open>rc_backend/runtime.rs\<close>): the device by name, its first active port, the LID of
  that port and the GID to send from. The verbs library is the record \<open>verbs_lib\<close>; a failing
  call is the text of its error.
\<close>

section \<open>Devices\<close>

type_synonym gid = "u8 list"

datatype link_layer = LinkInfiniBand | LinkEthernet | LinkUnspecified

datatype gid_type = GidInfiniBand | GidRoceV1 | GidRoceV2

text \<open>\<open>pa_active\<close>: the state of the port is \<open>PortState::Active\<close>.\<close>

record port_attr =
  pa_active :: bool
  pa_link :: link_layer
  pa_lid :: u16
  pa_mtu :: nat

record gid_entry =
  ge_port :: u32
  ge_index :: u32
  ge_type :: gid_type
  ge_gid :: gid

record verbs_ctx =
  vc_name :: string
  vc_port_cnt :: "string + u8"
  vc_gid_table :: "string + gid_entry list"
  vc_port :: "u8 \<Rightarrow> string + port_attr"
  vc_gid :: "u8 \<Rightarrow> u32 \<Rightarrow> string + gid"

record verbs_dev =
  vd_name :: string
  vd_open :: "string + verbs_ctx"
  vd_pd :: "string + unit"

record verbs_lib =
  vl_devices :: "string + verbs_dev list"
  vl_is_zero :: "gid \<Rightarrow> bool"
  vl_link_local :: "gid \<Rightarrow> bool"

record rc_runtime =
  rt_port :: u8
  rt_link :: link_layer
  rt_lid :: u16
  rt_gid_index :: u8
  rt_mtu :: nat
  rt_gid :: gid
  rt_numa :: numa_node
  rt_name :: string

section \<open>Choosing a port and a GID\<close>

definition port_lid :: "verbs_ctx \<Rightarrow> u8 \<Rightarrow> port_attr \<Rightarrow> u16 tres" where
  "port_lid ctx port_num attr = (case pa_link attr of
      LinkInfiniBand \<Rightarrow>
        if pa_lid attr = 0
        then Inl (Backend (''invalid zero LID for InfiniBand nic='' @ vc_name ctx @ '', port='' @ show_nat (unat port_num)))
        else Inr (pa_lid attr)
    | LinkEthernet \<Rightarrow> Inr 0
    | LinkUnspecified \<Rightarrow>
        Inl (Backend (''unsupported link layer on nic='' @ vc_name ctx @ '', port='' @ show_nat (unat port_num) @ '': Unspecified'')))"

definition or_find :: "'a option \<Rightarrow> ('a \<Rightarrow> bool) \<Rightarrow> 'a list \<Rightarrow> 'a option" where
  "or_find x P xs = (case x of Some y \<Rightarrow> Some y | None \<Rightarrow> find P xs)"

definition port_entries :: "verbs_lib \<Rightarrow> gid_entry list \<Rightarrow> u8 \<Rightarrow> gid_entry list" where
  "port_entries lib entries port_num = filter (\<lambda>e. ge_port e = ucast port_num \<and> \<not> vl_is_zero lib (ge_gid e)) entries"

definition pick_gid :: "verbs_lib \<Rightarrow> gid_entry list \<Rightarrow> gid_entry option" where
  "pick_gid lib entries =
     or_find (or_find (find (\<lambda>e. ge_type e = GidRoceV2 \<and> \<not> vl_link_local lib (ge_gid e)) entries)
        (\<lambda>e. ge_type e = GidInfiniBand) entries)
       (\<lambda>e. \<not> vl_link_local lib (ge_gid e)) entries"

definition port_gid :: "verbs_lib \<Rightarrow> verbs_ctx \<Rightarrow> gid_entry list \<Rightarrow> u8 \<Rightarrow> (u8 \<times> gid) tres" where
  "port_gid lib ctx entries port_num = (case pick_gid lib (port_entries lib entries port_num) of
      Some e \<Rightarrow> Inr (ucast (ge_index e), ge_gid e)
    | None \<Rightarrow> and_then (map_err Backend (vc_gid ctx port_num 0)) (\<lambda>gid. Inr (0, gid)))"

text \<open>The loop over the ports; the result has the fields of the runtime in the order of the tuple.\<close>

fun choose_loop :: "verbs_lib \<Rightarrow> verbs_ctx \<Rightarrow> gid_entry list \<Rightarrow> u8 list \<Rightarrow> (u8 \<times> link_layer \<times> u16 \<times> u8 \<times> nat \<times> gid) tres" where
  "choose_loop lib ctx entries [] = Inl (Backend ''no active port found on selected NIC'')"
| "choose_loop lib ctx entries (port_num # ports) = and_then (map_err Backend (vc_port ctx port_num)) (\<lambda>attr.
     if \<not> pa_active attr then choose_loop lib ctx entries ports
     else and_then (port_lid ctx port_num attr) (\<lambda>lid.
       and_then (port_gid lib ctx entries port_num) (\<lambda>(gid_index, gid).
         Inr (port_num, pa_link attr, lid, gid_index, pa_mtu attr, gid))))"

definition choose_port_and_gid :: "verbs_lib \<Rightarrow> verbs_ctx \<Rightarrow> (u8 \<times> link_layer \<times> u16 \<times> u8 \<times> nat \<times> gid) tres" where
  "choose_port_and_gid lib ctx =
     and_then (map_err Backend (vc_port_cnt ctx)) (\<lambda>cnt.
       and_then (map_err Backend (vc_gid_table ctx)) (\<lambda>entries.
         choose_loop lib ctx entries (map word_of_nat [1..<Suc (unat cnt)])))"

definition runtime_open :: "verbs_lib \<Rightarrow> os_env \<Rightarrow> string \<Rightarrow> rc_runtime tres" where
  "runtime_open lib os nic_name =
     and_then (map_err Backend (vl_devices lib)) (\<lambda>devices.
       case find (\<lambda>d. vd_name d = nic_name) devices of
         None \<Rightarrow> Inl (DeviceNotFound nic_name)
       | Some device \<Rightarrow>
           and_then (map_err Backend (vd_open device)) (\<lambda>ctx.
             and_then (map_err Backend (vd_pd device)) (\<lambda>_.
               and_then (choose_port_and_gid lib ctx) (\<lambda>(port_num, link, lid, gid_index, mtu, gid).
                 Inr \<lparr>rt_port = port_num, rt_link = link, rt_lid = lid, rt_gid_index = gid_index, rt_mtu = mtu,
                   rt_gid = gid, rt_numa = nic_numa_node os nic_name, rt_name = nic_name\<rparr>))))"

section \<open>What an opened NIC has\<close>

text \<open>A runtime can be connected: it has a LID exactly on InfiniBand, and a supported link layer.\<close>

definition rt_ok :: "rc_runtime \<Rightarrow> bool" where
  "rt_ok rt \<longleftrightarrow> (case rt_link rt of LinkInfiniBand \<Rightarrow> rt_lid rt \<noteq> 0 | LinkEthernet \<Rightarrow> rt_lid rt = 0 | LinkUnspecified \<Rightarrow> False)"

text \<open>How good a GID is as a source address.\<close>

definition gid_rank :: "verbs_lib \<Rightarrow> gid_entry \<Rightarrow> nat" where
  "gid_rank lib e = (if ge_type e = GidRoceV2 \<and> \<not> vl_link_local lib (ge_gid e) then 0
     else if ge_type e = GidInfiniBand then 1
     else if \<not> vl_link_local lib (ge_gid e) then 2 else 3)"

lemma find_SomeD: "find P xs = Some x \<Longrightarrow> x \<in> set xs \<and> P x"
  by (auto simp: find_Some_iff)

lemma pick_gid_best:
  "case pick_gid lib es of
     Some e \<Rightarrow> e \<in> set es \<and> gid_rank lib e < 3 \<and> (\<forall>x \<in> set es. gid_rank lib e \<le> gid_rank lib x)
   | None \<Rightarrow> \<forall>x \<in> set es. gid_rank lib x = 3"
  unfolding pick_gid_def or_find_def
  by (auto simp: gid_rank_def find_None_iff dest!: find_SomeD split: option.splits)

text \<open>The fields that the loop returns for a port among \<open>ports\<close>.\<close>

definition chosen :: "verbs_lib \<Rightarrow> verbs_ctx \<Rightarrow> gid_entry list \<Rightarrow> u8 list \<Rightarrow> rc_runtime \<Rightarrow> bool" where
  "chosen lib ctx entries ports rt \<longleftrightarrow> rt_ok rt \<and> (\<exists>before after attr. ports = before @ rt_port rt # after \<and>
     (\<forall>p \<in> set before. \<exists>a. vc_port ctx p = Inr a \<and> \<not> pa_active a) \<and>
     vc_port ctx (rt_port rt) = Inr attr \<and> pa_active attr \<and> rt_link rt = pa_link attr \<and> rt_mtu rt = pa_mtu attr) \<and>
     (let es = port_entries lib entries (rt_port rt) in
      if \<exists>x \<in> set es. gid_rank lib x < 3
      then \<exists>e \<in> set es. rt_gid rt = ge_gid e \<and> rt_gid_index rt = ucast (ge_index e) \<and> (\<forall>x \<in> set es. gid_rank lib e \<le> gid_rank lib x)
      else vc_gid ctx (rt_port rt) 0 = Inr (rt_gid rt) \<and> rt_gid_index rt = 0)"

lemma port_gid_best:
  assumes "port_gid lib ctx entries p = Inr (i, g)"
  shows "let es = port_entries lib entries p in if \<exists>x \<in> set es. gid_rank lib x < 3
    then \<exists>e \<in> set es. g = ge_gid e \<and> i = ucast (ge_index e) \<and> (\<forall>x \<in> set es. gid_rank lib e \<le> gid_rank lib x)
    else vc_gid ctx p 0 = Inr g \<and> i = 0"
proof (cases "pick_gid lib (port_entries lib entries p)")
  case None
  with assms pick_gid_best[where lib = lib and es = "port_entries lib entries p"] show ?thesis
    by (auto simp: port_gid_def Let_def and_then_def map_err_def split: sum.splits)
next
  case (Some e)
  with assms pick_gid_best[where lib = lib and es = "port_entries lib entries p"] show ?thesis
    by (auto simp: port_gid_def Let_def)
qed

lemma choose_loop_chosen:
  assumes "choose_loop lib ctx entries ports = Inr (rt_port rt, rt_link rt, rt_lid rt, rt_gid_index rt, rt_mtu rt, rt_gid rt)"
  shows "chosen lib ctx entries ports rt"
  using assms
proof (induction ports)
  case (Cons p ports)
  then obtain attr where attr: "vc_port ctx p = Inr attr" by (cases "vc_port ctx p") (auto simp: map_err_def and_then_def)
  show ?case
  proof (cases "pa_active attr")
    case False
    with Cons attr have "chosen lib ctx entries ports rt" by (simp add: map_err_def and_then_def)
    then obtain before after where "ports = before @ rt_port rt # after"
      "\<forall>p \<in> set before. \<exists>a. vc_port ctx p = Inr a \<and> \<not> pa_active a"
      by (auto simp: chosen_def)
    then have "p # ports = (p # before) @ rt_port rt # after" "\<forall>p \<in> set (p # before). \<exists>a. vc_port ctx p = Inr a \<and> \<not> pa_active a"
      using attr False by auto
    with \<open>chosen lib ctx entries ports rt\<close> show ?thesis unfolding chosen_def by blast
  next
    case True
    with Cons.prems attr obtain l i g where lig: "port_lid ctx p attr = Inr l" "port_gid lib ctx entries p = Inr (i, g)"
      "rt_port rt = p" "rt_link rt = pa_link attr" "rt_lid rt = l" "rt_gid_index rt = i" "rt_mtu rt = pa_mtu attr" "rt_gid rt = g"
      by (auto simp: map_err_def and_then_def split: sum.splits)
    then have "rt_ok rt" by (auto simp: rt_ok_def port_lid_def split: link_layer.splits if_splits)
    moreover have "p # ports = [] @ rt_port rt # ports" using lig(3) by simp
    moreover have "\<forall>p \<in> set []. \<exists>a. vc_port ctx p = Inr a \<and> \<not> pa_active a" by simp
    ultimately show ?thesis
      unfolding chosen_def using port_gid_best[OF lig(2)] lig(3,4,6,7,8) attr True by blast
  qed
qed simp


definition ex_ctx :: verbs_ctx where
  "ex_ctx = \<lparr>vc_name = ''mlx5_0'', vc_port_cnt = Inr 2,
     vc_gid_table = Inr [\<lparr>ge_port = 2, ge_index = 0, ge_type = GidRoceV1, ge_gid = [1]\<rparr>, \<lparr>ge_port = 2, ge_index = 3, ge_type = GidRoceV2, ge_gid = [2]\<rparr>],
     vc_port = (\<lambda>p. Inr \<lparr>pa_active = (p = 2), pa_link = LinkEthernet, pa_lid = 0, pa_mtu = 4096\<rparr>), vc_gid = (\<lambda>_ _. Inl ''none'')\<rparr>"

definition ex_lib :: verbs_lib where
  "ex_lib = \<lparr>vl_devices = Inr [\<lparr>vd_name = ''mlx5_0'', vd_open = Inr ex_ctx, vd_pd = Inr ()\<rparr>],
     vl_is_zero = (\<lambda>g. \<forall>b \<in> set g. b = 0), vl_link_local = (\<lambda>g. take 2 g = [254, 128])\<rparr>"

lemma ex_runtime:
  "runtime_open ex_lib topo_os ''mlx5_0'' = Inr \<lparr>rt_port = 2, rt_link = LinkEthernet, rt_lid = 0, rt_gid_index = 3, rt_mtu = 4096,
     rt_gid = [2], rt_numa = 1, rt_name = ''mlx5_0''\<rparr>"
proof -
  have "choose_port_and_gid ex_lib ex_ctx = Inr (2, LinkEthernet, 0, 3, 4096, [2])"
    by (simp add: choose_port_and_gid_def ex_lib_def ex_ctx_def map_err_def and_then_def upt_rec port_lid_def port_gid_def
        pick_gid_def port_entries_def or_find_def)
  moreover have "os_link topo_os ''/sys/class/infiniband/mlx5_0/device'' = Some ''0000:19:00.0''" by (simp add: topo_os_def)
  then have "nic_numa_node topo_os ''mlx5_0'' = 1" by (simp add: nic_numa_node_def)
  ultimately show ?thesis by (simp add: runtime_open_def ex_lib_def map_err_def and_then_def)
qed


end
