(* ===== verification/Pega_Rdma_Backend.thy ===== *)
theory Pega_Rdma_Backend
  imports Pega_Rdma_Batch Pega_Rdma_Runtime
begin

text \<open>
  The RDMA backend (\<open>rc_backend/mod.rs\<close>, with \<open>state.rs\<close>, \<open>RcSession::create\<close> and \<open>connect\<close> of
  \<open>session.rs\<close>, and the types of \<open>engine.rs\<close>): registration of memory on all NICs, creation of queue
  pairs, the handshake that connects them to a peer, and the submission of a batch. What runs
  under the state lock is one definition per critical section. A debug assertion that fails
  is a panic. The verbs calls on a queue pair are the record \<open>qp_driver\<close>; a queue pair is
  identified by the PSN seed it was created with.
\<close>

section \<open>Queue pairs\<close>

record rc_endpoint =
  ep_gid :: gid
  ep_lid :: u16
  ep_qpn :: u32
  ep_psn :: u32

text \<open>Per NIC the endpoints of its queue pairs.\<close>

type_synonym nic_handshake = "rc_endpoint list"

datatype address_handle =
    AhInfiniBand u16 u8
  | AhEthernet u8 gid u8 u8

record rtr_attr =
  rtr_mtu :: nat
  rtr_dest_qpn :: u32
  rtr_rq_psn :: u32
  rtr_max_dest_rd :: u8
  rtr_min_rnr_timer :: u8
  rtr_address :: address_handle

record rts_attr =
  rts_sq_psn :: u32
  rts_timeout :: u8
  rts_retry_cnt :: u8
  rts_rnr_retry :: u8
  rts_max_rd :: u8

datatype qp_attr = ToInit u8 | ToRtr rtr_attr | ToRts rts_attr

datatype qp_state = QpInit | QpRts rtr_attr rts_attr

text \<open>
  Creating a completion queue of a size, creating a queue pair with its send and receive
  depths (its number is returned), changing its state, and starting its worker thread.
\<close>

record qp_driver =
  qd_cq :: "u64 \<Rightarrow> u32 \<Rightarrow> string + unit"
  qd_qp :: "u64 \<Rightarrow> u32 \<Rightarrow> u32 \<Rightarrow> string + u32"
  qd_modify :: "u64 \<Rightarrow> qp_attr \<Rightarrow> string + unit"
  qd_spawn :: "u64 \<Rightarrow> string + unit"

record rc_session =
  se_seed :: u64
  se_local :: rc_endpoint
  se_qp :: qp_state

definition send_cq_size :: u32 where
  "send_cq_size = word_of_nat max_send_wr"

definition max_recv_wr :: u32 where
  "max_recv_wr = 1"

definition max_rd_atomic :: u8 where
  "max_rd_atomic = 16"

unbundle bit_operations_syntax

definition psn_mask :: u32 where
  "psn_mask = 0x00FFFFFF"

definition session_create :: "qp_driver \<Rightarrow> rc_runtime \<Rightarrow> u64 \<Rightarrow> rc_session tres" where
  "session_create drv rt psn_seed =
     and_then (map_err Backend (qd_cq drv psn_seed send_cq_size)) (\<lambda>_.
       and_then (map_err Backend (qd_qp drv psn_seed (word_of_nat max_send_wr) max_recv_wr)) (\<lambda>qp_num.
         and_then (map_err Backend (qd_modify drv psn_seed (ToInit (rt_port rt)))) (\<lambda>_.
           and_then (map_err (\<lambda>e. Backend (''failed to spawn session worker: '' @ e)) (qd_spawn drv psn_seed)) (\<lambda>_.
             Inr \<lparr>se_seed = psn_seed,
               se_local = \<lparr>ep_gid = rt_gid rt, ep_lid = rt_lid rt, ep_qpn = qp_num, ep_psn = ucast psn_seed AND psn_mask\<rparr>,
               se_qp = QpInit\<rparr>))))"

definition address_of :: "rc_runtime \<Rightarrow> rc_endpoint \<Rightarrow> address_handle tres" where
  "address_of rt remote = (case rt_link rt of
      LinkInfiniBand \<Rightarrow>
        if ep_lid remote = 0 then Inl (InvalidArgument ''remote LID is zero for InfiniBand connection'')
        else Inr (AhInfiniBand (ep_lid remote) (rt_port rt))
    | LinkEthernet \<Rightarrow> Inr (AhEthernet (rt_port rt) (ep_gid remote) (rt_gid_index rt) 64)
    | LinkUnspecified \<Rightarrow> Inl (Backend ''unsupported link layer for RC connection: Unspecified''))"

definition session_connect :: "qp_driver \<Rightarrow> rc_runtime \<Rightarrow> rc_session \<Rightarrow> rc_endpoint \<Rightarrow> rc_session tres" where
  "session_connect drv rt s remote = and_then (address_of rt remote) (\<lambda>ah.
     let rtr = \<lparr>rtr_mtu = rt_mtu rt, rtr_dest_qpn = ep_qpn remote, rtr_rq_psn = ep_psn remote,
           rtr_max_dest_rd = max_rd_atomic, rtr_min_rnr_timer = 12, rtr_address = ah\<rparr>;
         rts = \<lparr>rts_sq_psn = ep_psn (se_local s), rts_timeout = 14, rts_retry_cnt = 7, rts_rnr_retry = 7,
           rts_max_rd = max_rd_atomic\<rparr> in
     and_then (map_err Backend (qd_modify drv (se_seed s) (ToRtr rtr))) (\<lambda>_.
       and_then (map_err Backend (qd_modify drv (se_seed s) (ToRts rts))) (\<lambda>_.
         Inr (s\<lparr>se_qp := QpRts rtr rts\<rparr>))))"

section \<open>State\<close>

record conn_nic =
  cn_sessions :: "rc_session list"
  cn_rr :: u64

record addr_connection =
  ac_nics :: "conn_nic list"
  ac_local :: "nic_handshake list"

record rc_state =
  bs_registered :: local_map
  bs_pending :: "rc_session list list"
  bs_conns :: "(string, addr_connection) btree"
  bs_connecting :: "string set"

definition state_new :: "nat \<Rightarrow> rc_state" where
  "state_new nic_count = \<lparr>bs_registered = [], bs_pending = replicate nic_count [], bs_conns = [], bs_connecting = {}\<rparr>"

definition num_qps :: "rc_state \<Rightarrow> nat" where
  "num_qps st = sum_list (map (length \<circ> cn_sessions) (concat (map (ac_nics \<circ> snd) (bs_conns st))))"

fun remove_pending_by_qpn :: "u32 \<Rightarrow> rc_session list \<Rightarrow> rc_session list \<times> rc_session option" where
  "remove_pending_by_qpn qpn [] = ([], None)"
| "remove_pending_by_qpn qpn (s # ss) =
     (if ep_qpn (se_local s) = qpn then (ss, Some s)
      else let (ss', x) = remove_pending_by_qpn qpn ss in (s # ss', x))"

record rc_backend =
  rb_runtimes :: "rc_runtime list"
  rb_psn :: u64
  rb_rr :: numa_rr
  rb_qps :: nat
  rb_state :: rc_state

fun open_all :: "verbs_lib \<Rightarrow> os_env \<Rightarrow> string list \<Rightarrow> rc_runtime list tres" where
  "open_all lib os [] = Inr []"
| "open_all lib os (nic_name # names) =
     (if trim nic_name = [] then Inl (InvalidArgument ''nic_name is empty'')
      else and_then (runtime_open lib os nic_name) (\<lambda>rt. and_then (open_all lib os names) (\<lambda>rts. Inr (rt # rts))))"

definition backend_new :: "verbs_lib \<Rightarrow> os_env \<Rightarrow> string list \<Rightarrow> nat \<Rightarrow> rc_backend tres" where
  "backend_new lib os nic_names qps_per_peer =
     (if nic_names = [] then Inl (InvalidArgument ''nic_names is empty'')
      else if qps_per_peer = 0 then Inl (InvalidArgument ''qps_per_peer must be > 0'')
      else and_then (open_all lib os nic_names) (\<lambda>runtimes.
        Inr \<lparr>rb_runtimes = runtimes, rb_psn = 1, rb_rr = rr_from_runtimes (map rt_numa runtimes), rb_qps = qps_per_peer,
          rb_state = state_new (length runtimes)\<rparr>))"

section \<open>Registration\<close>

text \<open>\<open>reg i\<close> is what registering with the protection domain of NIC \<open>i\<close> returns.\<close>

fun reg_all :: "string \<Rightarrow> (nat \<Rightarrow> string + verbs_mr) \<Rightarrow> nat \<Rightarrow> rc_runtime list \<Rightarrow> verbs_mr list tres" where
  "reg_all kind reg i [] = Inr []"
| "reg_all kind reg i (rt # rts) =
     and_then (map_err (\<lambda>e. Backend (kind @ '' MR registration failed on nic='' @ rt_name rt @ '': '' @ e)) (reg i)) (\<lambda>mr.
       and_then (reg_all kind reg (Suc i) rts) (\<lambda>mrs. Inr (mr # mrs)))"

definition register_with ::
    "string \<Rightarrow> (nat \<Rightarrow> string + verbs_mr) \<Rightarrow> u64 \<Rightarrow> u64 \<Rightarrow> numa_node \<Rightarrow> rc_backend \<Rightarrow> (rc_backend \<times> region_desc tres) outcome" where
  "register_with kind reg addr len numa b =
     (if len = 0 then Some (b, Inl (InvalidArgument ''len must be non-zero''))
      else case reg_all kind reg 0 (rb_runtimes b) of
          Inl e \<Rightarrow> Some (b, Inl e)
        | Inr mrs \<Rightarrow> do {
            x \<leftarrow> map_insert \<lparr>me_base = addr, me_len = len, me_numa = numa, me_mrs = mrs\<rparr> (bs_registered (rb_state b));
            Some (case x of
                Inl e \<Rightarrow> (b, Inl e)
              | Inr m \<Rightarrow> (b\<lparr>rb_state := (rb_state b)\<lparr>bs_registered := m\<rparr>\<rparr>,
                  Inr \<lparr>rd_addr = addr, rd_len = len, rd_rkeys = map vm_rkey mrs\<rparr>))
          })"

definition register_host ::
    "os_env \<Rightarrow> (u64 \<Rightarrow> u64 \<Rightarrow> nat \<Rightarrow> string + verbs_mr) \<Rightarrow> u64 \<Rightarrow> u64 \<Rightarrow> rc_backend \<Rightarrow> (rc_backend \<times> region_desc tres) outcome" where
  "register_host os reg_mr addr len b = do {
     numa \<leftarrow> index (query_pages_numa os [addr]) 0;
     register_with ''host'' (reg_mr addr len) addr len numa b
   }"

definition register_dmabuf ::
    "(u64 \<Rightarrow> u64 \<Rightarrow> u64 \<Rightarrow> int \<Rightarrow> nat \<Rightarrow> string + verbs_mr) \<Rightarrow> u64 \<Rightarrow> u64 \<Rightarrow> int \<Rightarrow> u64 \<Rightarrow> numa_node \<Rightarrow> rc_backend \<Rightarrow>
     (rc_backend \<times> region_desc tres) outcome" where
  "register_dmabuf reg_dmabuf_mr addr len fd offset numa b =
     register_with ''dmabuf'' (reg_dmabuf_mr offset len addr fd) addr len numa b"

definition unregister :: "u64 \<Rightarrow> rc_state \<Rightarrow> rc_state \<times> unit tres" where
  "unregister addr st = (let (m, removed) = map_remove addr (bs_registered st) in
     (st\<lparr>bs_registered := m\<rparr>, if removed = None then Inl (MemoryNotRegistered addr) else Inr ()))"

section \<open>Preparing a handshake\<close>

definition show_transfer_error :: "transfer_error \<Rightarrow> string" where
  "show_transfer_error e = (case e of
      InvalidArgument s \<Rightarrow> ''invalid argument: '' @ s
    | MemoryNotRegistered p \<Rightarrow> ''memory is not registered: ptr='' @ show_hex (unat p)
    | DeviceNotFound s \<Rightarrow> ''rdma device not found: '' @ s
    | AddressResolution s \<Rightarrow> ''address resolution failed: '' @ s
    | Backend s \<Rightarrow> ''backend error: '' @ s
    | Unimplemented s \<Rightarrow> ''unimplemented: '' @ s)"

definition creation_error :: "rc_runtime \<Rightarrow> nat \<Rightarrow> transfer_error \<Rightarrow> transfer_error" where
  "creation_error rt qp_idx e = Backend (''QP creation failed on nic='' @ rt_name rt @ '' qp_idx='' @ show_nat qp_idx @ '': '' @
     show_transfer_error e)"

text \<open>The first number is the PSN counter, which advances also when a creation fails.\<close>

fun create_qps :: "qp_driver \<Rightarrow> rc_runtime \<Rightarrow> nat list \<Rightarrow> u64 \<Rightarrow> u64 \<times> rc_session list tres" where
  "create_qps drv rt [] psn = (psn, Inr [])"
| "create_qps drv rt (i # is) psn = (case session_create drv rt psn of
      Inl e \<Rightarrow> (psn + 1, Inl (creation_error rt i e))
    | Inr s \<Rightarrow> (case create_qps drv rt is (psn + 1) of (psn', x) \<Rightarrow> (psn', and_then x (\<lambda>ss. Inr (s # ss)))))"

fun create_all :: "qp_driver \<Rightarrow> nat \<Rightarrow> rc_runtime list \<Rightarrow> u64 \<Rightarrow> u64 \<times> rc_session list list tres" where
  "create_all drv qps [] psn = (psn, Inr [])"
| "create_all drv qps (rt # rts) psn = (case create_qps drv rt [0..<qps] psn of
      (psn', Inl e) \<Rightarrow> (psn', Inl e)
    | (psn', Inr ss) \<Rightarrow> (case create_all drv qps rts psn' of (psn'', x) \<Rightarrow> (psn'', and_then x (\<lambda>sss. Inr (ss # sss)))))"

text \<open>The critical section of \<open>prepare_handshake\<close>: the new sessions join the pending ones of their NIC.\<close>

definition queue_sessions :: "rc_session list list \<Rightarrow> rc_state \<Rightarrow> rc_state" where
  "queue_sessions sess st = st\<lparr>bs_pending := map2 (@) (bs_pending st) sess\<rparr>"

definition endpoints :: "rc_session list list \<Rightarrow> nic_handshake list" where
  "endpoints sess = map (map se_local) sess"

definition prepare_handshake :: "qp_driver \<Rightarrow> rc_backend \<Rightarrow> rc_backend \<times> nic_handshake list tres" where
  "prepare_handshake drv b = (case create_all drv (rb_qps b) (rb_runtimes b) (rb_psn b) of
      (psn, Inl e) \<Rightarrow> (b\<lparr>rb_psn := psn\<rparr>, Inl e)
    | (psn, Inr sess) \<Rightarrow> (b\<lparr>rb_psn := psn, rb_state := queue_sessions sess (rb_state b)\<rparr>, Inr (endpoints sess)))"

datatype get_or_prepare_result = Existing | AlreadyConnecting | NeedHandshake "nic_handshake list"

text \<open>The first critical section of \<open>get_or_prepare\<close>; \<open>None\<close>: this call has to prepare.\<close>

definition prepare_begin :: "string \<Rightarrow> rc_state \<Rightarrow> rc_state \<times> get_or_prepare_result option" where
  "prepare_begin a st =
     (if bt_get (bs_conns st) a \<noteq> None then (st, Some Existing)
      else if a \<in> bs_connecting st then (st, Some AlreadyConnecting)
      else (st\<lparr>bs_connecting := insert a (bs_connecting st)\<rparr>, None))"

definition remove_connecting :: "string \<Rightarrow> rc_state \<Rightarrow> rc_state outcome" where
  "remove_connecting a st = (if a \<in> bs_connecting st then Some (st\<lparr>bs_connecting := bs_connecting st - {a}\<rparr>) else panic)"

definition get_or_prepare :: "qp_driver \<Rightarrow> string \<Rightarrow> rc_backend \<Rightarrow> (rc_backend \<times> get_or_prepare_result tres) outcome" where
  "get_or_prepare drv a b = (case prepare_begin a (rb_state b) of
      (st, Some r) \<Rightarrow> Some (b, Inr r)
    | (st, None) \<Rightarrow> (case prepare_handshake drv (b\<lparr>rb_state := st\<rparr>) of
        (b', Inr nics) \<Rightarrow> Some (b', Inr (NeedHandshake nics))
      | (b', Inl e) \<Rightarrow> do {
          st' \<leftarrow> remove_connecting a (rb_state b');
          Some (b'\<lparr>rb_state := st'\<rparr>, Inl e)
        }))"

section \<open>Completing a handshake\<close>

definition check_remote :: "nat \<Rightarrow> nat \<Rightarrow> nic_handshake list \<Rightarrow> unit tres" where
  "check_remote nic_count qps remote =
     (if length remote \<noteq> nic_count then Inl (InvalidArgument ''remote NIC count mismatch in handshake'')
      else case find (\<lambda>(i, eps). length eps \<noteq> qps) (enumerate 0 remote) of
          Some (i, eps) \<Rightarrow> Inl (Backend (''remote qps_per_peer mismatch on nic='' @ show_nat i @ '': local='' @ show_nat qps @
            '', remote='' @ show_nat (length eps)))
        | None \<Rightarrow> Inr ())"

definition discard_eps :: "nic_handshake \<Rightarrow> rc_session list \<Rightarrow> rc_session list" where
  "discard_eps eps p = fold (\<lambda>ep p. fst (remove_pending_by_qpn (ep_qpn ep) p)) eps p"

fun discard_nics :: "nic_handshake list \<Rightarrow> rc_session list list \<Rightarrow> rc_session list list outcome" where
  "discard_nics [] ps = Some ps"
| "discard_nics (eps # nics) [] = (if eps = [] then discard_nics nics [] else panic)"
| "discard_nics (eps # nics) (p # ps) = do {
     ps' \<leftarrow> discard_nics nics ps;
     Some (discard_eps eps p # ps')
   }"

fun take_eps :: "nic_handshake \<Rightarrow> rc_session list \<Rightarrow> rc_session list \<times> rc_session list tres" where
  "take_eps [] p = (p, Inr [])"
| "take_eps (ep # eps) p = (case remove_pending_by_qpn (ep_qpn ep) p of
      (p', None) \<Rightarrow> (p', Inl (Backend ''no pending session to complete''))
    | (p', Some s) \<Rightarrow> (case take_eps eps p' of (p'', x) \<Rightarrow> (p'', and_then x (\<lambda>ss. Inr (s # ss)))))"

text \<open>A NIC for which no endpoints are given has no session in the result.\<close>

fun take_nics :: "nic_handshake list \<Rightarrow> rc_session list list \<Rightarrow> (rc_session list list \<times> rc_session list list tres) outcome" where
  "take_nics [] ps = Some (ps, Inr (replicate (length ps) []))"
| "take_nics (eps # nics) [] = (if eps = [] then take_nics nics [] else panic)"
| "take_nics (eps # nics) (p # ps) = (case take_eps eps p of
      (p', Inl e) \<Rightarrow> Some (p' # ps, Inl e)
    | (p', Inr ss) \<Rightarrow> do {
        (ps', x) \<leftarrow> take_nics nics ps;
        Some (p' # ps', and_then x (\<lambda>sss. Inr (ss # sss)))
      })"

text \<open>The first critical section of \<open>complete_handshake_for\<close>; \<open>None\<close>: another path has connected the peer.\<close>

definition complete_take :: "string \<Rightarrow> nic_handshake list \<Rightarrow> rc_state \<Rightarrow> (rc_state \<times> rc_session list list option tres) outcome" where
  "complete_take a local_nics st =
     (if bt_get (bs_conns st) a \<noteq> None then do {
        ps \<leftarrow> discard_nics local_nics (bs_pending st);
        Some (st\<lparr>bs_pending := ps, bs_connecting := bs_connecting st - {a}\<rparr>, Inr None)
      } else do {
        (ps, x) \<leftarrow> take_nics local_nics (bs_pending st);
        Some (st\<lparr>bs_pending := ps\<rparr>, and_then x (\<lambda>sess. Inr (Some sess)))
      })"

fun connect_qps :: "qp_driver \<Rightarrow> rc_runtime \<Rightarrow> rc_session list \<Rightarrow> rc_endpoint list \<Rightarrow> rc_session list tres outcome" where
  "connect_qps drv rt [] eps = Some (Inr [])"
| "connect_qps drv rt (s # ss) [] = panic"
| "connect_qps drv rt (s # ss) (ep # eps) = (case session_connect drv rt s ep of
      Inl e \<Rightarrow> Some (Inl e)
    | Inr s' \<Rightarrow> do {
        x \<leftarrow> connect_qps drv rt ss eps;
        Some (and_then x (\<lambda>ss'. Inr (s' # ss')))
      })"

fun connect_nics :: "qp_driver \<Rightarrow> rc_runtime list \<Rightarrow> rc_session list list \<Rightarrow> nic_handshake list \<Rightarrow> rc_session list list tres outcome" where
  "connect_nics drv rts [] remote = Some (Inr [])"
| "connect_nics drv (rt # rts) (ss # sss) (eps # remote) = do {
     x \<leftarrow> connect_qps drv rt ss eps;
     case x of
       Inl e \<Rightarrow> Some (Inl e)
     | Inr ss' \<Rightarrow> do {
         y \<leftarrow> connect_nics drv rts sss remote;
         Some (and_then y (\<lambda>sss'. Inr (ss' # sss')))
       }
   }"
| "connect_nics drv rts (ss # sss) remote = panic"

definition complete_install :: "string \<Rightarrow> nic_handshake list \<Rightarrow> rc_session list list \<Rightarrow> rc_state \<Rightarrow> rc_state outcome" where
  "complete_install a local_nics sess st = do {
     st' \<leftarrow> remove_connecting a st;
     Some (st'\<lparr>bs_conns := bt_insert (bs_conns st') a
       \<lparr>ac_nics = map (\<lambda>ss. \<lparr>cn_sessions = ss, cn_rr = 0\<rparr>) sess, ac_local = local_nics\<rparr>\<rparr>)
   }"

definition complete_handshake_for ::
    "qp_driver \<Rightarrow> string \<Rightarrow> nic_handshake list \<Rightarrow> nic_handshake list \<Rightarrow> rc_backend \<Rightarrow> (rc_backend \<times> unit tres) outcome" where
  "complete_handshake_for drv a local_nics remote_nics b =
     (case check_remote (length (rb_runtimes b)) (rb_qps b) remote_nics of
        Inl e \<Rightarrow> Some (b, Inl e)
      | Inr _ \<Rightarrow> do {
          (st, x) \<leftarrow> complete_take a local_nics (rb_state b);
          let b' = b\<lparr>rb_state := st\<rparr>;
          case x of
            Inl e \<Rightarrow> Some (b', Inl e)
          | Inr None \<Rightarrow> Some (b', Inr ())
          | Inr (Some sess) \<Rightarrow> do {
              y \<leftarrow> connect_nics drv (rb_runtimes b) sess remote_nics;
              case y of
                Inl e \<Rightarrow> Some (b', Inl e)
              | Inr sess' \<Rightarrow> do {
                  st' \<leftarrow> complete_install a local_nics sess' st;
                  Some (b\<lparr>rb_state := st'\<rparr>, Inr ())
                }
            }
        })"

definition abort_handshake :: "string \<Rightarrow> nic_handshake list \<Rightarrow> rc_state \<Rightarrow> rc_state outcome" where
  "abort_handshake a local_nics st = do {
     st' \<leftarrow> remove_connecting a st;
     ps \<leftarrow> discard_nics local_nics (bs_pending st');
     Some (st'\<lparr>bs_pending := ps\<rparr>)
   }"

definition local_meta_for_addr :: "string \<Rightarrow> rc_state \<Rightarrow> nic_handshake list option" where
  "local_meta_for_addr a st = map_option ac_local (bt_get (bs_conns st) a)"

definition invalidate_connection :: "string \<Rightarrow> rc_state \<Rightarrow> rc_state" where
  "invalidate_connection a st = st\<lparr>bs_conns := bt_remove (bs_conns st) a\<rparr>"

section \<open>A batch on a connection\<close>

text \<open>The critical section: the sessions of the connection with their rotation, which advances.\<close>

definition batch_begin :: "string \<Rightarrow> rc_state \<Rightarrow> rc_state \<times> (local_map \<times> (rc_session list \<times> u64) list) tres" where
  "batch_begin a st = (case bt_get (bs_conns st) a of
      None \<Rightarrow> (st, Inl (Backend (''no connection for remote addr '' @ a)))
    | Some c \<Rightarrow>
        (st\<lparr>bs_conns := bt_insert (bs_conns st) a (c\<lparr>ac_nics := map (\<lambda>n. n\<lparr>cn_rr := cn_rr n + 1\<rparr>) (ac_nics c)\<rparr>)\<rparr>,
         Inr (bs_registered st, map (\<lambda>n. (cn_sessions n, cn_rr n)) (ac_nics c))))"

text \<open>
  Handing the work to the workers; \<open>alive\<close> tells whether the worker of a session still receives.
  The first list is what was sent.
\<close>

fun submit :: "(rc_session \<Rightarrow> bool) \<Rightarrow> (rc_session \<times> rdma_op list) list \<Rightarrow> (rc_session \<times> rdma_op list) list \<times> unit tres" where
  "submit alive [] = ([], Inr ())"
| "submit alive (w # ws) =
     (if \<not> alive (fst w) then ([], Inl (Backend ''session worker channel disconnected''))
      else case submit alive ws of (sent, x) \<Rightarrow> (w # sent, x))"

definition batch_transfer_async ::
    "(rc_session \<Rightarrow> bool) \<Rightarrow> string \<Rightarrow> transfer_desc list \<Rightarrow> rc_backend \<Rightarrow>
     (rc_backend \<times> (rc_session \<times> rdma_op list) list \<times> unit tres) outcome" where
  "batch_transfer_async alive a descs b =
     (if descs = [] then Some (b, [], Inr ())
      else case batch_begin a (rb_state b) of
          (st, Inl e) \<Rightarrow> Some (b, [], Inl e)
        | (st, Inr (registered, conn)) \<Rightarrow> do {
            (rr, x) \<leftarrow> plan_batch (length (rb_runtimes b)) registered conn descs (rb_rr b);
            let b' = b\<lparr>rb_state := st, rb_rr := rr\<rparr>;
            Some (b', case x of Inl e \<Rightarrow> ([], Inl e) | Inr work \<Rightarrow> submit alive work)
          })"

section \<open>The engine\<close>

text \<open>
  \<open>TransferEngine\<close> passes its calls to the backend; only the result of \<open>get_or_prepare\<close> is put
  into other constructors. Metadata and descriptors are exchanged as bytes, and \<open>decode\<close> is the
  decoder of the serialization library: the value and the number of bytes it consumed.
\<close>

datatype connection_status = StatusExisting | StatusConnecting | StatusPrepared "nic_handshake list"

definition engine_get_or_prepare :: "qp_driver \<Rightarrow> string \<Rightarrow> rc_backend \<Rightarrow> (rc_backend \<times> connection_status tres) outcome" where
  "engine_get_or_prepare drv a b = do {
     (b', x) \<leftarrow> get_or_prepare drv a b;
     Some (b', and_then x (\<lambda>r. Inr (case r of
         Existing \<Rightarrow> StatusExisting
       | AlreadyConnecting \<Rightarrow> StatusConnecting
       | NeedHandshake nics \<Rightarrow> StatusPrepared nics)))
   }"

definition region_from_bytes :: "(bytes \<Rightarrow> (region_desc \<times> nat) option) \<Rightarrow> bytes \<Rightarrow> region_desc tres" where
  "region_from_bytes decode bs = (case decode bs of
      None \<Rightarrow> Inl (InvalidArgument ''invalid region descriptor'')
    | Some (d, consumed) \<Rightarrow>
        if consumed \<noteq> length bs then Inl (InvalidArgument ''trailing bytes in region descriptor'') else Inr d)"

definition handshake_from_bytes :: "(bytes \<Rightarrow> (nic_handshake list \<times> nat) option) \<Rightarrow> bytes \<Rightarrow> nic_handshake list tres" where
  "handshake_from_bytes decode bs = (case decode bs of
      None \<Rightarrow> Inl (InvalidArgument ''invalid handshake metadata'')
    | Some (nics, consumed) \<Rightarrow>
        if consumed \<noteq> length bs then Inl (InvalidArgument ''trailing bytes in handshake metadata'') else Inr nics)"

text \<open>With a decoder that reads back what was encoded and stops there, exactly the encodings are accepted.\<close>

lemma handshake_bytes_exact:
  assumes "\<And>x rest. decode (encode x @ rest) = Some (x, length (encode x))"
    and "\<And>bs x k. decode bs = Some (x, k) \<Longrightarrow> k \<le> length bs \<and> take k bs = encode x"
  shows "handshake_from_bytes decode bs = Inr x \<longleftrightarrow> bs = encode x"
  using assms(1)[of x "[]"] assms(2)[of bs] by (auto simp: handshake_from_bytes_def split: option.splits)

lemma region_bytes_exact:
  assumes "\<And>x rest. decode (encode x @ rest) = Some (x, length (encode x))"
    and "\<And>bs x k. decode bs = Some (x, k) \<Longrightarrow> k \<le> length bs \<and> take k bs = encode x"
  shows "region_from_bytes decode bs = Inr x \<longleftrightarrow> bs = encode x"
  using assms(1)[of x "[]"] assms(2)[of bs] by (auto simp: region_from_bytes_def split: option.splits)

end
