(* ===== verification/Pega_Rdma_Handshake.thy ===== *)
theory Pega_Rdma_Handshake
  imports Pega_Rdma_Backend
begin

text \<open>
  Handshakes with any number of peers at the same time. The steps are the critical sections
  of the backend, in the order the engine documents for a caller: \<open>get_or_prepare\<close>, then
  \<open>complete_handshake\<close> with the metadata it returned, and \<open>abort_handshake\<close> if that failed. The
  invariant says which queue pairs each peer holds and that the pending queues hold exactly
  those of the handshakes that were offered.
\<close>

section \<open>Taking sessions out of the pending queues\<close>

abbreviation qpn :: "rc_session \<Rightarrow> u32" where
  "qpn s \<equiv> ep_qpn (se_local s)"

definition strike_eps :: "nic_handshake \<Rightarrow> rc_session list \<Rightarrow> rc_session list" where
  "strike_eps eps p = filter (\<lambda>s. qpn s \<notin> ep_qpn ` set eps) p"

definition strike :: "nic_handshake list \<Rightarrow> rc_session list list \<Rightarrow> rc_session list list" where
  "strike nics ps = map2 strike_eps nics ps"

lemma remove_pending_eq:
  "distinct (map qpn p) \<Longrightarrow> remove_pending_by_qpn q p = (filter (\<lambda>s. qpn s \<noteq> q) p, find (\<lambda>s. qpn s = q) p)"
proof (induction p)
  case (Cons s p)
  have "filter (\<lambda>x. qpn x \<noteq> qpn s) p = p" using Cons.prems by (auto simp: filter_id_conv intro: rev_image_eqI)
  with Cons show ?case by auto
qed simp

lemma distinct_strike: "distinct (map qpn p) \<Longrightarrow> distinct (map qpn (strike_eps eps p))"
  by (simp add: strike_eps_def distinct_map inj_on_def)

lemma strike_Cons: "strike_eps (ep # eps) p = strike_eps eps (filter (\<lambda>s. qpn s \<noteq> ep_qpn ep) p)"
  by (auto simp: strike_eps_def intro: filter_cong)

lemma discard_eps_strike: "distinct (map qpn p) \<Longrightarrow> discard_eps eps p = strike_eps eps p"
proof (induction eps arbitrary: p)
  case (Cons ep eps)
  have d: "distinct (map qpn (filter (\<lambda>s. qpn s \<noteq> ep_qpn ep) p))" using Cons.prems by (simp add: distinct_map inj_on_def)
  from Cons.IH[OF d] Cons.prems show ?case by (simp add: discard_eps_def remove_pending_eq strike_Cons)
qed (simp add: discard_eps_def strike_eps_def)

lemma take_eps_strike:
  assumes "distinct (map qpn p)" "distinct (map ep_qpn eps)" "set eps \<subseteq> se_local ` set p"
  shows "\<exists>ss. take_eps eps p = (strike_eps eps p, Inr ss) \<and> map se_local ss = eps \<and> set ss \<subseteq> set p"
  using assms
proof (induction eps arbitrary: p)
  case Nil
  then show ?case by (simp add: strike_eps_def)
next
  case (Cons ep eps)
  let ?p = "filter (\<lambda>s. qpn s \<noteq> ep_qpn ep) p"
  obtain s where s: "s \<in> set p" "se_local s = ep" using Cons.prems(3) by auto
  have uniq: "x = s" if "x \<in> set p" "qpn x = ep_qpn ep" for x
    using that s Cons.prems(1) by (auto simp: distinct_map inj_on_def)
  have f: "find (\<lambda>x. qpn x = ep_qpn ep) p = Some s"
  proof (cases "find (\<lambda>x. qpn x = ep_qpn ep) p")
    case None
    with s show ?thesis by (auto simp: find_None_iff)
  next
    case (Some x)
    with uniq[of x] show ?thesis by (auto dest: find_SomeD)
  qed
  have d: "distinct (map qpn ?p)" using Cons.prems(1) by (simp add: distinct_map inj_on_def)
  have sub: "set eps \<subseteq> se_local ` set ?p" 
  proof
    fix e
    assume e: "e \<in> set eps"
    then have "ep_qpn e \<noteq> ep_qpn ep" using Cons.prems(2) by (auto simp: rev_image_eqI)
    moreover obtain x where "x \<in> set p" "se_local x = e" using e Cons.prems(3) by auto
    ultimately show "e \<in> se_local ` set ?p" by (auto intro!: rev_image_eqI[of x])
  qed
  obtain ss where "take_eps eps ?p = (strike_eps eps ?p, Inr ss)" "map se_local ss = eps" "set ss \<subseteq> set ?p"
    using Cons.IH[OF d _ sub] Cons.prems(2) by auto
  with f s Cons.prems(1) show ?case
    by (intro exI[of _ "s # ss"]) (auto simp: remove_pending_eq strike_Cons and_then_def)
qed

lemma discard_nics_strike:
  "length nics = length ps \<Longrightarrow> \<forall>p \<in> set ps. distinct (map qpn p) \<Longrightarrow> discard_nics nics ps = Some (strike nics ps)"
  by (induction nics ps rule: list_induct2) (simp_all add: strike_def discard_eps_strike)

lemma take_nics_strike:
  assumes "length nics = length ps" "\<forall>p \<in> set ps. distinct (map qpn p)" "\<forall>eps \<in> set nics. distinct (map ep_qpn eps)"
    and "\<forall>j < length ps. set (nics ! j) \<subseteq> se_local ` set (ps ! j)"
  shows "\<exists>sess. take_nics nics ps = Some (strike nics ps, Inr sess) \<and> endpoints sess = nics \<and> list_all2 (\<lambda>ss p. set ss \<subseteq> set p) sess ps"
  using assms
proof (induction nics ps rule: list_induct2)
  case Nil
  then show ?case by (simp add: strike_def endpoints_def)
next
  case (Cons eps nics p ps)
  have 0: "set eps \<subseteq> se_local ` set p" using Cons.prems(3)[rule_format, of 0] by simp
  have "set (nics ! j) \<subseteq> se_local ` set (ps ! j)" if "j < length ps" for j
    using Cons.prems(3)[rule_format, of "Suc j"] that by simp
  then have rest: "\<forall>j < length ps. set (nics ! j) \<subseteq> se_local ` set (ps ! j)" by simp
  obtain ss where "take_eps eps p = (strike_eps eps p, Inr ss)" "map se_local ss = eps" "set ss \<subseteq> set p"
    using take_eps_strike[OF _ _ 0] Cons.prems(1,2) by auto
  moreover obtain sess where "take_nics nics ps = Some (strike nics ps, Inr sess)" "endpoints sess = nics" "list_all2 (\<lambda>ss p. set ss \<subseteq> set p) sess ps"
    using Cons.IH[OF _ _ rest] Cons.prems(1,2) by auto
  ultimately show ?case by (intro exI[of _ "ss # sess"]) (simp add: strike_def endpoints_def and_then_def)
qed

section \<open>Steps\<close>

text \<open>
  How far the handshake with a peer is: its address is reserved, its queue pairs are pending
  and their endpoints given to the caller, they are taken out to be connected, or that failed.
\<close>

datatype hs_phase =
    Begun
  | Offered "nic_handshake list"
  | Taken "nic_handshake list" "rc_session list list"
  | Failed "nic_handshake list"

fun phase_nics :: "hs_phase \<Rightarrow> nic_handshake list option" where
  "phase_nics Begun = None"
| "phase_nics (Offered nics) = Some nics"
| "phase_nics (Taken nics sess) = Some nics"
| "phase_nics (Failed nics) = Some nics"

type_synonym hs_world = "rc_state \<times> (string \<rightharpoonup> hs_phase)"

text \<open>The endpoints of the queue pairs that are kept for a peer.\<close>

definition held :: "hs_world \<Rightarrow> string \<Rightarrow> nic_handshake list option" where
  "held w a = (case snd w a of Some p \<Rightarrow> phase_nics p | None \<Rightarrow> map_option ac_local (bt_get (bs_conns (fst w)) a))"

definition shape :: "nat \<Rightarrow> nat \<Rightarrow> nic_handshake list \<Rightarrow> bool" where
  "shape n q nics \<longleftrightarrow> length nics = n \<and> (\<forall>eps \<in> set nics. length eps = q \<and> distinct (map ep_qpn eps))"

definition apart :: "nat \<Rightarrow> nic_handshake list \<Rightarrow> nic_handshake list \<Rightarrow> bool" where
  "apart n x y \<longleftrightarrow> (\<forall>j < n. ep_qpn ` set (x ! j) \<inter> ep_qpn ` set (y ! j) = {})"

text \<open>
  New sessions: \<open>q\<close> per NIC, not connected, and their numbers are not in use on the NIC. The
  numbers of a handshake that has failed count as in use until it is aborted.
\<close>

definition fresh_sessions :: "nat \<Rightarrow> nat \<Rightarrow> hs_world \<Rightarrow> rc_session list list \<Rightarrow> bool" where
  "fresh_sessions n q w sess \<longleftrightarrow> shape n q (endpoints sess) \<and> (\<forall>ss \<in> set sess. \<forall>s \<in> set ss. se_qp s = QpInit) \<and>
     (\<forall>a nics. held w a = Some nics \<longrightarrow> apart n nics (endpoints sess))"

definition is_rts :: "rc_session \<Rightarrow> bool" where
  "is_rts s \<longleftrightarrow> se_qp s \<noteq> QpInit"

inductive hs_step :: "nat \<Rightarrow> nat \<Rightarrow> hs_world \<Rightarrow> hs_world \<Rightarrow> bool" for n q where
  begin_prep: "prepare_begin a st = (st', r) \<Longrightarrow> hs_step n q (st, ph) (st', if r = None then ph(a \<mapsto> Begun) else ph)"
| offer: "ph a = Some Begun \<Longrightarrow> fresh_sessions n q (st, ph) sess \<Longrightarrow>
    hs_step n q (st, ph) (queue_sessions sess st, ph(a \<mapsto> Offered (endpoints sess)))"
| refuse: "ph a = Some Begun \<Longrightarrow> remove_connecting a st = Some st' \<Longrightarrow> hs_step n q (st, ph) (st', ph(a := None))"
| take_out: "ph a = Some (Offered nics) \<Longrightarrow> complete_take a nics st = Some (st', x) \<Longrightarrow>
    hs_step n q (st, ph) (st', ph(a := (case x of Inl _ \<Rightarrow> Some (Failed nics) | Inr None \<Rightarrow> None | Inr (Some sess) \<Rightarrow> Some (Taken nics sess))))"
| install: "ph a = Some (Taken nics sess) \<Longrightarrow> endpoints sess' = endpoints sess \<Longrightarrow> \<forall>ss \<in> set sess'. \<forall>s \<in> set ss. is_rts s \<Longrightarrow>
    complete_install a nics sess' st = Some st' \<Longrightarrow> hs_step n q (st, ph) (st', ph(a := None))"
| lose: "ph a = Some (Taken nics sess) \<Longrightarrow> hs_step n q (st, ph) (st, ph(a \<mapsto> Failed nics))"
| abort: "ph a = Some (Offered nics) \<or> ph a = Some (Failed nics) \<Longrightarrow> abort_handshake a nics st = Some st' \<Longrightarrow>
    hs_step n q (st, ph) (st', ph(a := None))"
| invalidate: "hs_step n q (st, ph) (invalidate_connection a st, ph)"
| registered: "length (me_mrs e) = n \<Longrightarrow> map_insert e (bs_registered st) = Some (Inr m) \<Longrightarrow>
    hs_step n q (st, ph) (st\<lparr>bs_registered := m\<rparr>, ph)"
| unregistered: "hs_step n q (st, ph) (fst (unregister addr st), ph)"
| batch_begun: "batch_begin a st = (st', x) \<Longrightarrow> hs_step n q (st, ph) (st', ph)"

section \<open>Invariant\<close>

definition held_ok :: "nat \<Rightarrow> nat \<Rightarrow> (string \<rightharpoonup> nic_handshake list) \<Rightarrow> bool" where
  "held_ok n q h \<longleftrightarrow> (\<forall>a nics. h a = Some nics \<longrightarrow> shape n q nics) \<and>
     (\<forall>a b x y. h a = Some x \<longrightarrow> h b = Some y \<longrightarrow> a \<noteq> b \<longrightarrow> apart n x y)"

definition pending_ok :: "nat \<Rightarrow> rc_session list list \<Rightarrow> (string \<rightharpoonup> hs_phase) \<Rightarrow> bool" where
  "pending_ok n ps ph \<longleftrightarrow> length ps = n \<and> (\<forall>j < n. distinct (map qpn (ps ! j)) \<and> (\<forall>s \<in> set (ps ! j). se_qp s = QpInit) \<and>
     (\<forall>ep. ep \<in> se_local ` set (ps ! j) \<longleftrightarrow> (\<exists>a nics. ph a = Some (Offered nics) \<and> ep \<in> set (nics ! j))))"

definition conn_ok :: "addr_connection \<Rightarrow> bool" where
  "conn_ok c \<longleftrightarrow> endpoints (map cn_sessions (ac_nics c)) = ac_local c \<and> (\<forall>cn \<in> set (ac_nics c). \<forall>s \<in> set (cn_sessions cn). is_rts s)"

definition hs_inv :: "nat \<Rightarrow> nat \<Rightarrow> hs_world \<Rightarrow> bool" where
  "hs_inv n q = (\<lambda>(st, ph). bt_inv (bs_conns st) \<and> bs_connecting st = dom ph \<and> (\<forall>a \<in> dom ph. bt_get (bs_conns st) a = None) \<and>
     held_ok n q (held (st, ph)) \<and> pending_ok n (bs_pending st) ph \<and>
     (\<forall>a c. bt_get (bs_conns st) a = Some c \<longrightarrow> conn_ok c) \<and>
     (\<forall>a nics sess. ph a = Some (Taken nics sess) \<longrightarrow> endpoints sess = nics) \<and> entries_ok n (bs_registered st))"

lemma hs_start: "hs_inv n q (state_new n, Map.empty)"
  by (simp add: hs_inv_def state_new_def bt_inv_def held_ok_def held_def pending_ok_def entries_ok_def map_ok_def)

lemma held_ok_le: "held_ok n q h \<Longrightarrow> h' \<subseteq>\<^sub>m h \<Longrightarrow> held_ok n q h'"
  unfolding held_ok_def map_le_def by (metis domI)

lemma held_ok_insert:
  assumes "held_ok n q h" "shape n q x" "\<And>b y. h b = Some y \<Longrightarrow> apart n y x"
  shows "held_ok n q (h(a \<mapsto> x))"
proof -
  have "apart n x y" if "h b = Some y" for b y using assms(3)[OF that] by (auto simp: apart_def)
  with assms show ?thesis by (auto simp: held_ok_def)
qed

lemma length_strike [simp]: "length nics = length ps \<Longrightarrow> length (strike nics ps) = length ps"
  by (simp add: strike_def)

lemma nth_strike [simp]: "length nics = length ps \<Longrightarrow> j < length ps \<Longrightarrow> strike nics ps ! j = strike_eps (nics ! j) (ps ! j)"
  by (simp add: strike_def)

text \<open>Striking the sessions of one peer leaves those of the others.\<close>

lemma pending_strike:
  assumes "pending_ok n ps ph" "held_ok n q (held (st, ph))" "held (st, ph) a = Some nics" "\<And>x. r \<noteq> Some (Offered x)"
    and "ph a = Some (Offered nics) \<or> ph a = Some (Failed nics)"
  shows "pending_ok n (strike nics ps) (ph(a := r))"
proof -
  have len: "length ps = n" "length nics = n" using assms(1-3) by (auto simp: pending_ok_def held_ok_def shape_def)
  have "(ep \<in> se_local ` set (strike_eps (nics ! j) (ps ! j))) \<longleftrightarrow> (\<exists>b x. (ph(a := r)) b = Some (Offered x) \<and> ep \<in> set (x ! j))"
    if j: "j < n" for j ep
  proof -
    have "ep \<in> se_local ` set (strike_eps (nics ! j) (ps ! j)) \<longleftrightarrow> ep \<in> se_local ` set (ps ! j) \<and> ep_qpn ep \<notin> ep_qpn ` set (nics ! j)"
      by (auto simp: strike_eps_def)
    also have "\<dots> \<longleftrightarrow> (\<exists>b x. ph b = Some (Offered x) \<and> ep \<in> set (x ! j)) \<and> ep_qpn ep \<notin> ep_qpn ` set (nics ! j)"
      using assms(1) j by (simp add: pending_ok_def)
    also have "\<dots> \<longleftrightarrow> (\<exists>b x. (ph(a := r)) b = Some (Offered x) \<and> ep \<in> set (x ! j))"
    proof -
      have "ep_qpn ep \<notin> ep_qpn ` set (nics ! j)" if b: "b \<noteq> a" "ph b = Some (Offered x)" "ep \<in> set (x ! j)" for b x
      proof -
        have "held (st, ph) b = Some x" using b(2) by (simp add: held_def)
        then have "apart n x nics" using assms(2,3) b(1) unfolding held_ok_def by blast
        with j b(3) show ?thesis by (auto simp: apart_def)
      qed
      moreover have "b \<noteq> a" if "ph b = Some (Offered x)" "ep \<in> set (x ! j)" "ep_qpn ep \<notin> ep_qpn ` set (nics ! j)" for b x
        using that assms(5) by auto
      moreover have "(ph(a := r)) b = Some (Offered x) \<longleftrightarrow> b \<noteq> a \<and> ph b = Some (Offered x)" for b x
        using assms(4)[of x] by simp
      ultimately show ?thesis by blast
    qed
    finally show ?thesis .
  qed
  moreover have "distinct (map qpn (strike_eps (nics ! j) (ps ! j)))" "\<forall>s \<in> set (strike_eps (nics ! j) (ps ! j)). se_qp s = QpInit"
    if "j < n" for j using assms(1) that by (simp add: pending_ok_def distinct_strike, simp add: pending_ok_def strike_eps_def)
  ultimately show ?thesis using len by (simp add: pending_ok_def)
qed

lemma pending_frame:
  "pending_ok n ps ph \<Longrightarrow> (\<And>b x. ph' b = Some (Offered x) \<longleftrightarrow> ph b = Some (Offered x)) \<Longrightarrow> pending_ok n ps ph'"
  by (simp add: pending_ok_def)

lemma pending_distinct: "pending_ok n ps ph \<Longrightarrow> \<forall>p \<in> set ps. distinct (map qpn p)"
  by (auto simp: pending_ok_def in_set_conv_nth)

lemma hs_inv_held_ok: "hs_inv n q w \<Longrightarrow> held_ok n q (held w)"
  by (cases w) (simp add: hs_inv_def)

lemma hs_invD:
  assumes "hs_inv n q (st, ph)"
  shows "bt_inv (bs_conns st)" "bs_connecting st = dom ph" "pending_ok n (bs_pending st) ph" "entries_ok n (bs_registered st)"
    and "\<And>a p. ph a = Some p \<Longrightarrow> bt_get (bs_conns st) a = None"
    and "\<And>a c. bt_get (bs_conns st) a = Some c \<Longrightarrow> conn_ok c"
    and "\<And>a nics sess. ph a = Some (Taken nics sess) \<Longrightarrow> endpoints sess = nics"
  using assms by (auto simp: hs_inv_def)

lemma hs_invI:
  assumes "bt_inv (bs_conns st)" "bs_connecting st = dom ph" "pending_ok n (bs_pending st) ph" "entries_ok n (bs_registered st)"
    and "\<And>a p. ph a = Some p \<Longrightarrow> bt_get (bs_conns st) a = None"
    and "\<And>a c. bt_get (bs_conns st) a = Some c \<Longrightarrow> conn_ok c"
    and "\<And>a nics sess. ph a = Some (Taken nics sess) \<Longrightarrow> endpoints sess = nics"
    and "held_ok n q (held (st, ph))"
  shows "hs_inv n q (st, ph)"
  using assms by (auto simp: hs_inv_def)

lemma hs_inv_held: "hs_inv n q (st, ph) \<Longrightarrow> held (st, ph) a = Some nics \<Longrightarrow> shape n q nics"
  by (auto simp: hs_inv_def held_ok_def)

text \<open>A handshake that was offered finds its sessions, whatever ran since.\<close>

lemma take_offered:
  assumes "hs_inv n q (st, ph)" "ph a = Some (Offered nics)"
  shows "\<exists>sess. complete_take a nics st = Some (st\<lparr>bs_pending := strike nics (bs_pending st)\<rparr>, Inr (Some sess)) \<and> endpoints sess = nics \<and>
    (\<forall>ss \<in> set sess. \<forall>s \<in> set ss. se_qp s = QpInit)"
proof -
  have ok: "pending_ok n (bs_pending st) ph" "bt_get (bs_conns st) a = None" using assms by (auto simp: hs_inv_def)
  have "held (st, ph) a = Some nics" using assms(2) by (simp add: held_def)
  from hs_inv_held[OF assms(1) this] have sh: "length nics = n" "\<forall>eps \<in> set nics. distinct (map ep_qpn eps)" by (auto simp: shape_def)
  have len: "length nics = length (bs_pending st)" using ok(1) sh(1) by (simp add: pending_ok_def)
  have "\<forall>j < length (bs_pending st). set (nics ! j) \<subseteq> se_local ` set (bs_pending st ! j)"
    using ok(1) assms(2) unfolding pending_ok_def by blast
  from take_nics_strike[OF len pending_distinct[OF ok(1)] sh(2) this] obtain sess where
    t: "take_nics nics (bs_pending st) = Some (strike nics (bs_pending st), Inr sess)" "endpoints sess = nics"
    "list_all2 (\<lambda>ss p. set ss \<subseteq> set p) sess (bs_pending st)" by blast
  have "se_qp s = QpInit" if "ss \<in> set sess" "s \<in> set ss" for ss s
    using that t(3) ok(1) unfolding pending_ok_def list_all2_conv_all_nth in_set_conv_nth[of ss] by (metis subsetD)
  with t ok(2) show ?thesis by (simp add: complete_take_def and_then_def)
qed

lemma abort_effect:
  assumes "hs_inv n q (st, ph)" "ph a = Some (Offered nics) \<or> ph a = Some (Failed nics)"
  shows "abort_handshake a nics st = Some (st\<lparr>bs_connecting := bs_connecting st - {a}, bs_pending := strike nics (bs_pending st)\<rparr>)"
proof -
  have ok: "pending_ok n (bs_pending st) ph" "a \<in> bs_connecting st" using assms by (auto simp: hs_inv_def)
  have "held (st, ph) a = Some nics" using assms(2) by (auto simp: held_def)
  from hs_inv_held[OF assms(1) this] have "length nics = length (bs_pending st)" using ok(1) by (auto simp: shape_def pending_ok_def)
  from discard_nics_strike[OF this pending_distinct[OF ok(1)]] ok(2) show ?thesis
    by (simp add: abort_handshake_def remove_connecting_def)
qed

lemma step_begin:
  assumes "hs_inv n q (st, ph)" "prepare_begin a st = (st', r)"
  shows "hs_inv n q (st', if r = None then ph(a \<mapsto> Begun) else ph)"
proof (cases "r = None")
  case True
  then have st: "st' = st\<lparr>bs_connecting := insert a (bs_connecting st)\<rparr>" "bt_get (bs_conns st) a = None" "a \<notin> bs_connecting st"
    using assms(2) by (auto simp: prepare_begin_def split: if_splits)
  have "ph a = None" using st(3) assms(1) by (auto simp: hs_inv_def)
  then have "held (st', ph(a \<mapsto> Begun)) = held (st, ph)" using st by (auto simp: held_def fun_eq_iff split: option.splits)
  moreover have "pending_ok n (bs_pending st) (ph(a \<mapsto> Begun))"
    by (rule pending_frame[OF hs_invD(3)[OF assms(1)]]) (use \<open>ph a = None\<close> in auto)
  ultimately show ?thesis using assms(1) st True by (auto simp: hs_inv_def)
next
  case False
  with assms show ?thesis by (auto simp: prepare_begin_def split: if_splits)
qed

lemma step_refuse:
  assumes "hs_inv n q (st, ph)" "ph a = Some Begun" "remove_connecting a st = Some st'"
  shows "hs_inv n q (st', ph(a := None))"
proof -
  have st: "st' = st\<lparr>bs_connecting := bs_connecting st - {a}\<rparr>" using assms(3) by (auto simp: remove_connecting_def split: if_splits)
  have none: "bt_get (bs_conns st) a = None" using assms(1,2) by (auto simp: hs_inv_def)
  then have "held (st', ph(a := None)) = held (st, ph)" using st assms(2) by (auto simp: held_def fun_eq_iff split: option.splits)
  moreover have "pending_ok n (bs_pending st) (ph(a := None))"
    by (rule pending_frame[OF hs_invD(3)[OF assms(1)]]) (use assms(2) in auto)
  ultimately show ?thesis using assms(1) st by (auto simp: hs_inv_def)
qed

lemma queue_pending:
  assumes "pending_ok n ps ph" "shape n q (endpoints sess)" "\<forall>ss \<in> set sess. \<forall>s \<in> set ss. se_qp s = QpInit"
    and "\<And>b x. ph b = Some (Offered x) \<Longrightarrow> apart n x (endpoints sess)" "ph a = Some Begun"
  shows "pending_ok n (map2 (@) ps sess) (ph(a \<mapsto> Offered (endpoints sess)))"
proof -
  have len: "length ps = n" "length sess = n" using assms(1,2) by (auto simp: pending_ok_def shape_def endpoints_def)
  have "distinct (map qpn (ps ! j @ sess ! j))" if j: "j < n" for j
  proof -
    have "distinct (map ep_qpn (endpoints sess ! j))" using assms(2) j by (auto simp: shape_def)
    then have "distinct (map qpn (sess ! j))" using j len by (simp add: endpoints_def comp_def)
    moreover have "qpn s \<noteq> qpn s'" if "s \<in> set (ps ! j)" "s' \<in> set (sess ! j)" for s s'
    proof -
      have "se_local s \<in> se_local ` set (ps ! j)" using that(1) by simp
      then obtain b x where "ph b = Some (Offered x)" "se_local s \<in> set (x ! j)" using assms(1) j unfolding pending_ok_def by blast
      with assms(4) j have "qpn s \<notin> ep_qpn ` set (endpoints sess ! j)" by (force simp: apart_def)
      moreover have "se_local s' \<in> set (endpoints sess ! j)" using that(2) j len by (simp add: endpoints_def)
      ultimately show ?thesis by force
    qed
    ultimately show ?thesis using assms(1) j by (auto simp: pending_ok_def)
  qed
  moreover have "(ep \<in> se_local ` set (ps ! j @ sess ! j)) \<longleftrightarrow>
    (\<exists>b x. (ph(a \<mapsto> Offered (endpoints sess))) b = Some (Offered x) \<and> ep \<in> set (x ! j))" if j: "j < n" for j ep
  proof -
    have "ep \<in> se_local ` set (ps ! j) \<longleftrightarrow> (\<exists>b x. ph b = Some (Offered x) \<and> ep \<in> set (x ! j))" using assms(1) j by (simp add: pending_ok_def)
    moreover have "se_local ` set (sess ! j) = set (endpoints sess ! j)" using j len by (simp add: endpoints_def)
    moreover have "(ph(a \<mapsto> Offered (endpoints sess))) b = Some (Offered x) \<longleftrightarrow> b = a \<and> x = endpoints sess \<or> ph b = Some (Offered x)" for b x
      using assms(5) by auto
    ultimately show ?thesis by (simp add: image_Un) blast
  qed
  ultimately show ?thesis using assms(1,3) len by (auto simp: pending_ok_def)
qed

lemma step_offer:
  assumes "hs_inv n q (st, ph)" "ph a = Some Begun" "fresh_sessions n q (st, ph) sess"
  shows "hs_inv n q (queue_sessions sess st, ph(a \<mapsto> Offered (endpoints sess)))"
proof -
  let ?w = "(queue_sessions sess st, ph(a \<mapsto> Offered (endpoints sess)))"
  have "held ?w = (held (st, ph))(a \<mapsto> endpoints sess)" by (auto simp: held_def queue_sessions_def fun_eq_iff split: option.splits)
  moreover have "held_ok n q ((held (st, ph))(a \<mapsto> endpoints sess))"
    using assms(1,3) by (intro held_ok_insert) (auto simp: hs_inv_def fresh_sessions_def)
  moreover have "pending_ok n (map2 (@) (bs_pending st) sess) (ph(a \<mapsto> Offered (endpoints sess)))"
  proof (rule queue_pending)
    show "apart n x (endpoints sess)" if "ph b = Some (Offered x)" for b x
    proof -
      have "held (st, ph) b = Some x" using that by (simp add: held_def)
      with assms(3) show ?thesis unfolding fresh_sessions_def by blast
    qed
  qed (use assms in \<open>auto simp: hs_inv_def fresh_sessions_def\<close>)
  ultimately show ?thesis using assms(1,2) by (auto simp: hs_inv_def queue_sessions_def)
qed

lemma step_take:
  assumes "hs_inv n q (st, ph)" "ph a = Some (Offered nics)" "complete_take a nics st = Some (st', x)"
  shows "hs_inv n q (st', ph(a := (case x of Inl _ \<Rightarrow> Some (Failed nics) | Inr None \<Rightarrow> None | Inr (Some sess) \<Rightarrow> Some (Taken nics sess))))"
proof -
  obtain sess where sess: "st' = st\<lparr>bs_pending := strike nics (bs_pending st)\<rparr>" "x = Inr (Some sess)" "endpoints sess = nics"
    using take_offered[OF assms(1,2)] assms(3) by auto
  let ?ph = "ph(a \<mapsto> Taken nics sess)"
  have h: "held (st, ph) a = Some nics" using assms(2) by (simp add: held_def)
  have "held (st', ?ph) = held (st, ph)" using sess(1) assms(2) by (auto simp: held_def fun_eq_iff split: option.splits)
  moreover have "pending_ok n (strike nics (bs_pending st)) ?ph"
    using assms(1,2) by (intro pending_strike[OF _ _ h]) (auto simp: hs_inv_def)
  ultimately show ?thesis using assms(1,2) sess by (auto simp: hs_inv_def)
qed

lemma step_lose:
  assumes "hs_inv n q (st, ph)" "ph a = Some (Taken nics sess)"
  shows "hs_inv n q (st, ph(a \<mapsto> Failed nics))"
proof -
  have "held (st, ph(a \<mapsto> Failed nics)) = held (st, ph)" using assms(2) by (auto simp: held_def fun_eq_iff split: option.splits)
  moreover have "pending_ok n (bs_pending st) (ph(a \<mapsto> Failed nics))"
    by (rule pending_frame[OF hs_invD(3)[OF assms(1)]]) (use assms(2) in auto)
  ultimately show ?thesis using assms(1) assms(2) by (auto simp: hs_inv_def)
qed

lemma step_install:
  assumes "hs_inv n q (st, ph)" "ph a = Some (Taken nics sess)" "endpoints sess' = endpoints sess"
    and "\<forall>ss \<in> set sess'. \<forall>s \<in> set ss. is_rts s" "complete_install a nics sess' st = Some st'"
  shows "hs_inv n q (st', ph(a := None))"
proof -
  let ?c = "\<lparr>ac_nics = map (\<lambda>ss. \<lparr>cn_sessions = ss, cn_rr = 0\<rparr>) sess', ac_local = nics\<rparr>"
  have st: "st' = st\<lparr>bs_connecting := bs_connecting st - {a}, bs_conns := bt_insert (bs_conns st) a ?c\<rparr>"
    using assms(5) by (auto simp: complete_install_def remove_connecting_def split: if_splits)
  have bt: "bt_inv (bs_conns st)" using assms(1) by (simp add: hs_inv_def)
  have get: "bt_get (bs_conns st') b = (if b = a then Some ?c else bt_get (bs_conns st) b)" for b
    using bt by (simp add: st bt.get_insert)
  have "held (st', ph(a := None)) = held (st, ph)" using assms(2) by (auto simp: held_def get fun_eq_iff split: option.splits)
  then have h: "held_ok n q (held (st', ph(a := None)))" using hs_inv_held_ok[OF assms(1)] by simp
  have p: "pending_ok n (bs_pending st) (ph(a := None))"
    by (rule pending_frame[OF hs_invD(3)[OF assms(1)]]) (use assms(2) in auto)
  have c: "conn_ok ?c" using hs_invD(7)[OF assms(1,2)] assms(3,4) by (simp add: conn_ok_def comp_def)
  show ?thesis
  proof (rule hs_invI)
    show "bt_inv (bs_conns st')" using bt by (simp add: st bt.inv_insert)
    show "bs_connecting st' = dom (ph(a := None))" using hs_invD(2)[OF assms(1)] by (simp add: st)
    show "pending_ok n (bs_pending st') (ph(a := None))" using p by (simp add: st)
    show "entries_ok n (bs_registered st')" using hs_invD(4)[OF assms(1)] by (simp add: st)
  next
    fix b x
    assume "(ph(a := None)) b = Some x"
    then show "bt_get (bs_conns st') b = None" using hs_invD(5)[OF assms(1), of b x] by (simp add: get split: if_splits)
  next
    fix b x
    assume "bt_get (bs_conns st') b = Some x"
    then show "conn_ok x" using hs_invD(6)[OF assms(1), of b x] c by (simp add: get split: if_splits)
  next
    fix b x y
    assume "(ph(a := None)) b = Some (Taken x y)"
    then show "endpoints y = x" using hs_invD(7)[OF assms(1), of b x y] by (simp split: if_splits)
  qed (rule h)
qed

lemma step_abort:
  assumes "hs_inv n q (st, ph)" "ph a = Some (Offered nics) \<or> ph a = Some (Failed nics)" "abort_handshake a nics st = Some st'"
  shows "hs_inv n q (st', ph(a := None))"
proof -
  have st: "st' = st\<lparr>bs_connecting := bs_connecting st - {a}, bs_pending := strike nics (bs_pending st)\<rparr>"
    using abort_effect[OF assms(1,2)] assms(3) by simp
  have h: "held (st, ph) a = Some nics" using assms(2) by (auto simp: held_def)
  have none: "bt_get (bs_conns st) a = None" using assms(1,2) by (auto simp: hs_inv_def)
  have "held (st', ph(a := None)) \<subseteq>\<^sub>m held (st, ph)" using st none by (auto simp: held_def map_le_def split: option.splits)
  then have "held_ok n q (held (st', ph(a := None)))" using held_ok_le[OF hs_inv_held_ok[OF assms(1)]] by blast
  moreover have "pending_ok n (strike nics (bs_pending st)) (ph(a := None))"
    by (rule pending_strike[OF hs_invD(3)[OF assms(1)] hs_inv_held_ok[OF assms(1)] h _ assms(2)]) simp
  ultimately show ?thesis using assms(1) by (auto simp: hs_inv_def st)
qed

text \<open>A change of the connections that only drops some, or keeps what they hold.\<close>

lemma conns_changed:
  assumes "hs_inv n q (st, ph)" "bt_inv t"
    and "\<And>b c. bt_get t b = Some c \<Longrightarrow> conn_ok c \<and> (\<exists>c'. bt_get (bs_conns st) b = Some c' \<and> ac_local c' = ac_local c)"
  shows "hs_inv n q (st\<lparr>bs_conns := t\<rparr>, ph)"
proof -
  have "held (st, ph) b = Some y" if "held (st\<lparr>bs_conns := t\<rparr>, ph) b = Some y" for b y
    using that assms(3)[of b] by (cases "ph b") (auto simp: held_def)
  then have "held (st\<lparr>bs_conns := t\<rparr>, ph) \<subseteq>\<^sub>m held (st, ph)" by (auto simp: map_le_def)
  then have "held_ok n q (held (st\<lparr>bs_conns := t\<rparr>, ph))" using held_ok_le[OF hs_inv_held_ok[OF assms(1)]] by blast
  moreover have "bt_get t a = None" if "a \<in> dom ph" for a
    using assms(1) assms(3)[of a] that by (cases "bt_get t a") (auto simp: hs_inv_def)
  ultimately show ?thesis using assms by (auto simp: hs_inv_def)
qed

lemma step_batch:
  assumes "hs_inv n q (st, ph)" "batch_begin a st = (st', x)"
  shows "hs_inv n q (st', ph)"
proof (cases "bt_get (bs_conns st) a")
  case None
  with assms show ?thesis by (simp add: batch_begin_def)
next
  case (Some c)
  let ?c = "c\<lparr>ac_nics := map (\<lambda>n. n\<lparr>cn_rr := cn_rr n + 1\<rparr>) (ac_nics c)\<rparr>"
  have st: "st' = st\<lparr>bs_conns := bt_insert (bs_conns st) a ?c\<rparr>" using Some assms(2) by (simp add: batch_begin_def)
  note bt = hs_invD(1)[OF assms(1)]
  have "conn_ok ?c" using hs_invD(6)[OF assms(1) Some] by (simp add: conn_ok_def comp_def)
  then show ?thesis unfolding st
    using Some hs_invD(6)[OF assms(1)] bt
    by (intro conns_changed[OF assms(1)]) (auto simp: bt.inv_insert bt.get_insert split: if_splits)
qed

lemma entries_ok_insert:
  assumes "entries_ok n m" "length (me_mrs e) = n" "map_insert e m = Some (Inr m')"
  shows "entries_ok n m'"
proof -
  have ok: "map_ok m" using assms(1) by (simp add: entries_ok_def)
  have m': "admissible m e" "m' = bt_insert m (me_base e) e" using map_insert_exact[OF ok, of e] assms(3) by auto
  have "bt_get m' k = (if k = me_base e then Some e else bt_get m k)" for k
    using ok by (simp add: m' map_ok_def bt.get_insert)
  with assms(1,2) map_ok_insert[OF ok m'(1)] show ?thesis by (auto simp: entries_ok_def m'(2)[symmetric] split: if_splits)
qed

lemma step_registered:
  assumes "hs_inv n q (st, ph)" "entries_ok n m"
  shows "hs_inv n q (st\<lparr>bs_registered := m\<rparr>, ph)"
proof -
  have "held (st\<lparr>bs_registered := m\<rparr>, ph) = held (st, ph)" by (auto simp: held_def fun_eq_iff split: option.splits)
  with assms show ?thesis by (auto simp: hs_inv_def)
qed

theorem hs_step_inv: "hs_step n q w w' \<Longrightarrow> hs_inv n q w \<Longrightarrow> hs_inv n q w'"
proof (induction rule: hs_step.induct)
  case (invalidate st ph a)
  then show ?case unfolding invalidate_connection_def
    using hs_invD(1,6)[OF invalidate.prems]
    by (intro conns_changed) (auto simp: bt.inv_remove bt.get_remove split: if_splits)
next
  case (registered e st m ph)
  then show ?case using entries_ok_insert[OF hs_invD(4)[OF registered.prems] registered.hyps] by (intro step_registered)
next
  case (unregistered st ph addr)
  have "entries_ok n (bt_remove (bs_registered st) addr)"
    using hs_invD(4)[OF unregistered] map_ok_remove[of "bs_registered st" addr]
    by (auto simp: entries_ok_def map_remove_def map_ok_def bt.get_remove split: if_splits)
  with unregistered show ?case by (simp add: unregister_def map_remove_def step_registered)
qed (rule step_begin step_offer step_refuse step_take step_install step_lose step_abort step_batch; assumption)+

definition hs_run :: "nat \<Rightarrow> nat \<Rightarrow> hs_world \<Rightarrow> bool" where
  "hs_run n q w \<longleftrightarrow> (hs_step n q)\<^sup>*\<^sup>* (state_new n, Map.empty) w"

lemma hs_run_inv: "hs_run n q w \<Longrightarrow> hs_inv n q w"
  unfolding hs_run_def by (induction rule: rtranclp_induct) (auto simp: hs_start hs_step_inv)

end
