(* ===== verification/Pega_Rdma_Props.thy ===== *)
theory Pega_Rdma_Props
  imports Pega_Rdma_Handshake
begin

text \<open>
  What the handshake guarantees: an offered handshake always finds its queue pairs, no two
  peers share one, both ends agree on how they are paired, and on every connection that
  results a batch is spread completely. The whole operations are runs of the critical
  sections. The last part shows what goes wrong when the number of a queue pair is used again
  before a failed handshake is aborted.
\<close>

section \<open>Connecting\<close>

text \<open>What connecting to an endpoint sets up.\<close>

definition connected_to :: "rc_session \<Rightarrow> rc_endpoint \<Rightarrow> rc_session \<Rightarrow> bool" where
  "connected_to s ep s' \<longleftrightarrow> se_local s' = se_local s \<and> (\<exists>rtr rts. se_qp s' = QpRts rtr rts \<and> rtr_dest_qpn rtr = ep_qpn ep \<and>
     rtr_rq_psn rtr = ep_psn ep \<and> rts_sq_psn rts = ep_psn (se_local s))"

lemma session_connect_effect: "session_connect drv rt s ep = Inr s' \<Longrightarrow> connected_to s ep s'"
  by (auto simp: session_connect_def connected_to_def and_then_def map_err_def Let_def split: sum.splits)

lemma connect_qps_effect:
  "length ss = length eps \<Longrightarrow> \<exists>x. connect_qps drv rt ss eps = Some x \<and>
     (\<forall>ss'. x = Inr ss' \<longrightarrow> length ss' = length ss \<and> (\<forall>i < length ss. connected_to (ss ! i) (eps ! i) (ss' ! i)))"
proof (induction ss eps rule: list_induct2)
  case (Cons s ss ep eps)
  then obtain x where x: "connect_qps drv rt ss eps = Some x"
    "\<forall>ss'. x = Inr ss' \<longrightarrow> length ss' = length ss \<and> (\<forall>i < length ss. connected_to (ss ! i) (eps ! i) (ss' ! i))" by blast
  show ?case
  proof (cases "session_connect drv rt s ep")
    case (Inr s')
    then have "connected_to s ep s'" by (rule session_connect_effect)
    with Inr x show ?thesis by (cases x) (auto simp: and_then_def nth_Cons split: nat.splits)
  qed simp
qed simp

definition nics_connected :: "rc_session list list \<Rightarrow> nic_handshake list \<Rightarrow> rc_session list list \<Rightarrow> bool" where
  "nics_connected sss remote sss' \<longleftrightarrow> length sss' = length sss \<and> (\<forall>j < length sss. length (sss' ! j) = length (sss ! j) \<and>
     (\<forall>i < length (sss ! j). connected_to (sss ! j ! i) (remote ! j ! i) (sss' ! j ! i)))"

lemma connect_nics_effect:
  assumes "length rts = length sss" "length sss = length remote" "\<forall>j < length sss. length (sss ! j) = length (remote ! j)"
  shows "\<exists>x. connect_nics drv rts sss remote = Some x \<and> (\<forall>sss'. x = Inr sss' \<longrightarrow> nics_connected sss remote sss')"
  using assms
proof (induction rts sss remote rule: list_induct3)
  case (Cons rt rts ss sss eps remote)
  have len: "length ss = length eps" "\<forall>j < length sss. length (sss ! j) = length (remote ! j)"
    using Cons.prems[rule_format, of 0] Cons.prems[rule_format, of "Suc _"] by auto
  obtain x where x: "connect_qps drv rt ss eps = Some x"
    "\<forall>ss'. x = Inr ss' \<longrightarrow> length ss' = length ss \<and> (\<forall>i < length ss. connected_to (ss ! i) (eps ! i) (ss' ! i))"
    using connect_qps_effect[OF len(1)] by blast
  obtain y where y: "connect_nics drv rts sss remote = Some y" "\<forall>sss'. y = Inr sss' \<longrightarrow> nics_connected sss remote sss'"
    using Cons.IH[OF len(2)] by blast
  show ?case
  proof (cases x)
    case (Inr ss')
    with x y show ?thesis
      by (cases y) (auto simp: and_then_def nics_connected_def nth_Cons split: nat.splits)
  qed (use x in simp)
qed (simp add: nics_connected_def)

lemma nics_connected_endpoints:
  assumes "nics_connected sss remote sss'"
  shows "endpoints sss' = endpoints sss" "\<forall>ss \<in> set sss'. \<forall>s \<in> set ss. is_rts s"
proof -
  have len: "length sss' = length sss" "\<And>j. j < length sss \<Longrightarrow> length (sss' ! j) = length (sss ! j)"
    and con: "\<And>j i. j < length sss \<Longrightarrow> i < length (sss ! j) \<Longrightarrow> connected_to (sss ! j ! i) (remote ! j ! i) (sss' ! j ! i)"
    using assms by (auto simp: nics_connected_def)
  show "endpoints sss' = endpoints sss"
    unfolding endpoints_def using len con by (auto intro!: nth_equalityI simp: connected_to_def)
  show "\<forall>ss \<in> set sss'. \<forall>s \<in> set ss. is_rts s"
  proof (intro ballI)
    fix ss s
    assume "ss \<in> set sss'" "s \<in> set ss"
    then obtain j i where "j < length sss" "i < length (sss ! j)" "s = sss' ! j ! i" using len by (metis in_set_conv_nth)
    with con[of j i] show "is_rts s" by (auto simp: connected_to_def is_rts_def)
  qed
qed

lemma check_remote_ok: "check_remote n q remote = Inr u \<Longrightarrow> length remote = n \<and> (\<forall>j < n. length (remote ! j) = q)"
  by (auto simp: check_remote_def find_None_iff in_set_enumerate_eq split: if_splits option.splits)

section \<open>Operations are runs\<close>

abbreviation backend_inv :: "rc_backend \<Rightarrow> (string \<rightharpoonup> hs_phase) \<Rightarrow> bool" where
  "backend_inv b ph \<equiv> hs_inv (length (rb_runtimes b)) (rb_qps b) (rb_state b, ph)"

abbreviation backend_steps :: "rc_backend \<Rightarrow> hs_world \<Rightarrow> hs_world \<Rightarrow> bool" where
  "backend_steps b \<equiv> (hs_step (length (rb_runtimes b)) (rb_qps b))\<^sup>*\<^sup>*"

lemma complete_effect:
  assumes "backend_inv b ph" "ph a = Some (Offered nics)"
  shows "\<exists>b' r. complete_handshake_for drv a nics remote b = Some (b', r) \<and> rb_runtimes b' = rb_runtimes b \<and> rb_qps b' = rb_qps b \<and>
    (case r of
       Inl e \<Rightarrow> (\<exists>p \<in> {Offered nics, Failed nics}. backend_steps b (rb_state b, ph) (rb_state b', ph(a \<mapsto> p))) \<and>
         (check_remote (length (rb_runtimes b)) (rb_qps b) remote = Inl e \<or>
          (\<exists>sess. endpoints sess = nics \<and> connect_nics drv (rb_runtimes b) sess remote = Some (Inl e)))
     | Inr _ \<Rightarrow> (\<exists>sess sess'. endpoints sess = nics \<and> nics_connected sess remote sess' \<and>
         bt_get (bs_conns (rb_state b')) a = Some \<lparr>ac_nics = map (\<lambda>ss. \<lparr>cn_sessions = ss, cn_rr = 0\<rparr>) sess', ac_local = nics\<rparr> \<and>
         backend_steps b (rb_state b, ph) (rb_state b', ph(a := None))))"
proof (cases "check_remote (length (rb_runtimes b)) (rb_qps b) remote")
  case (Inl e)
  have "ph(a \<mapsto> Offered nics) = ph" using assms(2) by (simp add: fun_upd_idem)
  with Inl show ?thesis by (auto simp: complete_handshake_for_def)
next
  case (Inr u)
  let ?n = "length (rb_runtimes b)" and ?q = "rb_qps b" and ?st = "rb_state b"
  note rem = check_remote_ok[OF Inr]
  obtain sess where t: "complete_take a nics ?st = Some (?st\<lparr>bs_pending := strike nics (bs_pending ?st)\<rparr>, Inr (Some sess))" "endpoints sess = nics"
    using take_offered[OF assms] by blast
  let ?st1 = "?st\<lparr>bs_pending := strike nics (bs_pending ?st)\<rparr>" and ?ph1 = "ph(a \<mapsto> Taken nics sess)"
  have s1: "hs_step ?n ?q (?st, ph) (?st1, ?ph1)" using hs_step.take_out[of ph a nics, OF assms(2) t(1), of ?n ?q] by simp
  have "held (?st, ph) a = Some nics" using assms(2) by (simp add: held_def)
  from hs_inv_held[OF assms(1) this] t(2) have sh: "length sess = ?n" "\<And>j. j < ?n \<Longrightarrow> length (sess ! j) = ?q"
    by (auto simp: shape_def endpoints_def)
  obtain x where x: "connect_nics drv (rb_runtimes b) sess remote = Some x" "\<forall>sess'. x = Inr sess' \<longrightarrow> nics_connected sess remote sess'"
    using connect_nics_effect[of "rb_runtimes b" sess remote drv] sh rem by auto
  show ?thesis
  proof (cases x)
    case (Inl e)
    have "hs_step ?n ?q (?st1, ?ph1) (?st1, ?ph1(a \<mapsto> Failed nics))" by (rule hs_step.lose) simp
    with s1 have "backend_steps b (?st, ph) (?st1, ph(a \<mapsto> Failed nics))" by simp
    with Inl Inr t x(1) show ?thesis by (auto simp: complete_handshake_for_def)
  next
    case sess': (Inr sess')
    then have con: "nics_connected sess remote sess'" using x(2) by simp
    have inv1: "hs_inv ?n ?q (?st1, ?ph1)" by (rule hs_step_inv[OF s1 assms(1)])
    have mem: "a \<in> bs_connecting ?st1" using hs_invD(2)[OF inv1] by simp
    let ?c = "\<lparr>ac_nics = map (\<lambda>ss. \<lparr>cn_sessions = ss, cn_rr = 0\<rparr>) sess', ac_local = nics\<rparr>"
    let ?st2 = "?st1\<lparr>bs_connecting := bs_connecting ?st1 - {a}, bs_conns := bt_insert (bs_conns ?st1) a ?c\<rparr>"
    have i: "complete_install a nics sess' ?st1 = Some ?st2" using mem by (simp add: complete_install_def remove_connecting_def)
    have "hs_step ?n ?q (?st1, ?ph1) (?st2, ?ph1(a := None))"
      by (rule hs_step.install[OF _ _ _ i]) (use nics_connected_endpoints[OF con] in simp_all)
    with s1 have "backend_steps b (?st, ph) (?st2, ph(a := None))" by simp
    moreover have "bt_get (bs_conns ?st2) a = Some ?c" using hs_invD(1)[OF assms(1)] by (simp add: bt.get_insert)
    moreover have "complete_handshake_for drv a nics remote b = Some (b\<lparr>rb_state := ?st2\<rparr>, Inr ())"
      using Inr t(1) x(1) sess' i by (simp add: complete_handshake_for_def)
    ultimately show ?thesis using con t(2) by (intro exI[of _ "b\<lparr>rb_state := ?st2\<rparr>"] exI[of _ "Inr ()"]) auto
  qed
qed

lemma create_qps_shape:
  "create_qps drv rt is psn = (psn', Inr ss) \<Longrightarrow> length ss = length is \<and> (\<forall>s \<in> set ss. se_qp s = QpInit)"
proof (induction "is" arbitrary: psn psn' ss)
  case (Cons i "is")
  obtain s where s: "session_create drv rt psn = Inr s" using Cons.prems by (cases "session_create drv rt psn") auto
  then have "se_qp s = QpInit" by (auto simp: session_create_def and_then_def map_err_def split: sum.splits)
  moreover obtain p x where "create_qps drv rt is (psn + 1) = (p, x)" by fastforce
  ultimately show ?case using Cons s by (cases x) (auto simp: and_then_def)
qed simp

lemma create_all_shape:
  "create_all drv q rts psn = (psn', Inr sess) \<Longrightarrow> length sess = length rts \<and> (\<forall>ss \<in> set sess. length ss = q \<and> (\<forall>s \<in> set ss. se_qp s = QpInit))"
proof (induction rts arbitrary: psn psn' sess)
  case (Cons rt rts)
  obtain p ss where ss: "create_qps drv rt [0..<q] psn = (p, Inr ss)" using Cons.prems by (auto split: prod.splits sum.splits)
  moreover obtain p' x where "create_all drv q rts p = (p', x)" by fastforce
  ultimately show ?case using Cons create_qps_shape[OF ss] by (cases x) (auto simp: and_then_def)
qed simp

text \<open>
  The numbers of new queue pairs differ from each other and from those the peers hold: the
  device gives no number twice, and a failed handshake is aborted before its numbers return.
\<close>

definition numbers_fresh :: "qp_driver \<Rightarrow> rc_backend \<Rightarrow> (string \<rightharpoonup> hs_phase) \<Rightarrow> bool" where
  "numbers_fresh drv b ph \<longleftrightarrow> (\<forall>psn sess. create_all drv (rb_qps b) (rb_runtimes b) (rb_psn b) = (psn, Inr sess) \<longrightarrow>
     (\<forall>eps \<in> set (endpoints sess). distinct (map ep_qpn eps)) \<and>
     (\<forall>a nics. held (rb_state b, ph) a = Some nics \<longrightarrow> apart (length (rb_runtimes b)) nics (endpoints sess)))"

lemma prepare_effect:
  assumes "backend_inv b ph" "numbers_fresh drv b ph"
  shows "\<exists>b' r. get_or_prepare drv a b = Some (b', r) \<and> rb_runtimes b' = rb_runtimes b \<and> rb_qps b' = rb_qps b \<and>
    backend_steps b (rb_state b, ph) (rb_state b', case r of Inr (NeedHandshake nics) \<Rightarrow> ph(a \<mapsto> Offered nics) | _ \<Rightarrow> ph)"
proof -
  let ?n = "length (rb_runtimes b)" and ?q = "rb_qps b" and ?st = "rb_state b"
  obtain st r where p: "prepare_begin a ?st = (st, r)" by fastforce
  have s1: "hs_step ?n ?q (?st, ph) (st, if r = None then ph(a \<mapsto> Begun) else ph)" by (rule hs_step.begin_prep[OF p])
  show ?thesis
  proof (cases r)
    case (Some x)
    then have "st = ?st" "x = Existing \<or> x = AlreadyConnecting" using p by (auto simp: prepare_begin_def split: if_splits)
    with Some p show ?thesis by (auto simp: get_or_prepare_def)
  next
    case None
    then have st: "st = ?st\<lparr>bs_connecting := insert a (bs_connecting ?st)\<rparr>" "a \<notin> bs_connecting ?st" "bt_get (bs_conns ?st) a = None"
      using p by (auto simp: prepare_begin_def split: if_splits)
    have pha: "ph a = None" using st(2) hs_invD(2)[OF assms(1)] by auto
    obtain psn x where c: "create_all drv ?q (rb_runtimes b) (rb_psn b) = (psn, x)" by fastforce
    show ?thesis
    proof (cases x)
      case (Inl e)
      have r: "remove_connecting a st = Some ?st" using st by (simp add: remove_connecting_def)
      have "(ph(a \<mapsto> Begun))(a := None) = ph" using pha by auto
      then have "hs_step ?n ?q (st, ph(a \<mapsto> Begun)) (?st, ph)"
        using hs_step.refuse[of "ph(a \<mapsto> Begun)" a st ?st ?n ?q] r by simp
      with s1 None have "backend_steps b (?st, ph) (?st, ph)" by auto
      with None p c Inl r show ?thesis by (simp add: get_or_prepare_def prepare_handshake_def)
    next
      case (Inr sess)
      have "held (st, ph(a \<mapsto> Begun)) = held (?st, ph)" using st pha by (auto simp: held_def fun_eq_iff split: option.splits)
      then have "fresh_sessions ?n ?q (st, ph(a \<mapsto> Begun)) sess"
        using assms(2) c Inr create_all_shape[of drv ?q "rb_runtimes b" "rb_psn b" psn sess]
        by (auto simp: fresh_sessions_def numbers_fresh_def shape_def endpoints_def)
      then have "hs_step ?n ?q (st, ph(a \<mapsto> Begun)) (queue_sessions sess st, ph(a \<mapsto> Offered (endpoints sess)))"
        using hs_step.offer[of "ph(a \<mapsto> Begun)" a ?n ?q st sess] by simp
      with s1 None have "backend_steps b (?st, ph) (queue_sessions sess st, ph(a \<mapsto> Offered (endpoints sess)))" by auto
      with None p c Inr show ?thesis by (simp add: get_or_prepare_def prepare_handshake_def)
    qed
  qed
qed

section \<open>Properties of the handshake\<close>


text \<open>Two peers are connected to each other: each expects the number and the first packet of the other.\<close>

definition paired :: "rc_session \<Rightarrow> rc_session \<Rightarrow> bool" where
  "paired s t \<longleftrightarrow> (\<exists>rtr rts rtr' rts'. se_qp s = QpRts rtr rts \<and> se_qp t = QpRts rtr' rts' \<and>
     rtr_dest_qpn rtr = qpn t \<and> rtr_dest_qpn rtr' = qpn s \<and> rtr_rq_psn rtr = rts_sq_psn rts' \<and> rtr_rq_psn rtr' = rts_sq_psn rts)"

lemma connected_paired:
  "connected_to s (se_local t) s' \<Longrightarrow> connected_to t (se_local s) t' \<Longrightarrow> paired s' t'"
  by (auto simp: connected_to_def paired_def)

lemma nics_paired:
  assumes "nics_connected sa (endpoints sb) sa'" "nics_connected sb (endpoints sa) sb'" "length sa = length sb"
    and "\<And>j. j < length sa \<Longrightarrow> length (sa ! j) = length (sb ! j)"
  shows "list_all2 (list_all2 paired) sa' sb'"
proof -
  have "paired (sa' ! j ! i) (sb' ! j ! i)" if "j < length sa" "i < length (sa ! j)" for j i
  proof (rule connected_paired[of "sa ! j ! i" "sb ! j ! i"])
    have j: "endpoints sb ! j ! i = se_local (sb ! j ! i)" "endpoints sa ! j ! i = se_local (sa ! j ! i)"
      using that assms(3,4) by (simp_all add: endpoints_def)
    show "connected_to (sa ! j ! i) (se_local (sb ! j ! i)) (sa' ! j ! i)"
      using assms(1) that j(1) unfolding nics_connected_def by metis
    show "connected_to (sb ! j ! i) (se_local (sa ! j ! i)) (sb' ! j ! i)"
      using assms(2) that assms(3,4) j(2) unfolding nics_connected_def by metis
  qed
  with assms show ?thesis by (auto simp: list_all2_conv_all_nth nics_connected_def)
qed


lemma conn_shape:
  assumes "hs_inv n q (st, ph)" "bt_get (bs_conns st) a = Some c"
  shows "length (ac_nics c) = n" "\<forall>cn \<in> set (ac_nics c). length (cn_sessions cn) = q \<and> (\<forall>s \<in> set (cn_sessions cn). is_rts s)"
proof -
  have "ph a = None" using hs_invD(5)[OF assms(1), of a] assms(2) by (cases "ph a") auto
  then have "held (st, ph) a = Some (ac_local c)" using assms(2) by (simp add: held_def)
  then have sh: "shape n q (ac_local c)" by (rule hs_inv_held[OF assms(1)])
  have ok: "conn_ok c" by (rule hs_invD(6)[OF assms])
  then have eq: "ac_local c = map (\<lambda>cn. map se_local (cn_sessions cn)) (ac_nics c)" by (simp add: conn_ok_def endpoints_def comp_def)
  show "length (ac_nics c) = n" using sh by (simp add: shape_def eq)
  show "\<forall>cn \<in> set (ac_nics c). length (cn_sessions cn) = q \<and> (\<forall>s \<in> set (cn_sessions cn). is_rts s)"
    using sh ok by (simp add: shape_def eq conn_ok_def)
qed

lemma sum_sessions:
  "\<forall>cn \<in> set ns. length (cn_sessions cn) = q \<Longrightarrow> sum_list (map (length \<circ> cn_sessions) ns) = length ns * q"
  by (induction ns) auto

lemma num_qps_conns:
  "\<forall>(a, c) \<in> set cs. length (ac_nics c) = n \<and> (\<forall>cn \<in> set (ac_nics c). length (cn_sessions cn) = q) \<Longrightarrow>
   sum_list (map (length \<circ> cn_sessions) (concat (map (ac_nics \<circ> snd) cs))) = n * q * length cs"
  by (induction cs) (auto simp: sum_sessions)


section \<open>Batches on reachable backends\<close>

text \<open>
  A backend under any interleaving of critical sections and batches; the PSN counter is an
  atomic of its own.
\<close>

inductive rb_step :: "rc_backend \<times> (string \<rightharpoonup> hs_phase) \<Rightarrow> rc_backend \<times> (string \<rightharpoonup> hs_phase) \<Rightarrow> bool" where
  critical: "hs_step (length (rb_runtimes b)) (rb_qps b) (rb_state b, ph) (st', ph') \<Longrightarrow>
    rb_step (b, ph) (b\<lparr>rb_state := st', rb_psn := psn\<rparr>, ph')"
| batch: "batch_transfer_async alive a descs b = Some (b', sent, r) \<Longrightarrow> rb_step (b, ph) (b', ph)"

definition rb_inv :: "rc_backend \<times> (string \<rightharpoonup> hs_phase) \<Rightarrow> bool" where
  "rb_inv = (\<lambda>(b, ph). backend_inv b ph \<and> rr_ok (map rt_numa (rb_runtimes b)) (rb_rr b) \<and> 0 < rb_qps b)"

lemma open_all_length: "open_all lib os names = Inr rts \<Longrightarrow> length rts = length names"
  by (induction names arbitrary: rts) (auto simp: and_then_def split: if_splits sum.splits)

lemma backend_new_inv: "backend_new lib os names q = Inr b \<Longrightarrow> rb_inv (b, Map.empty)"
  using open_all_length[of lib os names]
  by (auto simp: backend_new_def rb_inv_def and_then_def hs_start intro!: rr_from_ok split: if_splits sum.splits)

text \<open>The sessions that a batch is given fit what the planning relies on.\<close>

lemma batch_begin_conn:
  assumes "rb_inv (b, ph)" "bt_get (bs_conns (rb_state b)) a = Some c"
  shows "\<exists>st. batch_begin a (rb_state b) = (st, Inr (bs_registered (rb_state b), map (\<lambda>n. (cn_sessions n, cn_rr n)) (ac_nics c))) \<and>
    backend_inv (b\<lparr>rb_state := st\<rparr>) ph \<and> length (map (\<lambda>n. (cn_sessions n, cn_rr n)) (ac_nics c)) = length (map rt_numa (rb_runtimes b)) \<and>
    (\<forall>sr \<in> set (map (\<lambda>n. (cn_sessions n, cn_rr n)) (ac_nics c)). fst sr \<noteq> [])"
proof -
  have inv: "backend_inv b ph" "0 < rb_qps b" using assms(1) by (auto simp: rb_inv_def)
  obtain st x where e: "batch_begin a (rb_state b) = (st, x)" by fastforce
  then have "x = Inr (bs_registered (rb_state b), map (\<lambda>n. (cn_sessions n, cn_rr n)) (ac_nics c))"
    using assms(2) by (auto simp: batch_begin_def)
  with e step_batch[OF inv(1) e] conn_shape[OF inv(1) assms(2)] inv(2) show ?thesis by auto
qed

lemma batch_plan_conn:
  assumes "rb_inv (b, ph)" "bt_get (bs_conns (rb_state b)) a = Some c"
  defines "nodes \<equiv> map rt_numa (rb_runtimes b)" and "m \<equiv> bs_registered (rb_state b)"
    and "conn \<equiv> map (\<lambda>n. (cn_sessions n, cn_rr n)) (ac_nics c)"
  shows "\<exists>rr' x. plan_batch (length nodes) m conn descs (rb_rr b) = Some (rr', x) \<and> rr_ok nodes rr' \<and> (case x of
      Inl _ \<Rightarrow> (\<exists>d \<in> set descs. unservable (length nodes) m d)
    | Inr work \<Rightarrow> (\<exists>as works. list_all2 (serves nodes m) descs as \<and> work = concat works \<and> length works = length nodes \<and>
        (\<forall>j < length nodes. work_ok (conn ! j) (ops_on j as) (works ! j))))"
proof (rule batch_plan_exact)
  show "entries_ok (length nodes) m" "rr_ok nodes (rb_rr b)"
    using assms(1) by (auto simp: rb_inv_def nodes_def m_def dest: hs_invD(4))
  show "length conn = length nodes" "\<forall>sr \<in> set conn. fst sr \<noteq> []"
    using batch_begin_conn[OF assms(1,2)] by (auto simp: nodes_def conn_def)
qed

lemma rb_step_inv: "rb_step w w' \<Longrightarrow> rb_inv w \<Longrightarrow> rb_inv w'"
proof (induction rule: rb_step.induct)
  case (critical b ph st' ph' psn)
  with hs_step_inv[OF critical.hyps] show ?case by (simp add: rb_inv_def)
next
  case (batch alive a descs b b' sent r ph)
  show ?case
  proof (cases "descs = [] \<or> bt_get (bs_conns (rb_state b)) a = None")
    case True
    then have "b' = b" using batch.hyps by (auto simp: batch_transfer_async_def batch_begin_def split: if_splits)
    with batch.prems show ?thesis by simp
  next
    case False
    then obtain c where c: "bt_get (bs_conns (rb_state b)) a = Some c" by auto
    from batch_begin_conn[OF batch.prems c] batch_plan_conn[OF batch.prems c, of descs] batch.hyps batch.prems False
    show ?thesis by (auto simp: batch_transfer_async_def rb_inv_def)
  qed
qed

lemma rb_run_inv: "backend_new lib os names q = Inr b0 \<Longrightarrow> rb_step\<^sup>*\<^sup>* (b0, Map.empty) w \<Longrightarrow> rb_inv w"
  by (erule rtranclp_induct) (auto simp: backend_new_inv rb_step_inv)

lemma submit_alive: "\<forall>w \<in> set ws. alive (fst w) \<Longrightarrow> submit alive ws = (ws, Inr ())"
  by (induction ws) auto

lemma mset_works:
  "\<forall>j < length works. mset (concat (map snd (works ! j))) = mset (ops j) \<Longrightarrow>
   mset (concat (map snd (concat works))) = (\<Sum>j < length works. mset (ops j))"
proof (induction works rule: rev_induct)
  case (snoc w works)
  have "\<forall>j < length works. mset (concat (map snd (works ! j))) = mset (ops j)"
    using snoc.prems by (metis length_append_singleton less_SucI nth_append)
  moreover have "mset (concat (map snd w)) = mset (ops (length works))"
    using snoc.prems[rule_format, of "length works"] by simp
  ultimately show ?case using snoc.IH by simp
qed simp

lemma mset_ops_on: "\<forall>a \<in> set as. fst a < n \<Longrightarrow> (\<Sum>j < n. mset (ops_on j as)) = mset (map snd as)"
proof (induction as)
  case (Cons a as)
  have "(\<Sum>j < n. mset (ops_on j (a # as))) = (\<Sum>j < n. (if j = fst a then {#snd a#} else {#}) + mset (ops_on j as))"
    by (rule sum.cong) (auto simp: ops_on_def)
  also have "\<dots> = {#snd a#} + (\<Sum>j < n. mset (ops_on j as))"
    using Cons.prems by (simp add: sum.distrib sum.delta)
  finally show ?case using Cons by simp
qed (simp add: ops_on_def)

lemma serves_bound: "list_all2 (serves nodes m) ds as \<Longrightarrow> \<forall>a \<in> set as. fst a < length nodes"
  by (induction rule: list_all2_induct) (auto simp: serves_def near_def)

lemma work_sessions:
  assumes "\<forall>j < length works. work_ok (conn ! j) (ops j) (works ! j)" "(s, os) \<in> set (concat works)"
  shows "\<exists>j < length works. s \<in> set (fst (conn ! j)) \<and> set os \<subseteq> set (ops j)"
proof -
  obtain w where "w \<in> set works" "(s, os) \<in> set w" using assms(2) by auto
  then obtain j where j: "j < length works" "(s, os) \<in> set (works ! j)" by (metis in_set_conv_nth)
  then have ok: "work_ok (conn ! j) (ops j) (works ! j)" using assms(1) by simp
  then have "mset (concat (map snd (works ! j))) = mset (ops j)" by (simp add: work_ok_def)
  then have "set (concat (map snd (works ! j))) = set (ops j)" by (metis set_mset_mset)
  moreover have "set os \<subseteq> set (concat (map snd (works ! j)))" using j(2) by force
  moreover have "s \<in> set (fst (conn ! j))" using ok j(2) by (auto simp: work_ok_def)
  ultimately show ?thesis using j(1) by blast
qed

text \<open>
  C7. On a backend that was opened and used in any interleaving of handshakes, aborts,
  invalidations, registrations and batches, a batch for a connected peer whose workers run
  does not panic. If some descriptor cannot be served, nothing is handed to a worker.
  Otherwise the operations handed out are, as a multiset, exactly one per descriptor, for the
  registration that covers it, with the keys of a NIC near that memory, and each session gets
  only operations of its own NIC.
\<close>

theorem batch_transfer_exact:
  assumes "backend_new lib os names q = Inr b0" "rb_step\<^sup>*\<^sup>* (b0, Map.empty) (b, ph)"
    and "bt_get (bs_conns (rb_state b)) a = Some c" "\<forall>cn \<in> set (ac_nics c). \<forall>s \<in> set (cn_sessions cn). alive s"
    and "nodes = map rt_numa (rb_runtimes b)" "m = bs_registered (rb_state b)"
  shows "\<exists>b' sent r. batch_transfer_async alive a descs b = Some (b', sent, r) \<and> (case r of
      Inl _ \<Rightarrow> sent = [] \<and> (\<exists>d \<in> set descs. unservable (length nodes) m d)
    | Inr _ \<Rightarrow> (\<exists>as. list_all2 (serves nodes m) descs as \<and> mset (concat (map snd sent)) = mset (map snd as) \<and>
        (\<forall>(s, ops) \<in> set sent. \<exists>j < length nodes. s \<in> set (cn_sessions (ac_nics c ! j)) \<and> set ops \<subseteq> set (ops_on j as))))"
proof (cases "descs = []")
  case True
  then show ?thesis by (simp add: batch_transfer_async_def)
next
  case False
  let ?conn = "map (\<lambda>n. (cn_sessions n, cn_rr n)) (ac_nics c)"
  have inv: "rb_inv (b, ph)" by (rule rb_run_inv[OF assms(1,2)])
  obtain st where st: "batch_begin a (rb_state b) = (st, Inr (m, ?conn))" "length ?conn = length nodes"
    using batch_begin_conn[OF inv assms(3)] by (auto simp: assms(5,6))
  obtain rr x where p: "plan_batch (length nodes) m ?conn descs (rb_rr b) = Some (rr, x)" "case x of
      Inl _ \<Rightarrow> (\<exists>d \<in> set descs. unservable (length nodes) m d)
    | Inr work \<Rightarrow> (\<exists>as works. list_all2 (serves nodes m) descs as \<and> work = concat works \<and> length works = length nodes \<and>
        (\<forall>j < length nodes. work_ok (?conn ! j) (ops_on j as) (works ! j)))"
    using batch_plan_conn[OF inv assms(3), of descs] unfolding assms(5,6) by blast
  have len: "length (rb_runtimes b) = length nodes" by (simp add: assms(5))
  show ?thesis
  proof (cases x)
    case (Inl e)
    with False st(1) p len show ?thesis by (simp add: batch_transfer_async_def)
  next
    case (Inr work)
    then obtain as works where w: "list_all2 (serves nodes m) descs as" "work = concat works" "length works = length nodes"
      "\<forall>j < length works. work_ok (?conn ! j) (ops_on j as) (works ! j)" using p(2) by auto
    have sess: "\<exists>j < length nodes. s \<in> set (cn_sessions (ac_nics c ! j)) \<and> set os \<subseteq> set (ops_on j as)" if so: "(s, os) \<in> set work" for s os
    proof -
      obtain j where j: "j < length works" "s \<in> set (fst (?conn ! j))" "set os \<subseteq> set (ops_on j as)"
        using work_sessions[OF w(4), of s os] so unfolding w(2) by blast
      then have "j < length (ac_nics c)" using st(2) w(3) by simp
      with j w(3) show ?thesis by auto
    qed
    have "alive (fst v)" if v: "v \<in> set work" for v
    proof -
      obtain j where "j < length nodes" "fst v \<in> set (cn_sessions (ac_nics c ! j))" using sess[of "fst v" "snd v"] v by auto
      moreover from this have "ac_nics c ! j \<in> set (ac_nics c)" using st(2) by simp
      ultimately show ?thesis using assms(4) by blast
    qed
    then have sub: "submit alive work = (work, Inr ())" by (intro submit_alive) simp
    from mset_ops_on[OF serves_bound[OF w(1)]] have "mset (concat (map snd work)) = mset (map snd as)"
      using mset_works[of works "\<lambda>j. ops_on j as"] w by (simp add: work_ok_def)
    then show ?thesis using False st(1) p(1) len Inr sub w(1) sess
      by (intro exI[of _ "b\<lparr>rb_state := st, rb_rr := rr\<rparr>"] exI[of _ work] exI[of _ "Inr ()"])
         (auto simp: batch_transfer_async_def)
  qed
qed

section \<open>Examples\<close>

definition ex_end :: "u32 \<Rightarrow> u32 \<Rightarrow> rc_endpoint" where
  "ex_end qp_num psn = \<lparr>ep_gid = [2], ep_lid = 0, ep_qpn = qp_num, ep_psn = psn\<rparr>"

definition ex_session :: "u64 \<Rightarrow> u32 \<Rightarrow> rc_session" where
  "ex_session seed qp_num = \<lparr>se_seed = seed, se_local = ex_end qp_num (ucast seed), se_qp = QpInit\<rparr>"

text \<open>A device on which every call succeeds; the queue pair of seed \<open>k\<close> has the number \<open>k + 6\<close>.\<close>

definition ex_drv :: qp_driver where
  "ex_drv = \<lparr>qd_cq = (\<lambda>_ _. Inr ()), qd_qp = (\<lambda>seed _ _. Inr (ucast seed + 6)), qd_modify = (\<lambda>_ _. Inr ()), qd_spawn = (\<lambda>_. Inr ())\<rparr>"

definition ex_rt :: rc_runtime where
  "ex_rt = \<lparr>rt_port = 2, rt_link = LinkEthernet, rt_lid = 0, rt_gid_index = 3, rt_mtu = 4096, rt_gid = [2],
     rt_numa = 1, rt_name = ''mlx5_0''\<rparr>"

definition ex_open :: "string \<Rightarrow> u64 \<Rightarrow> rc_backend" where
  "ex_open peer seed = \<lparr>rb_runtimes = [ex_rt], rb_psn = seed + 1, rb_rr = rr_from_runtimes [1], rb_qps = 1,
     rb_state = \<lparr>bs_registered = [], bs_pending = [[ex_session seed (ucast seed + 6)]], bs_conns = [], bs_connecting = {peer}\<rparr>\<rparr>"

definition ex_phase :: "string \<Rightarrow> u64 \<Rightarrow> (string \<rightharpoonup> hs_phase)" where
  "ex_phase peer seed = [peer \<mapsto> Offered [[ex_end (ucast seed + 6) (ucast seed)]]]"

lemma ex_offered: "hs_run 1 1 (rb_state (ex_open peer seed), ex_phase peer seed)"
proof -
  let ?st = "(state_new 1)\<lparr>bs_connecting := {peer}\<rparr>" and ?ss = "[[ex_session seed (ucast seed + 6)]]"
  have "prepare_begin peer (state_new 1) = (?st, None)" by (simp add: prepare_begin_def state_new_def)
  from hs_step.begin_prep[OF this, of 1 1 Map.empty] have 1: "hs_step 1 1 (state_new 1, Map.empty) (?st, [peer \<mapsto> Begun])" by simp
  have "fresh_sessions 1 1 (?st, [peer \<mapsto> Begun]) ?ss"
    by (auto simp: fresh_sessions_def shape_def endpoints_def ex_session_def held_def state_new_def split: if_splits)
  from hs_step.offer[OF _ this, of peer] have "hs_step 1 1 (?st, [peer \<mapsto> Begun]) (queue_sessions ?ss ?st, [peer \<mapsto> Offered (endpoints ?ss)])"
    by simp
  moreover have "queue_sessions ?ss ?st = rb_state (ex_open peer seed)" by (simp add: queue_sessions_def state_new_def ex_open_def)
  moreover have "[peer \<mapsto> Offered (endpoints ?ss)] = ex_phase peer seed" by (simp add: endpoints_def ex_session_def ex_phase_def)
  ultimately have "hs_step 1 1 (?st, [peer \<mapsto> Begun]) (rb_state (ex_open peer seed), ex_phase peer seed)" by simp
  with 1 show ?thesis unfolding hs_run_def by (meson rtranclp.rtrancl_into_rtrancl rtranclp.rtrancl_refl)
qed

text \<open>The connection that completing it leaves.\<close>

definition ex_conn :: "u64 \<Rightarrow> rc_endpoint \<Rightarrow> addr_connection" where
  "ex_conn seed remote = \<lparr>ac_nics = [\<lparr>cn_sessions = [(ex_session seed (ucast seed + 6))\<lparr>se_qp := QpRts
       \<lparr>rtr_mtu = 4096, rtr_dest_qpn = ep_qpn remote, rtr_rq_psn = ep_psn remote, rtr_max_dest_rd = 16, rtr_min_rnr_timer = 12,
         rtr_address = AhEthernet 2 (ep_gid remote) 3 64\<rparr>
       \<lparr>rts_sq_psn = ucast seed, rts_timeout = 14, rts_retry_cnt = 7, rts_rnr_retry = 7, rts_max_rd = 16\<rparr>\<rparr>], cn_rr = 0\<rparr>],
     ac_local = [[ex_end (ucast seed + 6) (ucast seed)]]\<rparr>"

lemma ex_complete:
  "complete_handshake_for ex_drv peer [[ex_end (ucast seed + 6) (ucast seed)]] [[remote]] (ex_open peer seed) =
     Some (ex_open peer seed\<lparr>rb_state := \<lparr>bs_registered = [], bs_pending = [[]], bs_conns = [(peer, ex_conn seed remote)], bs_connecting = {}\<rparr>\<rparr>, Inr ())"
  by (simp add: complete_handshake_for_def check_remote_def complete_take_def complete_install_def remove_connecting_def ex_open_def
      ex_drv_def ex_rt_def ex_session_def ex_end_def ex_conn_def session_connect_def address_of_def and_then_def map_err_def max_rd_atomic_def
      enumerate_eq_zip)



definition ex_done :: rc_state where
  "ex_done = \<lparr>bs_registered = [], bs_pending = [[]], bs_conns = [(''b'', ex_conn 1 (ex_end 9 5))], bs_connecting = {}\<rparr>"

lemma ex_connected: "hs_run 1 1 (ex_done, Map.empty)"
proof -
  let ?b = "ex_open ''b'' 1"
  have run: "hs_run 1 1 (rb_state ?b, ex_phase ''b'' 1)" by (rule ex_offered)
  have n: "length (rb_runtimes ?b) = 1" "rb_qps ?b = 1" by (simp_all add: ex_open_def)
  have inv: "backend_inv ?b (ex_phase ''b'' 1)" using hs_run_inv[OF run] by (simp add: n)
  have ph: "ex_phase ''b'' 1 ''b'' = Some (Offered [[ex_end 7 1]])" "(ex_phase ''b'' 1)(''b'' := None) = Map.empty"
    by (simp_all add: ex_phase_def)
  have "complete_handshake_for ex_drv ''b'' [[ex_end 7 1]] [[ex_end 9 5]] ?b = Some (?b\<lparr>rb_state := ex_done\<rparr>, Inr ())"
    using ex_complete[of "''b''" 1 "ex_end 9 5"] by (simp add: ex_done_def)
  with complete_effect[OF inv ph(1), of ex_drv "[[ex_end 9 5]]"] have "(hs_step 1 1)\<^sup>*\<^sup>* (rb_state ?b, ex_phase ''b'' 1) (ex_done, Map.empty)"
    by (auto simp: n ph(2))
  with run show ?thesis unfolding hs_run_def by (rule rtranclp_trans)
qed


lemma hs_run_backend: "backend_steps b (rb_state b, ph) w \<Longrightarrow> rb_step\<^sup>*\<^sup>* (b, ph) (b\<lparr>rb_state := fst w\<rparr>, snd w)"
proof (induction rule: rtranclp_induct)
  case (step w w')
  let ?b = "b\<lparr>rb_state := fst w\<rparr>"
  have "hs_step (length (rb_runtimes ?b)) (rb_qps ?b) (rb_state ?b, snd w) (fst w', snd w')" using step.hyps(2) by simp
  from rb_step.critical[OF this, of "rb_psn b"] have "rb_step (?b, snd w) (b\<lparr>rb_state := fst w'\<rparr>, snd w')" by simp
  with step.IH show ?case by (rule rtranclp.rtrancl_into_rtrancl)
qed simp

definition ex_mem :: mem_entry where
  "ex_mem = \<lparr>me_base = 4096, me_len = 256, me_numa = 1, me_mrs = [\<lparr>vm_lkey = 1, vm_rkey = 2\<rparr>]\<rparr>"

definition ex_desc :: transfer_desc where
  "ex_desc = \<lparr>td_local = 4100, td_remote = 0, td_len = 8, td_region = \<lparr>rd_addr = 0, rd_len = 64, rd_rkeys = [7]\<rparr>\<rparr>"

definition ex_backend :: rc_backend where
  "ex_backend = \<lparr>rb_runtimes = [ex_rt], rb_psn = 1, rb_rr = rr_from_runtimes [1], rb_qps = 1,
     rb_state = ex_done\<lparr>bs_registered := [(4096, ex_mem)]\<rparr>\<rparr>"

lemma ex_reached:
  "\<exists>b0. backend_new ex_lib topo_os [''mlx5_0''] 1 = Inr b0 \<and> rb_step\<^sup>*\<^sup>* (b0, Map.empty) (ex_backend, Map.empty)"
proof -
  let ?b0 = "ex_backend\<lparr>rb_state := state_new 1\<rparr>"
  have "trim ''mlx5_0'' \<noteq> []" by (simp add: char_eval)
  then have new: "backend_new ex_lib topo_os [''mlx5_0''] 1 = Inr ?b0"
    by (simp add: backend_new_def ex_runtime and_then_def ex_backend_def ex_rt_def)
  have "map_insert ex_mem (bs_registered ex_done) = Some (Inr [(4096, ex_mem)])"
    by (simp add: ex_done_def ex_mem_def map_insert_def map_overlap_def checked_add_def)
  from hs_step.registered[OF _ this] have "hs_step 1 1 (ex_done, Map.empty) (rb_state ex_backend, Map.empty)"
    by (simp add: ex_backend_def ex_mem_def)
  with ex_connected have "(hs_step 1 1)\<^sup>*\<^sup>* (state_new 1, Map.empty) (rb_state ex_backend, Map.empty)"
    unfolding hs_run_def by (rule rtranclp.rtrancl_into_rtrancl)
  then have "backend_steps ?b0 (rb_state ?b0, Map.empty) (rb_state ex_backend, Map.empty)" by (simp add: ex_backend_def)
  from hs_run_backend[OF this] new show ?thesis by simp
qed

theorem batch_transfer_exact_witness:
  "\<exists>b' sent. batch_transfer_async (\<lambda>_. True) ''b'' [ex_desc] ex_backend = Some (b', sent, Inr ()) \<and>
     concat (map snd sent) = [\<lparr>ro_mr = \<lparr>vm_lkey = 1, vm_rkey = 2\<rparr>, ro_local = 4100, ro_remote = 0, ro_len = 8, ro_rkey = 7\<rparr>]"
proof -
  obtain b0 where b0: "backend_new ex_lib topo_os [''mlx5_0''] 1 = Inr b0" "rb_step\<^sup>*\<^sup>* (b0, Map.empty) (ex_backend, Map.empty)"
    using ex_reached by blast
  have c: "bt_get (bs_conns (rb_state ex_backend)) ''b'' = Some (ex_conn 1 (ex_end 9 5))" by (simp add: ex_backend_def ex_done_def)
  have nm: "[1] = map rt_numa (rb_runtimes ex_backend)" "[(4096, ex_mem)] = bs_registered (rb_state ex_backend)"
    by (simp_all add: ex_backend_def ex_rt_def)
  have sub: "range_of 4100 8 \<subseteq> entry_range ex_mem" by (simp add: range_of_def entry_range_def ex_mem_def)
  have con: "desc_contains (td_region ex_desc) (td_remote ex_desc) (td_len ex_desc)"
    by (simp add: ex_desc_def desc_contains_def checked_add_def saturating_add_def word_le_nat_alt)
  have serv: "\<not> unservable 1 [(4096, ex_mem)] ex_desc"
    using sub con by (auto simp: unservable_def ex_desc_def ex_mem_def intro!: exI[of _ ex_mem])
  have alive: "\<forall>cn \<in> set (ac_nics (ex_conn 1 (ex_end 9 5))). \<forall>s \<in> set (cn_sessions cn). (\<lambda>_. True) s" by simp
  obtain b' sent r where p: "batch_transfer_async (\<lambda>_. True) ''b'' [ex_desc] ex_backend = Some (b', sent, r)" "case r of
      Inl _ \<Rightarrow> sent = [] \<and> (\<exists>d \<in> set [ex_desc]. unservable (length [1 :: numa_node]) [(4096, ex_mem)] d)
    | Inr _ \<Rightarrow> (\<exists>as. list_all2 (serves [1] [(4096, ex_mem)]) [ex_desc] as \<and> mset (concat (map snd sent)) = mset (map snd as) \<and>
        (\<forall>(s, ops) \<in> set sent. \<exists>j < length [1 :: numa_node]. s \<in> set (cn_sessions (ac_nics (ex_conn 1 (ex_end 9 5)) ! j)) \<and> set ops \<subseteq> set (ops_on j as)))"
    using batch_transfer_exact[OF b0 c alive nm, of "[ex_desc]"] by blast
  with serv obtain x where x: "r = Inr ()" "serves [1] [(4096, ex_mem)] ex_desc x" "mset (concat (map snd sent)) = mset [snd x]"
    by (cases r) (auto simp: list_all2_Cons1)
  have "snd x = \<lparr>ro_mr = \<lparr>vm_lkey = 1, vm_rkey = 2\<rparr>, ro_local = 4100, ro_remote = 0, ro_len = 8, ro_rkey = 7\<rparr>"
    using x(2) by (auto simp: serves_def near_def ex_desc_def ex_mem_def split: if_splits)
  moreover have "concat (map snd sent) = [snd x]" using x(3) by simp
  ultimately show ?thesis using p(1) x(1) by simp
qed

section \<open>A number that is used again\<close>

text \<open>
  A handshake with \<open>a\<close> is taken out and fails to connect, so that its queue pair is destroyed;
  before the caller aborts it, a handshake with \<open>b\<close> gets a queue pair with the same number.
  The abort then removes the session of \<open>b\<close>, and \<open>b\<close> can no longer be completed.
\<close>

theorem reused_number_strands_peer:
  "\<exists>st1 st2 st3 sess. complete_take ''a'' [[ex_end 7 1]] (queue_sessions [[ex_session 1 7]] (fst (prepare_begin ''a'' (state_new 1)))) = Some (st1, Inr (Some sess)) \<and>
     queue_sessions [[ex_session 2 7]] (fst (prepare_begin ''b'' st1)) = st2 \<and> abort_handshake ''a'' [[ex_end 7 1]] st2 = Some st3 \<and>
     complete_take ''b'' [[ex_end 7 2]] st3 = Some (st3, Inl (Backend ''no pending session to complete''))"
  by (simp add: prepare_begin_def state_new_def queue_sessions_def complete_take_def abort_handshake_def remove_connecting_def
      ex_session_def ex_end_def and_then_def discard_eps_def)

end
