(* ===== verification/Pega_Rdma_Bench.thy ===== *)
theory Pega_Rdma_Bench
  imports Pega_Rdma_Props
begin

text \<open>
  The parts of the benchmark programs (\<open>examples/cpu_bench.rs\<close>, \<open>examples/gpu_rdma_bench.rs\<close>) that
  decide what is transferred: the random number generator, the task schedule, the choice of
  blocks, the cutting of a buffer into transfers, and the set-up that connects two engines to
  each other. The choice of blocks draws until it has enough different ones; it has fuel, one
  unit per draw, and returns because the generator reaches every number.
\<close>

section \<open>Random numbers\<close>

unbundle bit_operations_syntax

definition rng_new :: "u64 \<Rightarrow> u64" where
  "rng_new seed = seed + 1"

definition rng_mix :: "u64 \<Rightarrow> u64" where
  "rng_mix z0 = (let z1 = (z0 XOR drop_bit 30 z0) * 0xbf58476d1ce4e5b9;
     z2 = (z1 XOR drop_bit 27 z1) * 0x94d049bb133111eb in z2 XOR drop_bit 31 z2)"

definition next_u64 :: "u64 \<Rightarrow> u64 \<times> u64" where
  "next_u64 st = (let st' = st + 0x9e3779b97f4a7c15 in (st', rng_mix st'))"

text \<open>\<open>usize\<close> values are numbers below \<open>2^64\<close>; the additions and subtractions are checked, and \<open>% 0\<close> panics.\<close>

definition rng_range :: "nat \<Rightarrow> nat \<Rightarrow> u64 \<Rightarrow> (u64 \<times> nat) outcome" where
  "rng_range lo hi st =
     (if lo = hi then Some (st, lo)
      else if hi < lo \<or> hi - lo + 1 \<ge> 2 ^ 64 then panic
      else let (st', z) = next_u64 st; x = lo + unat z mod (hi - lo + 1) in
        if x < 2 ^ 64 then Some (st', x) else panic)"

fun task_schedule_from :: "nat \<Rightarrow> nat \<times> nat \<Rightarrow> u64 \<Rightarrow> nat list outcome" where
  "task_schedule_from 0 r st = Some []"
| "task_schedule_from (Suc n) r st = do {
     (st', x) \<leftarrow> rng_range (fst r) (snd r) st;
     xs \<leftarrow> task_schedule_from n r st';
     Some (x # xs)
   }"

definition generate_task_schedule :: "nat \<Rightarrow> nat \<times> nat \<Rightarrow> u64 \<Rightarrow> nat list outcome" where
  "generate_task_schedule total_tasks block_range seed = task_schedule_from total_tasks block_range (rng_new seed)"

section \<open>Arguments\<close>

definition parse_block_range :: "string \<Rightarrow> (nat \<times> nat) outcome" where
  "parse_block_range s = (case split_once (CHR ''-'') s of
      Some (lo, hi) \<Rightarrow> do {
        lo \<leftarrow> parse_usize (trim lo);
        hi \<leftarrow> parse_usize (trim hi);
        if lo \<le> hi \<and> lo > 0 then Some (lo, hi) else panic
      }
    | None \<Rightarrow> do {
        n \<leftarrow> parse_usize (trim s);
        if n > 0 then Some (n, n) else panic
      })"

definition align_up :: "nat \<Rightarrow> nat \<Rightarrow> nat outcome" where
  "align_up value align =
     (if \<not> (\<exists>k < 64. align = 2 ^ k) then panic
      else if value + align \<ge> 2 ^ 64 then panic
      else Some (unat ((word_of_nat (value + align - 1) :: u64) AND NOT (word_of_nat (align - 1)))))"

section \<open>Choosing blocks\<close>

text \<open>\<open>None\<close> of the outer option: still drawing after \<open>fuel\<close> draws.\<close>

fun pick_blocks :: "nat \<Rightarrow> nat \<Rightarrow> nat \<Rightarrow> nat list \<Rightarrow> u64 \<Rightarrow> (u64 \<times> nat list) outcome option" where
  "pick_blocks fuel nblocks pool_blocks picked st =
     (if \<not> length picked < nblocks then Some (Some (st, picked))
      else case fuel of
          0 \<Rightarrow> None
        | Suc fuel \<Rightarrow>
            if pool_blocks = 0 then Some panic
            else (case rng_range 0 (pool_blocks - 1) st of
                None \<Rightarrow> Some panic
              | Some (st', i) \<Rightarrow>
                  if nblocks > pool_blocks \<or> i \<notin> set picked
                  then pick_blocks fuel nblocks pool_blocks (picked @ [i]) st'
                  else pick_blocks fuel nblocks pool_blocks picked st'))"

declare pick_blocks.simps [simp del]

definition block_desc :: "u64 \<Rightarrow> region_desc \<Rightarrow> nat \<Rightarrow> nat \<Rightarrow> transfer_desc outcome" where
  "block_desc local_base remote block_size i = do {
     off \<leftarrow> (if i * block_size < 2 ^ 64 then Some (word_of_nat (i * block_size)) else panic);
     l \<leftarrow> checked_add local_base off;
     r \<leftarrow> checked_add (rd_addr remote) off;
     Some \<lparr>td_local = l, td_remote = r, td_len = word_of_nat block_size, td_region = remote\<rparr>
   }"

definition build_random_block_scatter ::
    "nat \<Rightarrow> u64 \<Rightarrow> region_desc \<Rightarrow> nat \<Rightarrow> nat \<Rightarrow> nat \<Rightarrow> u64 \<Rightarrow> (u64 \<times> transfer_desc list) outcome option" where
  "build_random_block_scatter fuel local_base remote nblocks block_size pool_blocks st =
     map_option (\<lambda>x. do {
       (st', picked) \<leftarrow> x;
       descs \<leftarrow> those (map (block_desc local_base remote block_size) picked);
       Some (st', descs)
     }) (pick_blocks fuel nblocks pool_blocks [] st)"

text \<open>The transfers of one buffer in \<open>gpu_rdma_bench.rs\<close>; \<open>step_by(0)\<close> panics.\<close>

fun blocks_from :: "nat \<Rightarrow> nat \<Rightarrow> nat \<Rightarrow> nat \<Rightarrow> u64 \<Rightarrow> region_desc \<Rightarrow> transfer_desc list outcome" where
  "blocks_from 0 off len block loc remote = Some []"
| "blocks_from (Suc n) off len block loc remote =
     (if off \<ge> len then Some []
      else do {
        l \<leftarrow> checked_add loc (word_of_nat off);
        r \<leftarrow> checked_add (rd_addr remote) (word_of_nat off);
        ds \<leftarrow> blocks_from n (off + block) len block loc remote;
        Some (\<lparr>td_local = l, td_remote = r, td_len = word_of_nat (min block (len - off)), td_region = remote\<rparr> # ds)
      })"

definition blocks :: "u64 \<Rightarrow> region_desc \<Rightarrow> nat \<Rightarrow> nat \<Rightarrow> transfer_desc list outcome" where
  "blocks loc remote len block = (if block = 0 then panic else blocks_from len 0 len block loc remote)"

section \<open>Two engines\<close>

text \<open>
  \<open>connect\<close>: both sides prepare, then each completes with the metadata of the other. Anything
  but a prepared handshake, and any error, is a panic.
\<close>

definition prepared :: "qp_driver \<Rightarrow> string \<Rightarrow> rc_backend \<Rightarrow> (rc_backend \<times> nic_handshake list) outcome" where
  "prepared drv a b = do {
     (b', x) \<leftarrow> engine_get_or_prepare drv a b;
     case x of Inr (StatusPrepared nics) \<Rightarrow> Some (b', nics) | _ \<Rightarrow> panic
   }"

definition bench_connect ::
    "qp_driver \<Rightarrow> qp_driver \<Rightarrow> string \<Rightarrow> string \<Rightarrow> rc_backend \<Rightarrow> rc_backend \<Rightarrow> (rc_backend \<times> rc_backend) outcome" where
  "bench_connect sdrv cdrv client_name server_name server client = do {
     (server1, s_meta) \<leftarrow> prepared sdrv client_name server;
     (client1, c_meta) \<leftarrow> prepared cdrv server_name client;
     (server2, x) \<leftarrow> complete_handshake_for sdrv client_name s_meta c_meta server1;
     (client2, y) \<leftarrow> complete_handshake_for cdrv server_name c_meta s_meta client1;
     if is_ok x \<and> is_ok y then Some (server2, client2) else panic
   }"

section \<open>The generator reaches every number\<close>

lemma xor_zero: "x XOR y = 0 \<Longrightarrow> x = (y :: 'a::len word)"
proof (rule bit_word_eqI)
  fix n
  assume "x XOR y = 0"
  then have "bit (x XOR y) n = bit (0 :: 'a word) n" by simp
  then show "bit x n = bit y n" by (simp add: bit_xor_iff)
qed

lemma xorshift_inj:
  assumes "0 < k" "x XOR drop_bit k x = y XOR drop_bit k (y :: 'a::len word)"
  shows "x = y"
proof -
  define d where "d = x XOR y"
  have "d XOR drop_bit k d = (x XOR drop_bit k x) XOR (y XOR drop_bit k y)"
    unfolding d_def by (intro bit_word_eqI) (auto simp: bit_simps)
  also have "\<dots> = 0" using assms(2) by simp
  finally have "d = drop_bit k d" by (rule xor_zero)
  then have "unat d = unat d div 2 ^ k" by (metis unat_drop_bit_eq drop_bit_eq_div)
  moreover have "1 < (2 :: nat) ^ k" by (rule one_less_power) (use assms(1) in auto)
  then have "unat d div 2 ^ k < unat d" if "0 < unat d" using that by (intro div_less_dividend)
  ultimately have "unat d = 0" by linarith
  then have "d = 0" by (simp add: unat_eq_0)
  then show ?thesis unfolding d_def by (rule xor_zero)
qed

lemma mult_inj: "c * c' = (1 :: 'a::len word) \<Longrightarrow> x * c = y * c \<Longrightarrow> x = y"
  by (metis mult.assoc mult.right_neutral)

lemma rng_mix_surj: "surj rng_mix"
proof -
  have "inj rng_mix"
  proof (rule injI)
    fix x y
    assume "rng_mix x = rng_mix y"
    then have "(x XOR drop_bit 30 x) * 0xbf58476d1ce4e5b9 = (y XOR drop_bit 30 y) * 0xbf58476d1ce4e5b9"
      by (auto simp: rng_mix_def Let_def dest!: xorshift_inj[of 31, rotated] xorshift_inj[of 27, rotated]
          mult_inj[of "0x94d049bb133111eb" "0x319642b2d24d8ec3", rotated])
    then have "x XOR drop_bit 30 x = y XOR drop_bit 30 y"
      by (rule mult_inj[of "0xbf58476d1ce4e5b9" "0x96de1b173f119089", rotated]) simp
    then show "x = y" by (rule xorshift_inj[of 30, rotated]) simp
  qed
  then show ?thesis by (intro finite_UNIV_inj_surj) simp_all
qed

lemma rng_reaches: "\<exists>k. rng_mix (st + word_of_nat (Suc k) * 0x9e3779b97f4a7c15) = v"
proof -
  obtain t where t: "rng_mix t = v" using rng_mix_surj by (metis surjD)
  define m where "m = (t - st) * (0xf1de83e19937733d :: u64)"
  have "(0xf1de83e19937733d :: u64) * 0x9e3779b97f4a7c15 = 1" by simp
  then have "m * 0x9e3779b97f4a7c15 = t - st" unfolding m_def mult.assoc by (simp only: mult_1_right)
  moreover have "word_of_nat (Suc (unat m + 2 ^ 64 - 1)) = m" by simp
  ultimately have "st + word_of_nat (Suc (unat m + 2 ^ 64 - 1)) * 0x9e3779b97f4a7c15 = st + (t - st)" by (simp only:)
  also have "\<dots> = t" by simp
  finally show ?thesis using t by metis
qed

section \<open>Choosing blocks returns\<close>

lemma rng_range_pool:
  assumes "1 < p" "p < 2 ^ 64"
  shows "rng_range 0 (p - Suc 0) st = Some (st + 0x9e3779b97f4a7c15, unat (rng_mix (st + 0x9e3779b97f4a7c15)) mod p)"
proof -
  have "unat (rng_mix (st + 0x9e3779b97f4a7c15)) mod p < p" using assms(1) by simp
  from less_trans[OF this assms(2)] assms show ?thesis by (simp add: rng_range_def next_u64_def Let_def)
qed

lemma pick_one:
  assumes "1 < p" "p < 2 ^ 64" "length picked < nblocks" "b < p" "b \<notin> set picked"
  shows "rng_mix (st + word_of_nat (Suc k) * 0x9e3779b97f4a7c15) = word_of_nat b \<Longrightarrow>
    \<exists>n st' i. i < p \<and> (nblocks \<le> p \<longrightarrow> i \<notin> set picked) \<and>
      (\<forall>fuel. pick_blocks (n + fuel) nblocks p picked st = pick_blocks fuel nblocks p (picked @ [i]) st')"
proof (induction k arbitrary: st)
  case (Suc k)
  let ?st = "st + 0x9e3779b97f4a7c15" and ?i = "unat (rng_mix (st + 0x9e3779b97f4a7c15)) mod p"
  have i: "?i < p" using assms(1) by simp
  have step: "pick_blocks (Suc fuel) nblocks p picked st =
    (if nblocks > p \<or> ?i \<notin> set picked then pick_blocks fuel nblocks p (picked @ [?i]) ?st else pick_blocks fuel nblocks p picked ?st)" for fuel
    using assms(1-3) by (subst pick_blocks.simps) (simp add: rng_range_pool)
  show ?case
  proof (cases "nblocks > p \<or> ?i \<notin> set picked")
    case True
    then show ?thesis using i step by (intro exI[of _ 1] exI[of _ ?st] exI[of _ ?i]) auto
  next
    case False
    have "?st + word_of_nat (Suc k) * 0x9e3779b97f4a7c15 = st + word_of_nat (Suc (Suc k)) * 0x9e3779b97f4a7c15"
      by (simp add: algebra_simps)
    with Suc obtain n st' j where j: "j < p" "nblocks \<le> p \<longrightarrow> j \<notin> set picked"
      "\<forall>fuel. pick_blocks (n + fuel) nblocks p picked ?st = pick_blocks fuel nblocks p (picked @ [j]) st'" by metis
    then have "\<forall>fuel. pick_blocks (Suc n + fuel) nblocks p picked st = pick_blocks fuel nblocks p (picked @ [j]) st'"
      using step False by simp
    with j show ?thesis by blast
  qed
next
  case 0
  let ?st = "st + 0x9e3779b97f4a7c15"
  have "unat (word_of_nat b :: u64) = b" using assms(2,4) by (simp add: unat_of_nat)
  then have "unat (rng_mix ?st) mod p = b" using 0 assms(4) by simp
  then have "pick_blocks (1 + fuel) nblocks p picked st = pick_blocks fuel nblocks p (picked @ [b]) ?st" for fuel
    using assms by (subst pick_blocks.simps) (simp add: rng_range_pool)
  with assms(4,5) show ?case by blast
qed

text \<open>As long as blocks are missing one more is found.\<close>

lemma pick_next:
  assumes "0 < p" "p < 2 ^ 64" "length picked < nblocks" "nblocks \<le> p \<longrightarrow> distinct picked" "set picked \<subseteq> {..<p}"
  shows "\<exists>n st' i. i < p \<and> (nblocks \<le> p \<longrightarrow> i \<notin> set picked) \<and>
      (\<forall>fuel. pick_blocks (n + fuel) nblocks p picked st = pick_blocks fuel nblocks p (picked @ [i]) st')"
proof (cases "p = 1")
  case True
  then have "nblocks \<le> p \<longrightarrow> picked = []" using assms(3) by (cases picked) auto
  moreover from this have "pick_blocks (1 + fuel) nblocks p picked st = pick_blocks fuel nblocks p (picked @ [0]) st" for fuel
    using True assms(3) by (subst pick_blocks.simps) (auto simp: rng_range_def)
  ultimately show ?thesis using True by (intro exI[of _ 1] exI[of _ st] exI[of _ 0]) auto
next
  case False
  then have p: "1 < p" using assms(1) by simp
  show ?thesis
  proof (cases "nblocks \<le> p")
    case True
    then have "card (set picked) < p" using assms(3,4) by (simp add: distinct_card)
    then have "set picked \<noteq> {..<p}" by (metis card_lessThan less_irrefl)
    then obtain b where b: "b < p" "b \<notin> set picked" using assms(5) by blast
    obtain k where "rng_mix (st + word_of_nat (Suc k) * 0x9e3779b97f4a7c15) = word_of_nat b" using rng_reaches by blast
    from pick_one[OF p assms(2,3) b this] show ?thesis .
  next
    case False
    let ?i = "unat (rng_mix (st + 0x9e3779b97f4a7c15)) mod p"
    have "pick_blocks (1 + fuel) nblocks p picked st = pick_blocks fuel nblocks p (picked @ [?i]) (st + 0x9e3779b97f4a7c15)" for fuel
      using False p assms(2,3) by (subst pick_blocks.simps) (simp add: rng_range_pool)
    moreover have "?i < p" using p by simp
    ultimately show ?thesis using False by blast
  qed
qed

lemma pick_blocks_returns:
  assumes "0 < p" "p < 2 ^ 64"
  shows "length picked \<le> nblocks \<Longrightarrow> nblocks \<le> p \<longrightarrow> distinct picked \<Longrightarrow> set picked \<subseteq> {..<p} \<Longrightarrow>
    \<exists>fuel st' xs. pick_blocks fuel nblocks p picked st = Some (Some (st', xs)) \<and> length xs = nblocks \<and>
      (nblocks \<le> p \<longrightarrow> distinct xs) \<and> set xs \<subseteq> {..<p}"
proof (induction "nblocks - length picked" arbitrary: picked st)
  case 0
  then show ?case by (intro exI[of _ 0] exI[of _ st] exI[of _ picked]) (auto simp: pick_blocks.simps)
next
  case (Suc d)
  then have less: "length picked < nblocks" by simp
  from pick_next[OF assms less Suc.prems(2,3), of st] obtain n st1 i where i: "i < p" "nblocks \<le> p \<longrightarrow> i \<notin> set picked"
    "\<forall>fuel. pick_blocks (n + fuel) nblocks p picked st = pick_blocks fuel nblocks p (picked @ [i]) st1" by blast
  have d: "d = nblocks - length (picked @ [i])" and len: "length (picked @ [i]) \<le> nblocks" using Suc.hyps(2) less by simp_all
  have dist: "nblocks \<le> p \<longrightarrow> distinct (picked @ [i])" and sub: "set (picked @ [i]) \<subseteq> {..<p}" using Suc.prems i by auto
  obtain fuel st' xs where "pick_blocks fuel nblocks p (picked @ [i]) st1 = Some (Some (st', xs))" "length xs = nblocks"
    "nblocks \<le> p \<longrightarrow> distinct xs" "set xs \<subseteq> {..<p}"
    using Suc.hyps(1)[of "picked @ [i]" st1, OF d len dist sub] by blast
  then show ?case using i(3) by metis
qed

section \<open>The transfers chosen\<close>

text \<open>A transfer of \<open>n\<close> bytes at offset \<open>off\<close> of both buffers.\<close>

definition transfer_at :: "u64 \<Rightarrow> region_desc \<Rightarrow> nat \<Rightarrow> nat \<Rightarrow> transfer_desc \<Rightarrow> bool" where
  "transfer_at loc remote off n d \<longleftrightarrow> unat (td_local d) = unat loc + off \<and> unat (td_remote d) = unat (rd_addr remote) + off \<and>
     unat (td_len d) = n \<and> td_region d = remote"

lemma checked_add_nat:
  assumes "unat (a :: u64) + n < 2 ^ 64"
  shows "\<exists>b. checked_add a (word_of_nat n) = Some b \<and> unat b = unat a + n"
proof -
  have n: "unat (word_of_nat n :: u64) = n" using assms by (simp add: unat_of_nat)
  then have "unat (a + word_of_nat n) = unat a + n" using assms by (subst unat_plus_simple[THEN iffD1]) (simp_all add: no_olen_add_nat)
  then show ?thesis using assms n by (simp add: checked_add_def)
qed

lemma transfer_at_contained:
  assumes "transfer_at loc remote off n d" "off + n \<le> unat (rd_len remote)" "unat (rd_addr remote) + unat (rd_len remote) < 2 ^ 64"
  shows "desc_contains remote (td_remote d) (td_len d)"
proof -
  have d: "unat (td_remote d) = unat (rd_addr remote) + off" "unat (td_len d) = n" using assms(1) by (simp_all add: transfer_at_def)
  have fits: "unat (td_remote d) + unat (td_len d) < 2 ^ 64" using d assms(2,3) by simp
  obtain e where e: "checked_add (td_remote d) (td_len d) = Some e" "unat e = unat (td_remote d) + unat (td_len d)"
    using checked_add_nat[OF fits] by auto
  obtain r where r: "checked_add (rd_addr remote) (rd_len remote) = Some r"
    "unat r = unat (rd_addr remote) + unat (rd_len remote)" using checked_add_nat[OF assms(3)] by auto
  have "saturating_add (rd_addr remote) (rd_len remote) = r" using r(1) by (auto simp: saturating_add_def checked_add_def split: if_splits)
  then show ?thesis using e r d assms(2) by (simp add: desc_contains_def word_le_nat_alt)
qed

lemma block_desc_at:
  assumes "i < p" "0 < bs" "p * bs \<le> unat (rd_len remote)" "unat (rd_addr remote) + unat (rd_len remote) < 2 ^ 64"
    "unat loc + p * bs < 2 ^ 64"
  shows "\<exists>d. block_desc loc remote bs i = Some d \<and> transfer_at loc remote (i * bs) bs d"
proof -
  have "Suc i * bs \<le> p * bs" using assms(1) by (intro mult_le_mono1) simp
  then have i: "i * bs + bs \<le> p * bs" by simp
  obtain l where l: "checked_add loc (word_of_nat (i * bs)) = Some l" "unat l = unat loc + i * bs"
    using checked_add_nat[of loc "i * bs"] i assms(5) by force
  obtain r where r: "checked_add (rd_addr remote) (word_of_nat (i * bs)) = Some r" "unat r = unat (rd_addr remote) + i * bs"
    using checked_add_nat[of "rd_addr remote" "i * bs"] i assms(3,4) by force
  have "bs < 2 ^ 64" "i * bs < 2 ^ 64" using i assms(5) by linarith+
  moreover from this have "unat (word_of_nat bs :: u64) = bs" by (simp add: unat_of_nat)
  ultimately show ?thesis using l r by (simp add: block_desc_def transfer_at_def)
qed

lemma block_descs_at:
  assumes "0 < bs" "p * bs \<le> unat (rd_len remote)" "unat (rd_addr remote) + unat (rd_len remote) < 2 ^ 64"
    "unat loc + p * bs < 2 ^ 64"
  shows "set xs \<subseteq> {..<p} \<Longrightarrow>
    \<exists>ds. those (map (block_desc loc remote bs) xs) = Some ds \<and> list_all2 (\<lambda>i d. transfer_at loc remote (i * bs) bs d) xs ds"
proof (induction xs)
  case (Cons i xs)
  then obtain ds where "those (map (block_desc loc remote bs) xs) = Some ds" "list_all2 (\<lambda>i d. transfer_at loc remote (i * bs) bs d) xs ds"
    by auto
  moreover obtain d where "block_desc loc remote bs i = Some d" "transfer_at loc remote (i * bs) bs d"
    using block_desc_at[OF _ assms, of i] Cons.prems by auto
  ultimately show ?case by simp
qed simp

text \<open>
  C24. The choice of random blocks returns: some number of draws gives as many transfers as asked
  for. Each is one whole block at the same offset of both buffers, inside the remote region, and
  when no more blocks are asked for than the pool has, no two of them are the same block.
\<close>

theorem random_scatter_returns:
  assumes "0 < pool_blocks" "0 < block_size" "pool_blocks * block_size \<le> unat (rd_len remote)"
    "unat (rd_addr remote) + unat (rd_len remote) < 2 ^ 64" "unat local_base + pool_blocks * block_size < 2 ^ 64"
  shows "\<exists>fuel st' picked ds. build_random_block_scatter fuel local_base remote nblocks block_size pool_blocks st = Some (Some (st', ds)) \<and>
    length ds = nblocks \<and> set picked \<subseteq> {..<pool_blocks} \<and> (nblocks \<le> pool_blocks \<longrightarrow> distinct picked) \<and>
    list_all2 (\<lambda>i d. transfer_at local_base remote (i * block_size) block_size d) picked ds \<and>
    (\<forall>d \<in> set ds. desc_contains remote (td_remote d) (td_len d))"
proof -
  have "pool_blocks \<le> pool_blocks * block_size" using assms(2) by simp
  then have p: "pool_blocks < 2 ^ 64" using assms(5) by linarith
  obtain fuel st' picked where picked: "pick_blocks fuel nblocks pool_blocks [] st = Some (Some (st', picked))" "length picked = nblocks"
    "nblocks \<le> pool_blocks \<longrightarrow> distinct picked" "set picked \<subseteq> {..<pool_blocks}"
    using pick_blocks_returns[OF assms(1) p, of "[]" nblocks st] by auto
  obtain ds where ds: "those (map (block_desc local_base remote block_size) picked) = Some ds"
    "list_all2 (\<lambda>i d. transfer_at local_base remote (i * block_size) block_size d) picked ds"
    using block_descs_at[OF assms(2-5) picked(4)] by blast
  have "desc_contains remote (td_remote d) (td_len d)" if "d \<in> set ds" for d
  proof -
    obtain j where j: "j < length ds" "ds ! j = d" using \<open>d \<in> set ds\<close> by (auto simp: in_set_conv_nth)
    define i where "i = picked ! j"
    have i: "i \<in> set picked" "transfer_at local_base remote (i * block_size) block_size d"
      using list_all2_nthD2[OF ds(2) j(1)] j list_all2_lengthD[OF ds(2)] by (simp_all add: i_def)
    then have "Suc i * block_size \<le> pool_blocks * block_size" using picked(4) by (intro mult_le_mono1) auto
    then show ?thesis by (intro transfer_at_contained[OF i(2) _ assms(4)]) (use assms(3) in simp)
  qed
  moreover have "build_random_block_scatter fuel local_base remote nblocks block_size pool_blocks st = Some (Some (st', ds))"
    using picked(1) ds(1) by (simp add: build_random_block_scatter_def)
  moreover have "length ds = nblocks" using ds(2) picked(2) by (simp add: list_all2_lengthD)
  ultimately show ?thesis using picked(3,4) ds(2) by blast
qed

theorem random_scatter_returns_witness:
  "\<exists>fuel st' picked ds. build_random_block_scatter fuel 4096 \<lparr>rd_addr = 65536, rd_len = 32, rd_rkeys = [7]\<rparr> 3 8 4 1 = Some (Some (st', ds)) \<and>
    length ds = 3 \<and> set picked \<subseteq> {..<4} \<and> (3 \<le> (4 :: nat) \<longrightarrow> distinct picked) \<and>
    list_all2 (\<lambda>i d. transfer_at 4096 \<lparr>rd_addr = 65536, rd_len = 32, rd_rkeys = [7]\<rparr> (i * 8) 8 d) picked ds \<and>
    (\<forall>d \<in> set ds. desc_contains \<lparr>rd_addr = 65536, rd_len = 32, rd_rkeys = [7]\<rparr> (td_remote d) (td_len d))"
  by (rule random_scatter_returns) simp_all

section \<open>Cutting a buffer\<close>

lemma upt_append_le: "i \<le> j \<Longrightarrow> j \<le> k \<Longrightarrow> [i..<j] @ [j..<k] = [i..<k]"
  using upt_add_eq_append[of i j "k - j"] by simp

lemma blocks_from_tile:
  assumes "0 < block" "len \<le> unat (rd_len remote)" "unat (rd_addr remote) + unat (rd_len remote) < 2 ^ 64" "unat loc + len < 2 ^ 64"
  shows "len \<le> off + n \<Longrightarrow> \<exists>ds. blocks_from n off len block loc remote = Some ds \<and>
    concat (map (\<lambda>d. [unat (td_local d)..<unat (td_local d) + unat (td_len d)]) ds) = [unat loc + off..<unat loc + len] \<and>
    (\<forall>d \<in> set ds. \<exists>off. transfer_at loc remote off (unat (td_len d)) d \<and> td_len d \<noteq> 0 \<and> unat (td_len d) \<le> block \<and> off + unat (td_len d) \<le> len)"
proof (induction n arbitrary: off)
  case (Suc n)
  show ?case
  proof (cases "len \<le> off")
    case False
    have "len \<le> (off + block) + n" using Suc.prems assms(1) by simp
    from Suc.IH[OF this] obtain ds where ds: "blocks_from n (off + block) len block loc remote = Some ds"
      "concat (map (\<lambda>d. [unat (td_local d)..<unat (td_local d) + unat (td_len d)]) ds) = [unat loc + (off + block)..<unat loc + len]"
      "\<forall>d \<in> set ds. \<exists>off. transfer_at loc remote off (unat (td_len d)) d \<and> td_len d \<noteq> 0 \<and> unat (td_len d) \<le> block \<and> off + unat (td_len d) \<le> len"
      by blast
    obtain l where l: "checked_add loc (word_of_nat off) = Some l" "unat l = unat loc + off"
      using checked_add_nat[of loc off] False assms(4) by force
    obtain r where r: "checked_add (rd_addr remote) (word_of_nat off) = Some r" "unat r = unat (rd_addr remote) + off"
      using checked_add_nat[of "rd_addr remote" off] False assms(2,3) by force
    define k where "k = min block (len - off)"
    have k: "0 < k" "k \<le> block" "off + k \<le> len" using False assms(1) by (auto simp: k_def)
    have u: "unat (word_of_nat k :: u64) = k" using k(3) assms(4) by (simp add: unat_of_nat)
    let ?d = "\<lparr>td_local = l, td_remote = r, td_len = word_of_nat k, td_region = remote\<rparr>"
    have run: "blocks_from (Suc n) off len block loc remote = Some (?d # ds)" using False l(1) r(1) ds(1) by (simp add: k_def)
    have at: "transfer_at loc remote off k ?d" using l(2) r(2) u by (simp add: transfer_at_def)
    have nz: "(word_of_nat k :: u64) \<noteq> 0" using u k(1) by (metis unat_0 less_irrefl)
    have tile: "[unat loc + off..<unat loc + off + k] @ [unat loc + (off + block)..<unat loc + len] = [unat loc + off..<unat loc + len]"
    proof (cases "block \<le> len - off")
      case True
      then have "k = block" by (simp add: k_def)
      then show ?thesis using upt_append_le[of "unat loc + off" "unat loc + off + block" "unat loc + len"] k(3) by (simp add: add.assoc)
    next
      case b: False
      then have "off + k = len" using False by (simp add: k_def)
      then show ?thesis using b by (simp add: add.assoc)
    qed
    have "concat (map (\<lambda>d. [unat (td_local d)..<unat (td_local d) + unat (td_len d)]) (?d # ds)) = [unat loc + off..<unat loc + len]"
      using ds(2) u l(2) tile by simp
    moreover have "\<exists>off. transfer_at loc remote off (unat (td_len ?d)) ?d \<and> td_len ?d \<noteq> 0 \<and> unat (td_len ?d) \<le> block \<and> off + unat (td_len ?d) \<le> len"
      by (intro exI[of _ off]) (simp only: transfer_desc.select_convs u at nz k not_False_eq_True simp_thms)
    ultimately show ?thesis unfolding run using ds(3) by (intro exI[of _ "?d # ds"]) (simp only: list.set ball_simps simp_thms)
  qed simp
qed simp

text \<open>
  Cutting a buffer into blocks: the transfers cover it from the first byte to the last, in order,
  none twice, none longer than a block or empty, each inside the remote region at the same offset.
\<close>

theorem blocks_tile:
  assumes "0 < block" "len \<le> unat (rd_len remote)" "unat (rd_addr remote) + unat (rd_len remote) < 2 ^ 64" "unat loc + len < 2 ^ 64"
  shows "\<exists>ds. blocks loc remote len block = Some ds \<and>
    concat (map (\<lambda>d. [unat (td_local d)..<unat (td_local d) + unat (td_len d)]) ds) = [unat loc..<unat loc + len] \<and>
    (\<forall>d \<in> set ds. td_len d \<noteq> 0 \<and> unat (td_len d) \<le> block \<and> td_remote d - rd_addr remote = td_local d - loc \<and>
      desc_contains remote (td_remote d) (td_len d))"
proof -
  obtain ds where ds: "blocks_from len 0 len block loc remote = Some ds"
    "concat (map (\<lambda>d. [unat (td_local d)..<unat (td_local d) + unat (td_len d)]) ds) = [unat loc..<unat loc + len]"
    "\<forall>d \<in> set ds. \<exists>off. transfer_at loc remote off (unat (td_len d)) d \<and> td_len d \<noteq> 0 \<and> unat (td_len d) \<le> block \<and> off + unat (td_len d) \<le> len"
    using blocks_from_tile[OF assms, of 0 len] by auto
  have off: "a - b = word_of_nat off" if "unat a = unat b + off" for a b :: u64 and off
  proof -
    have "a = word_of_nat (unat b + off)" by (simp flip: that)
    then show ?thesis by simp
  qed
  have "desc_contains remote (td_remote d) (td_len d) \<and> td_remote d - rd_addr remote = td_local d - loc" if d: "d \<in> set ds" for d
  proof -
    obtain off where at: "transfer_at loc remote off (unat (td_len d)) d" "off + unat (td_len d) \<le> len" using d ds(3) by blast
    then have "td_remote d - rd_addr remote = word_of_nat off" "td_local d - loc = word_of_nat off" by (auto simp: transfer_at_def intro: off)
    moreover have "off + unat (td_len d) \<le> unat (rd_len remote)" using at(2) assms(2) by simp
    ultimately show ?thesis using transfer_at_contained[OF at(1) _ assms(3)] by simp
  qed
  then show ?thesis using ds assms(1) by (intro exI[of _ ds]) (auto simp: blocks_def)
qed

section \<open>Alignment\<close>

lemma clear_low_bits: "unat (w AND NOT (mask k) :: u64) = unat w div 2 ^ k * 2 ^ k"
proof -
  have "w AND NOT (mask k) = push_bit k (drop_bit k w)" by (intro bit_word_eqI) (auto simp: bit_simps)
  then have "unat (w AND NOT (mask k)) = take_bit 64 (push_bit k (drop_bit k (unat w)))"
    by (simp only: unsigned_push_bit_eq unat_drop_bit_eq len_of_numeral_defs) simp
  then have "unat (w AND NOT (mask k)) = take_bit 64 (unat w div 2 ^ k * 2 ^ k)"
    by (simp only: push_bit_eq_mult drop_bit_eq_div)
  moreover have "unat w div 2 ^ k * 2 ^ k < 2 ^ 64"
    using div_times_less_eq_dividend[of "unat w" "2 ^ k"] by (rule le_less_trans) (use unsigned_less[of w] in simp)
  ultimately show ?thesis by (simp add: take_bit_eq_mod)
qed

text \<open>The least multiple of the alignment that is not below the value.\<close>

lemma align_up_exact:
  assumes "align_up v a = Some r"
  shows "a dvd r \<and> v \<le> r \<and> r < v + a"
proof -
  obtain k where k: "k < 64" "a = 2 ^ k" and fits: "v + a < 2 ^ 64" using assms by (auto simp: align_up_def split: if_splits)
  have "(word_of_nat (a - 1) :: u64) = mask k" using k(2) by (simp add: mask_eq_exp_minus_1 of_nat_diff)
  moreover have "unat (word_of_nat (v + a - 1) :: u64) = v + a - 1" using fits by (simp add: unat_of_nat)
  ultimately have r: "r = (v + a - 1) div a * a" using assms clear_low_bits[of "word_of_nat (v + a - 1)" k] k(2)
    by (auto simp: align_up_def split: if_splits)
  have "0 < a" using k(2) by simp
  then have "(v + a - 1) mod a < a" by simp
  moreover have "r + (v + a - 1) mod a = v + a - 1" unfolding r by (rule div_mult_mod_eq)
  ultimately have "v \<le> r \<and> r < v + a" using \<open>0 < a\<close> by linarith
  then show ?thesis by (simp add: r)
qed

section \<open>Connecting two engines\<close>

lemma runtime_open_ok:
  assumes "runtime_open lib os x = Inr rt"
  shows "rt_ok rt"
proof -
  obtain ctx where "choose_port_and_gid lib ctx = Inr (rt_port rt, rt_link rt, rt_lid rt, rt_gid_index rt, rt_mtu rt, rt_gid rt)"
    using assms by (auto simp: runtime_open_def map_err_def and_then_def split: sum.splits option.splits)
  then obtain entries ports where "choose_loop lib ctx entries ports = Inr (rt_port rt, rt_link rt, rt_lid rt, rt_gid_index rt, rt_mtu rt, rt_gid rt)"
    by (auto simp: choose_port_and_gid_def map_err_def and_then_def split: sum.splits)
  from choose_loop_chosen[OF this] show ?thesis by (simp add: chosen_def)
qed

lemma open_all_ok: "open_all lib os names = Inr rts \<Longrightarrow> list_all rt_ok rts"
  by (induction names arbitrary: rts) (auto simp: and_then_def runtime_open_ok split: if_splits sum.splits)

text \<open>Endpoints that the NICs can reach: as many as queue pairs, with a LID exactly on InfiniBand.\<close>

definition reachable_from :: "nat \<Rightarrow> rc_runtime list \<Rightarrow> nic_handshake list \<Rightarrow> bool" where
  "reachable_from q = list_all2 (\<lambda>rt eps. length eps = q \<and> (\<forall>ep \<in> set eps. ep_lid ep = rt_lid rt))"

lemma reachable_shape:
  "reachable_from q rts (endpoints sess) \<Longrightarrow> length sess = length rts \<and> (\<forall>j < length rts. length (sess ! j) = q)"
  by (auto simp: reachable_from_def endpoints_def list_all2_conv_all_nth)

lemma create_qps_lid: "create_qps drv rt is psn = (psn', Inr ss) \<Longrightarrow> \<forall>s \<in> set ss. ep_lid (se_local s) = rt_lid rt"
proof (induction "is" arbitrary: psn psn' ss)
  case (Cons i "is")
  obtain s where s: "session_create drv rt psn = Inr s" using Cons.prems by (cases "session_create drv rt psn") auto
  then have "ep_lid (se_local s) = rt_lid rt" by (auto simp: session_create_def and_then_def map_err_def split: sum.splits)
  moreover obtain p x where "create_qps drv rt is (psn + 1) = (p, x)" by fastforce
  ultimately show ?case using Cons s by (cases x) (auto simp: and_then_def)
qed simp

lemma create_all_reachable:
  "create_all drv q rts psn = (psn', Inr sess) \<Longrightarrow> reachable_from q rts (endpoints sess)"
proof (induction rts arbitrary: psn psn' sess)
  case (Cons rt rts)
  obtain p ss where ss: "create_qps drv rt [0..<q] psn = (p, Inr ss)" using Cons.prems by (auto split: prod.splits sum.splits)
  moreover obtain p' x where "create_all drv q rts p = (p', x)" by fastforce
  ultimately show ?case using Cons create_qps_shape[OF ss] create_qps_lid[OF ss]
    by (cases x) (auto simp: and_then_def reachable_from_def endpoints_def)
qed (simp add: reachable_from_def endpoints_def)

lemma session_connect_ok:
  assumes "\<And>k m. qd_modify drv k m = Inr ()" "rt_ok rt" "ep_lid ep = rt_lid rt"
  shows "\<exists>s'. session_connect drv rt s ep = Inr s'"
  using assms(2,3) by (auto simp: session_connect_def address_of_def and_then_def map_err_def Let_def assms(1) rt_ok_def split: link_layer.splits)

lemma connect_qps_ok:
  assumes "\<And>k m. qd_modify drv k m = Inr ()" "rt_ok rt"
  shows "\<forall>ep \<in> set eps. ep_lid ep = rt_lid rt \<Longrightarrow> connect_qps drv rt ss eps \<noteq> Some (Inl e)"
proof (induction ss arbitrary: eps)
  case (Cons s ss)
  show ?case
  proof (cases eps)
    case eps: (Cons ep eps')
    obtain s' where "session_connect drv rt s ep = Inr s'" using session_connect_ok[OF assms, of ep s] Cons.prems eps by auto
    moreover have "connect_qps drv rt ss eps' \<noteq> Some (Inl e)" using Cons eps by simp
    ultimately show ?thesis using eps by (auto simp: and_then_def split: sum.splits bind_splits)
  qed simp
qed simp

lemma connect_nics_ok:
  assumes "\<And>k m. qd_modify drv k m = Inr ()"
  shows "reachable_from q rts remote \<Longrightarrow> list_all rt_ok rts \<Longrightarrow> connect_nics drv rts sess remote \<noteq> Some (Inl e)"
  unfolding reachable_from_def
proof (induction rts remote arbitrary: sess rule: list_all2_induct)
  case Nil
  then show ?case by (cases sess) simp_all
next
  case (Cons rt rts eps remote)
  show ?case
  proof (cases sess)
    case (Cons ss sess')
    have "connect_qps drv rt ss eps \<noteq> Some (Inl e)" by (rule connect_qps_ok) (use Cons.hyps Cons.prems assms in auto)
    moreover have "connect_nics drv rts sess' remote \<noteq> Some (Inl e)" using Cons.IH Cons.prems by simp
    ultimately show ?thesis using Cons by (auto simp: and_then_def split: sum.splits bind_splits)
  qed simp
qed

lemma check_remote_reachable: "reachable_from q rts remote \<Longrightarrow> check_remote (length rts) q remote = Inr ()"
  by (auto simp: reachable_from_def check_remote_def find_None_iff in_set_enumerate_eq list_all2_conv_all_nth split: option.splits)
     (auto simp: find_Some_iff enumerate_eq_zip)

lemma complete_conns:
  assumes "complete_handshake_for drv a nics remote b = Some (b', x)" "bs_conns (rb_state b) = []"
  shows "length (bs_conns (rb_state b')) \<le> 1"
proof -
  have "bs_conns st = []" if "complete_take a nics (rb_state b) = Some (st, y)" for st y
    using that assms(2) by (auto simp: complete_take_def split: if_splits bind_splits)
  with assms show ?thesis
    by (auto simp: complete_handshake_for_def complete_install_def remove_connecting_def Let_def split: sum.splits option.splits bind_splits if_splits)
qed

lemma complete_succeeds:
  assumes "backend_inv b ph" "ph a = Some (Offered nics)" "check_remote (length (rb_runtimes b)) (rb_qps b) remote = Inr u"
    and "\<And>sess e. connect_nics drv (rb_runtimes b) sess remote \<noteq> Some (Inl e)"
  shows "\<exists>b' sess sess'. complete_handshake_for drv a nics remote b = Some (b', Inr ()) \<and> endpoints sess = nics \<and> nics_connected sess remote sess' \<and>
    bt_get (bs_conns (rb_state b')) a = Some \<lparr>ac_nics = map (\<lambda>ss. \<lparr>cn_sessions = ss, cn_rr = 0\<rparr>) sess', ac_local = nics\<rparr> \<and>
    backend_steps b (rb_state b, ph) (rb_state b', ph(a := None))"
proof -
  note eff = complete_effect[OF assms(1,2), of drv remote]
  obtain b' r where c: "complete_handshake_for drv a nics remote b = Some (b', r)" using eff by blast
  show ?thesis
  proof (cases r)
    case (Inl e)
    then have False using eff assms(3,4) unfolding c by simp
    then show ?thesis ..
  next
    case (Inr v)
    then have "\<exists>sess sess'. endpoints sess = nics \<and> nics_connected sess remote sess' \<and>
      bt_get (bs_conns (rb_state b')) a = Some \<lparr>ac_nics = map (\<lambda>ss. \<lparr>cn_sessions = ss, cn_rr = 0\<rparr>) sess', ac_local = nics\<rparr> \<and>
      backend_steps b (rb_state b, ph) (rb_state b', ph(a := None))" using eff unfolding c by simp
    moreover have "complete_handshake_for drv a nics remote b = Some (b', Inr ())" using c Inr by simp
    ultimately show ?thesis by blast
  qed
qed

text \<open>One engine: it prepares, and completes with any metadata that its NICs can reach.\<close>

lemma side_connects:
  assumes "backend_new lib os names q = Inr b" "create_all drv q (rb_runtimes b) 1 = (psn, Inr sess)"
    and "\<forall>eps \<in> set (endpoints sess). distinct (map ep_qpn eps)" "\<And>k m. qd_modify drv k m = Inr ()"
    and "reachable_from q (rb_runtimes b) remote"
  shows "\<exists>b1 b2 s0 sess'. prepared drv a b = Some (b1, endpoints sess) \<and>
    complete_handshake_for drv a (endpoints sess) remote b1 = Some (b2, Inr ()) \<and> endpoints s0 = endpoints sess \<and> nics_connected s0 remote sess' \<and>
    bt_get (bs_conns (rb_state b2)) a = Some \<lparr>ac_nics = map (\<lambda>ss. \<lparr>cn_sessions = ss, cn_rr = 0\<rparr>) sess', ac_local = endpoints sess\<rparr> \<and>
    num_qps (rb_state b2) = length names * q"
proof -
  have inv: "backend_inv b Map.empty" using backend_new_inv[OF assms(1)] by (simp add: rb_inv_def)
  have b: "rb_psn b = 1" "rb_qps b = q" "rb_state b = state_new (length (rb_runtimes b))" "length (rb_runtimes b) = length names"
    "list_all rt_ok (rb_runtimes b)"
    using assms(1) open_all_length[of lib os names] open_all_ok[of lib os names]
    by (auto simp: backend_new_def and_then_def split: if_splits sum.splits)
  have fresh: "numbers_fresh drv b Map.empty"
    using assms(2,3) b by (auto simp: numbers_fresh_def held_def state_new_def)
  define b1 where "b1 = b\<lparr>rb_psn := psn, rb_state := queue_sessions sess ((rb_state b)\<lparr>bs_connecting := {a}\<rparr>)\<rparr>"
  let ?ph = "[a \<mapsto> Offered (endpoints sess)]"
  have b1: "rb_runtimes b1 = rb_runtimes b" "rb_qps b1 = q" "bs_conns (rb_state b1) = []"
    by (simp_all add: b1_def b queue_sessions_def state_new_def)
  have prep: "get_or_prepare drv a b = Some (b1, Inr (NeedHandshake (endpoints sess)))"
    using assms(2) b(1-3) by (simp add: get_or_prepare_def prepare_begin_def prepare_handshake_def state_new_def b1_def)
  have "backend_steps b (rb_state b, Map.empty) (rb_state b1, ?ph)" using prepare_effect[OF inv fresh, of a] prep by auto
  then have run1: "hs_run (length names) q (rb_state b1, ?ph)" by (simp add: hs_run_def b)
  have inv1: "backend_inv b1 ?ph" using hs_run_inv[OF run1] by (simp add: b1 b)
  have upd: "?ph(a := None) = Map.empty" by simp
  have "check_remote (length (rb_runtimes b1)) (rb_qps b1) remote = Inr ()" unfolding b1 by (rule check_remote_reachable[OF assms(5)])
  from complete_succeeds[OF inv1 fun_upd_same this, of drv] obtain b2 s0 sess' where
    d: "complete_handshake_for drv a (endpoints sess) remote b1 = Some (b2, Inr ())"
    "endpoints s0 = endpoints sess" "nics_connected s0 remote sess'"
    "bt_get (bs_conns (rb_state b2)) a = Some \<lparr>ac_nics = map (\<lambda>ss. \<lparr>cn_sessions = ss, cn_rr = 0\<rparr>) sess', ac_local = endpoints sess\<rparr>"
    "backend_steps b1 (rb_state b1, ?ph) (rb_state b2, Map.empty)"
    unfolding upd b1 using connect_nics_ok[OF assms(4,5) b(5)] by blast
  have "hs_run (length names) q (rb_state b2, Map.empty)"
    using run1 d(5) unfolding hs_run_def by (simp add: b1 b)
  from hs_run_inv[OF this] have inv2: "hs_inv (length names) q (rb_state b2, Map.empty)" .
  have "num_qps (rb_state b2) = length names * q * length (bs_conns (rb_state b2))"
    unfolding num_qps_def using conn_shape[OF inv2] bt.entries_get[OF hs_invD(1)[OF inv2]] by (intro num_qps_conns) auto
  moreover have "length (bs_conns (rb_state b2)) = 1"
    using complete_conns[OF d(1) b1(3)] d(4) by (cases "bs_conns (rb_state b2)") auto
  moreover have "prepared drv a b = Some (b1, endpoints sess)" using prep by (simp add: prepared_def engine_get_or_prepare_def and_then_def)
  ultimately show ?thesis using d by auto
qed

text \<open>
  C25. Connecting two fresh engines on the same NICs: if the devices create the queue pairs, with
  different numbers, and move them to the states asked for, then nothing panics, both engines
  report one queue pair for each NIC and configured queue pair, and the i-th of the j-th NIC
  on one side is connected to the i-th of the j-th on the other.
\<close>

theorem bench_connects:
  assumes "backend_new lib os names q = Inr b"
    and "create_all sdrv q (rb_runtimes b) 1 = (spsn, Inr ss)" "\<forall>eps \<in> set (endpoints ss). distinct (map ep_qpn eps)"
    and "create_all cdrv q (rb_runtimes b) 1 = (cpsn, Inr cs)" "\<forall>eps \<in> set (endpoints cs). distinct (map ep_qpn eps)"
    and "\<And>k m. qd_modify sdrv k m = Inr ()" "\<And>k m. qd_modify cdrv k m = Inr ()"
  shows "\<exists>s c sc cc. bench_connect sdrv cdrv client_name server_name b b = Some (s, c) \<and>
    num_qps (rb_state s) = length names * q \<and> num_qps (rb_state c) = length names * q \<and>
    bt_get (bs_conns (rb_state s)) client_name = Some sc \<and> bt_get (bs_conns (rb_state c)) server_name = Some cc \<and>
    list_all2 (list_all2 paired) (map cn_sessions (ac_nics sc)) (map cn_sessions (ac_nics cc))"
proof -
  have rs: "reachable_from q (rb_runtimes b) (endpoints ss)" and rc: "reachable_from q (rb_runtimes b) (endpoints cs)"
    by (rule create_all_reachable, fact)+
  obtain s1 s2 s0 s' where s: "prepared sdrv client_name b = Some (s1, endpoints ss)"
    "complete_handshake_for sdrv client_name (endpoints ss) (endpoints cs) s1 = Some (s2, Inr ())"
    "endpoints s0 = endpoints ss" "nics_connected s0 (endpoints cs) s'"
    "bt_get (bs_conns (rb_state s2)) client_name = Some \<lparr>ac_nics = map (\<lambda>ss. \<lparr>cn_sessions = ss, cn_rr = 0\<rparr>) s', ac_local = endpoints ss\<rparr>"
    "num_qps (rb_state s2) = length names * q"
    using side_connects[OF assms(1-3,6) rc, of client_name] by blast
  obtain c1 c2 c0 c' where c: "prepared cdrv server_name b = Some (c1, endpoints cs)"
    "complete_handshake_for cdrv server_name (endpoints cs) (endpoints ss) c1 = Some (c2, Inr ())"
    "endpoints c0 = endpoints cs" "nics_connected c0 (endpoints ss) c'"
    "bt_get (bs_conns (rb_state c2)) server_name = Some \<lparr>ac_nics = map (\<lambda>ss. \<lparr>cn_sessions = ss, cn_rr = 0\<rparr>) c', ac_local = endpoints cs\<rparr>"
    "num_qps (rb_state c2) = length names * q"
    using side_connects[OF assms(1,4,5,7) rs, of server_name] by blast
  have "list_all2 (list_all2 paired) s' c'"
    using reachable_shape[of q "rb_runtimes b" s0] reachable_shape[of q "rb_runtimes b" c0] rs rc s(3,4) c(3,4)
    by (intro nics_paired[of s0 c0]) simp_all
  moreover have "bench_connect sdrv cdrv client_name server_name b b = Some (s2, c2)" using s(1,2) c(1,2) by (simp add: bench_connect_def is_ok_def)
  ultimately show ?thesis using s(5,6) c(5,6) by (auto simp: comp_def)
qed

theorem bench_connects_witness:
  "\<exists>b s c sc cc. backend_new ex_lib topo_os [''mlx5_0''] 1 = Inr b \<and> bench_connect ex_drv ex_drv ''client'' ''server'' b b = Some (s, c) \<and>
    num_qps (rb_state s) = 1 \<and> num_qps (rb_state c) = 1 \<and>
    bt_get (bs_conns (rb_state s)) ''client'' = Some sc \<and> bt_get (bs_conns (rb_state c)) ''server'' = Some cc \<and>
    list_all2 (list_all2 paired) (map cn_sessions (ac_nics sc)) (map cn_sessions (ac_nics cc))"
proof -
  have "trim ''mlx5_0'' \<noteq> []" by (simp add: char_eval)
  then obtain b where b: "backend_new ex_lib topo_os [''mlx5_0''] 1 = Inr b" "rb_runtimes b = [ex_rt]"
    by (simp add: backend_new_def ex_runtime and_then_def ex_rt_def)
  obtain psn s where c: "create_all ex_drv 1 (rb_runtimes b) 1 = (psn, Inr [[s]])"
    by (simp add: b(2) session_create_def ex_drv_def and_then_def map_err_def)
  have d: "\<forall>eps \<in> set (endpoints [[s]]). distinct (map ep_qpn eps)" by (simp add: endpoints_def)
  have m: "qd_modify ex_drv k m = Inr ()" for k m by (simp add: ex_drv_def)
  from bench_connects[OF b(1) c d c d m m, of "''client''" "''server''"] b(1) show ?thesis by auto
qed

end
