(* ===== verification/Spec2Isabelle.thy ===== *)
theory Spec2Isabelle
  imports Pega_Memory_Lifecycle Pega_Store_Memory Pega_Local_Build Pega_Rdma_Bench
begin

text \<open>
  A verification development for pegastore, a store for the KV cache and the weights of
  inference engines. This theory imports all the others.

  \<^bold>\<open>The program.\<close> Three crates under \<open>src/crates\<close>.

  \<^item> \<open>pegastore\<close> has the vocabulary (\<open>types.rs\<close>, \<open>error.rs\<close>, \<open>region.rs\<close>, \<open>ops.rs\<close>), the backend
    interface \<open>Access\<close> (\<open>access.rs\<close>), the handle \<open>Store\<close> that clients call (\<open>store.rs\<close>, \<open>layer.rs\<close>)
    and a reference backend in process memory (\<open>services/memory.rs\<close>). An object is a key with a
    fixed list of slots; a slot is written once, kept as replicas on devices, and evicted first
    in, first out when it is of the class \<open>Cache\<close>.
  \<^item> \<open>pegastore-cuda\<close> has the backend of one node with GPUs (\<open>local.rs\<close>), over pinned host pools
    (\<open>pinned.rs\<close>), the topology of the node (\<open>topology.rs\<close>) and the CUDA driver (\<open>cuda.rs\<close>).
  \<^item> \<open>pegastore-rdma\<close> has the transfer engine between nodes: its interface (\<open>engine.rs\<close>), the
    backend (\<open>rc_backend/mod.rs\<close>, \<open>state.rs\<close>, \<open>session.rs\<close>, \<open>runtime.rs\<close>), the topology of GPUs and
    NICs (\<open>rdma_topo.rs\<close>), the NUMA utilities (\<open>numa.rs\<close>), and benchmark programs in \<open>examples\<close>.

  \<^bold>\<open>Conventions.\<close> A \<open>struct\<close> is a record and an \<open>enum\<close> a datatype. Integers are words of their
  width; a \<open>usize\<close> is a natural number, with the bound written out where a new one is computed,
  or a 64 bit word where it is added to an address. A panic is \<open>None\<close> of the type \<open>outcome\<close>: an
  index out of range, \<open>unwrap\<close>, \<open>expect\<close>, a failed assertion, debug assertions included, and an
  overflow under overflow checks. A \<open>Result\<close> is a sum with the error on the left. A method that
  changes a state takes it as an argument and returns the new one. An ordered map is an
  association list with increasing keys; a hash map whose order of iteration the code does not
  depend on is modelled in the same way. Process and device memory are a function from
  addresses to bytes.

  \<^bold>\<open>Shared theories.\<close>

  \<^item> \<open>Pega_Prelude\<close>: outcomes, results, checked arithmetic, facts on lists and words.
    \<open>Pega_Text\<close>: the methods of \<open>str\<close> that the parsers use, on ASCII text.
  \<^item> \<open>Pega_Btree\<close>: the ordered map. The locale \<open>ordered_map\<close> is what the clients rely on.
  \<^item> \<open>Pega_Distance\<close>: the choice of the nearest replica. The locale \<open>device_distance\<close> is what both
    backends promise of their distance; \<open>mem_dist\<close> and \<open>topo_dist\<close> interpret it.

  \<^bold>\<open>Vocabulary.\<close> \<open>Pega_Types\<close> models \<open>types.rs\<close> and \<open>error.rs\<close>, \<open>Pega_Region\<close> models \<open>region.rs\<close> and
  the two copy loops, gather and scatter. \<open>Pega_Ops\<close> models \<open>ops.rs\<close>, every constructor and every
  check, and says exactly what passes validation.

  \<^bold>\<open>Reference backend.\<close> \<open>Pega_Memory\<close> has the builder, the state (\<open>mem_state\<close>), the eviction loop
  and one definition for each method. A method holds the lock for its whole body, so it is one
  step.

  \<^item> \<open>Pega_Memory_Evict\<close>, \<open>Pega_Memory_Inv\<close>, \<open>Pega_Memory_Put\<close>, \<open>Pega_Memory_Ops\<close>, \<open>Pega_Memory_Get\<close>
    and \<open>Pega_Memory_Total\<close>: the invariant, which ties the used counters and the eviction queues
    to the replicas; that every operation keeps it; the effect of every operation on every
    branch; and when it returns.
  \<^item> \<open>Pega_Memory_Spec\<close>: sequences of operations (\<open>mem_run\<close>) and the abstract machine, a store that
    is written once and may forget.
  \<^item> \<open>Pega_Memory_Props\<close> and \<open>Pega_Memory_Lifecycle\<close>: the properties. Every reachable state has the
    invariant and stays in its capacity; the backend refines the abstract machine; which slots a
    \<open>put\<close> writes and whom it may evict; what a \<open>get\<close> reads, from where and when it fails; \<open>publish\<close>,
    \<open>stat\<close>, removal and the drop of a region. \<open>Pega_Memory_Examples\<close>: the executions that serve as
    witnesses.

  \<^bold>\<open>Store.\<close> \<open>Pega_Store\<close> has \<open>Store\<close> over a record of the methods of \<open>Access\<close>; the futures of
  \<open>get_many\<close> complete in an order that is an argument. The locale \<open>access_backend\<close> is the contract
  of \<open>Access\<close>. \<open>Pega_Store_Memory\<close> interprets it for the reference backend (\<open>ma\<close>): what the
  capabilities refuse, and that the order of completion does not matter.

  \<^bold>\<open>CUDA backend.\<close>

  \<^item> \<open>Pega_Topology\<close>: detection over the contents of sysfs, and the distance.
  \<^item> \<open>Pega_Pinned\<close>, \<open>Pega_Pinned_Props\<close>: the allocator and the first touch. The locale \<open>buffer_pool\<close>
    is what the backend relies on, interpreted as \<open>pinned\<close>: live buffers and free blocks tile the
    pool, an allocation fails only if no block is large enough, and the last release leaves one
    block.
  \<^item> \<open>Pega_Copy\<close>: the copy of segment lists in lockstep is a scatter of the gathered bytes.
  \<^item> \<open>Pega_Local\<close>: every operation of \<open>local.rs\<close>. Here the locks are released within an operation,
    so a critical section is one definition, and \<open>local_world\<close> also has the buffers that running
    operations hold. \<open>Pega_Local_Refs\<close>: the invariant on owners of buffers. \<open>Pega_Local_Safe\<close>: any
    interleaving of critical sections (\<open>local_step\<close>) is memory safe, and stored bytes do not
    change. \<open>Pega_Local_Run\<close>, \<open>Pega_Local_Props\<close>: the operations are runs of these sections, and
    a \<open>get\<close> after a \<open>put\<close> delivers its bytes. \<open>Pega_Local_Build\<close>: opening the devices, the builder.

  \<^bold>\<open>RDMA engine.\<close>

  \<^item> \<open>Pega_Numa\<close>, \<open>Pega_Rdma_Topo\<close>, \<open>Pega_Rdma_Runtime\<close>: \<open>numa.rs\<close>, \<open>rdma_topo.rs\<close>, \<open>runtime.rs\<close>. CPU
    lists are read back as they were printed; the NICs for a GPU are those of its node; a NIC opens on
    its first active port with the best address.
  \<^item> \<open>Pega_Rdma_Map\<close>: registered memory, of which a lookup finds exactly what covers the range.
  \<^item> \<open>Pega_Rdma_Session\<close>: the worker of a queue pair. A batch on a working queue pair returns, with
    every operation posted once and in order.
  \<^item> \<open>Pega_Rdma_Batch\<close>: the round robin over NICs and the distribution over queue pairs.
  \<^item> \<open>Pega_Rdma_Backend\<close>: registration, creation of queue pairs, handshake, submission.
    \<open>Pega_Rdma_Handshake\<close>: any number of handshakes, aborts and invalidations interleaved
    (\<open>hs_step\<close>) and their invariant. \<open>Pega_Rdma_Props\<close>: an offered handshake finds its queue pairs,
    the two sides agree, no two peers share one, and on every reachable backend a batch becomes
    exactly one operation for each descriptor.
  \<^item> \<open>Pega_Rdma_Bench\<close>: the parts of \<open>cpu_bench.rs\<close> and \<open>gpu_rdma_bench.rs\<close> that choose the transfers
    and connect two engines. The choice of random blocks ends, because the generator takes
    every value of its 64 bits.

  \<^bold>\<open>Loops and fuel.\<close> Recursions that are not structural have a termination proof: the lockstep
  copy, the eviction of the CUDA backend, the first touch, the posting of a batch. Two loops have
  no bound of their own and get fuel. The worker of a queue pair polls for completions, one unit
  for each poll; it is shown that some fuel suffices if the queue pair completes what was posted.
  The choice of random blocks draws, one unit for each draw; some fuel suffices whenever the
  pool has a block. Both statements are that the result is returned, not only that it is right
  if it is.

  \<^bold>\<open>What is an argument.\<close> Code outside the repository is an argument of the definitions that call
  it: the CUDA driver (\<open>cuda_engine\<close> and the results of opening), the verbs library (\<open>verbs_lib\<close>,
  \<open>qp_driver\<close>, \<open>rc_dev\<close>), files, links and commands of the system (\<open>os_env\<close>), \<open>mmap\<close> and the system
  calls of \<open>numa.rs\<close>, and the binary encoding of descriptors. What a theorem needs of them is among
  its assumptions, and its witness has an instance. One assumption deserves attention: a device
  does not use the number of a queue pair again before a failed handshake with that number is
  aborted; \<open>reused_number_strands_peer\<close> shows what happens otherwise.

  \<^bold>\<open>Not modelled.\<close> Text for people: \<open>Debug\<close>, \<open>Display\<close>, log messages, the topology summaries. The
  executor of futures, channels and threads, except as orders of steps; the mapping and
  registration of memory with the driver, except for their results; the raw calls of \<open>cuda.rs\<close>.
  Of the benchmark programs: clocks, floating point statistics, buffers, barriers, the command
  line and the printed tables. \<open>weights_fanout.rs\<close> consists of such code around operations of the
  CUDA backend, and \<open>lib.rs\<close> and \<open>services/mod.rs\<close> of declarations. The tests are not part of the
  program.
\<close>

end
